theory Spec2Isabelle
  imports Complex_Main "HOL-Library.Monad_Syntax" "HOL-Library.Word"
begin

section \<open>Results\<close>

text \<open>
  A function of the package returns a value, throws (\<open>std::invalid_argument\<close>,
  \<open>std::runtime_error\<close>) or runs into undefined behaviour (a null pointer dereferenced,
  an index out of range). The model returns \<open>Inr\<close> of the value or \<open>Inl\<close> of what went
  wrong. Of the assertions of the code the model keeps those of the public operators that
  compare the count of the cache lane before and after (\<open>assertion_failed\<close>). Recursion
  over the graph takes fuel; \<open>out_of_fuel\<close> is the result of a call that has not returned
  within it.
\<close>

datatype error =
  invalid_argument | runtime_error | null_dereference | out_of_range | assertion_failed
  | out_of_fuel

definition bind :: "error + 'a \<Rightarrow> ('a \<Rightarrow> error + 'b) \<Rightarrow> error + 'b" where
  "bind m f = (case m of Inl e \<Rightarrow> Inl e | Inr x \<Rightarrow> f x)"

section \<open>Scalars and the float pool (include/dd/ComplexTable.hpp)\<close>

text \<open>
  The scalar type \<open>fp\<close> of the package is a binary floating point number. The model
  computes with real numbers: rounding and NaN are outside it, every comparison and every
  hash of the code is kept.

  An entry of the pool is addressed by a pointer. The model keeps the kinds of entry
  apart in the pointer itself: the two static entries, the entries of the pool's chunks
  (numbered in allocation order) and the entries of the cache lane. The chain of a bucket
  (the \<open>next\<close> fields) is the list of the pointers on it, head first.
\<close>

type_synonym fp = real

datatype EntryPtr = ZeroEntry | OneEntry | PoolEntry nat | CacheEntry nat

record Entry =
  val :: fp
  refCount :: nat

definition NBUCKET :: nat where "NBUCKET = 32768"
definition INITIAL_ALLOCATION_SIZE :: nat where "INITIAL_ALLOCATION_SIZE = 2048"
definition GROWTH_FACTOR :: nat where "GROWTH_FACTOR = 2"
definition INITIAL_GC_LIMIT :: nat where "INITIAL_GC_LIMIT = 50000"
definition MASK :: nat where "MASK = NBUCKET - 1"

record ComplexTable =
  ctab_entries :: "EntryPtr \<Rightarrow> Entry"
  ctab_table :: "nat \<Rightarrow> EntryPtr list"
  TOLERANCE :: fp
  ctab_available :: "EntryPtr list"
  ctab_chunkID :: nat
  ctab_chunkIt :: nat
  ctab_chunkEndIt :: nat
  ctab_allocationSize :: nat
  ctab_allocations :: nat
  ctab_count :: nat
  ctab_peakCount :: nat
  ctab_collisions :: nat
  ctab_hits :: nat
  ctab_lookups :: nat
  ctab_gcCalls :: nat
  ctab_gcRuns :: nat
  ctab_gcLimit :: nat

definition setTolerance :: "fp \<Rightarrow> ComplexTable \<Rightarrow> ComplexTable" where
  "setTolerance tol s = s\<lparr>TOLERANCE := tol\<rparr>"

text \<open>The linear, clipped hash. The code asserts \<open>val \<ge> 0\<close>; the cast to
  \<open>size_t\<close> truncates.\<close>

definition ComplexTable_hash :: "fp \<Rightarrow> nat" where
  "ComplexTable_hash v = min (nat \<lfloor>v * real MASK\<rfloor>) MASK"

text \<open>\<open>find\<close>: walk the chain of a bucket; the first entry within the tolerance wins.\<close>

fun ComplexTable_find :: "EntryPtr list \<Rightarrow> fp \<Rightarrow> ComplexTable \<Rightarrow> EntryPtr option \<times> ComplexTable" where
  "ComplexTable_find [] v s = (None, s)"
| "ComplexTable_find (p # ps) v s =
     (if \<bar>val (ctab_entries s p) - v\<bar> < TOLERANCE s
      then (Some p, s\<lparr>ctab_hits := ctab_hits s + 1\<rparr>)
      else ComplexTable_find ps v (s\<lparr>ctab_collisions := ctab_collisions s + 1\<rparr>))"

text \<open>\<open>getEntry\<close>: pop the stack of returned entries, else take the next entry of the
  current chunk, opening a new chunk when the current one is used up. The chunks lie one
  after the other in the numbering of \<open>PoolEntry\<close>.\<close>

definition getEntry :: "ComplexTable \<Rightarrow> EntryPtr \<times> ComplexTable" where
  "getEntry s =
     (case ctab_available s of
        entry # rest \<Rightarrow>
          (entry, s\<lparr>ctab_available := rest,
                     ctab_entries := (ctab_entries s)(entry := (ctab_entries s entry)\<lparr>refCount := 0\<rparr>)\<rparr>)
      | [] \<Rightarrow>
          (let s1 = (if ctab_chunkIt s = ctab_chunkEndIt s
                     then s\<lparr>ctab_allocations := ctab_allocations s + ctab_allocationSize s,
                            ctab_allocationSize := ctab_allocationSize s * GROWTH_FACTOR,
                            ctab_chunkID := ctab_chunkID s + 1,
                            ctab_chunkEndIt := ctab_chunkEndIt s + ctab_allocationSize s\<rparr>
                     else s)
           in (PoolEntry (ctab_chunkIt s1), s1\<lparr>ctab_chunkIt := ctab_chunkIt s1 + 1\<rparr>)))"

definition returnEntry :: "EntryPtr \<Rightarrow> ComplexTable \<Rightarrow> ComplexTable" where
  "returnEntry entry s = s\<lparr>ctab_available := entry # ctab_available s\<rparr>"

text \<open>\<open>lookup\<close>, statement by statement. The third search is commented in the code as the
  search of the higher bucket; its key is computed from \<open>val - TOLERANCE\<close>, as the code
  does.\<close>

definition ComplexTable_insert_new :: "fp \<Rightarrow> nat \<Rightarrow> ComplexTable \<Rightarrow> EntryPtr \<times> ComplexTable" where
  "ComplexTable_insert_new v key s =
     (let (entry, s1) = getEntry s;
          s2 = s1\<lparr>ctab_entries := (ctab_entries s1)(entry := (ctab_entries s1 entry)\<lparr>val := v\<rparr>),
                  ctab_table := (ctab_table s1)(key := entry # ctab_table s1 key),
                  ctab_count := ctab_count s1 + 1\<rparr>
      in (entry, s2\<lparr>ctab_peakCount := max (ctab_peakCount s2) (ctab_count s2)\<rparr>))"

definition ComplexTable_lookup :: "fp \<Rightarrow> ComplexTable \<Rightarrow> EntryPtr \<times> ComplexTable" where
  "ComplexTable_lookup v s =
     (if \<bar>v\<bar> < TOLERANCE s then (ZeroEntry, s)
      else if \<bar>v - 1\<bar> < TOLERANCE s then (OneEntry, s)
      else
        (let s0 = s\<lparr>ctab_lookups := ctab_lookups s + 1\<rparr>;
             key = ComplexTable_hash v;
             (p1, s1) = ComplexTable_find (ctab_table s0 key) v s0
         in case p1 of Some e \<Rightarrow> (e, s1)
            | None \<Rightarrow>
               (let (p2, s2) =
                      (if v - TOLERANCE s1 \<ge> 0
                       then (let lowerKey = ComplexTable_hash (v - TOLERANCE s1)
                             in if lowerKey \<noteq> key
                                then ComplexTable_find (ctab_table s1 lowerKey) v s1
                                else (None, s1))
                       else (None, s1))
                in case p2 of Some e \<Rightarrow> (e, s2)
                   | None \<Rightarrow>
                      (let upperKey = ComplexTable_hash (v - TOLERANCE s2);
                           (p3, s3) = (if upperKey \<noteq> key
                                       then ComplexTable_find (ctab_table s2 upperKey) v s2
                                       else (None, s2))
                       in case p3 of Some e \<Rightarrow> (e, s3)
                          | None \<Rightarrow> ComplexTable_insert_new v key s3))))"

text \<open>\<open>clear\<close>: empty buckets and stack, keep the first chunk only. The entries of the
  dropped chunks are gone; a chunk allocated later starts from value-initialised entries.\<close>

definition ComplexTable_clear :: "ComplexTable \<Rightarrow> ComplexTable" where
  "ComplexTable_clear s =
     s\<lparr>ctab_table := (\<lambda>key. []),
       ctab_available := [],
       ctab_entries := (\<lambda>p. case p of
                           PoolEntry k \<Rightarrow> if k < INITIAL_ALLOCATION_SIZE then ctab_entries s p
                                          else \<lparr>val = 0, refCount = 0\<rparr>
                         | _ \<Rightarrow> ctab_entries s p),
       ctab_chunkID := 0,
       ctab_chunkIt := 0,
       ctab_chunkEndIt := INITIAL_ALLOCATION_SIZE,
       ctab_allocationSize := INITIAL_ALLOCATION_SIZE * GROWTH_FACTOR,
       ctab_allocations := INITIAL_ALLOCATION_SIZE,
       ctab_count := 0,
       ctab_peakCount := 0,
       ctab_collisions := 0,
       ctab_hits := 0,
       ctab_lookups := 0,
       ctab_gcCalls := 0,
       ctab_gcRuns := 0,
       ctab_gcLimit := INITIAL_GC_LIMIT\<rparr>"

text \<open>The lookup order the specification describes: the bucket of the key, then the bucket
  of \<open>v - tol\<close>, then the bucket of \<open>v + tol\<close>, then a new entry at the head of the
  key's bucket. This second definition follows the specification's words; it is compared
  with \<open>ComplexTable_lookup\<close> below.\<close>

definition ComplexTable_lookup_spec :: "fp \<Rightarrow> ComplexTable \<Rightarrow> EntryPtr \<times> ComplexTable" where
  "ComplexTable_lookup_spec v s =
     (if \<bar>v\<bar> < TOLERANCE s then (ZeroEntry, s)
      else if \<bar>v - 1\<bar> < TOLERANCE s then (OneEntry, s)
      else
        (let s0 = s\<lparr>ctab_lookups := ctab_lookups s + 1\<rparr>;
             key = ComplexTable_hash v;
             (p1, s1) = ComplexTable_find (ctab_table s0 key) v s0
         in case p1 of Some e \<Rightarrow> (e, s1)
            | None \<Rightarrow>
               (let (p2, s2) = ComplexTable_find (ctab_table s1 (ComplexTable_hash (v - TOLERANCE s1))) v s1
                in case p2 of Some e \<Rightarrow> (e, s2)
                   | None \<Rightarrow>
                      (let (p3, s3) = ComplexTable_find (ctab_table s2 (ComplexTable_hash (v + TOLERANCE s2))) v s2
                       in case p3 of Some e \<Rightarrow> (e, s3)
                          | None \<Rightarrow> ComplexTable_insert_new v key s3))))"

text \<open>Two doubles on either side of the boundary between the buckets 16383 and 16384,
  \<open>200 / 2^53\<close> apart, and the state the pool is in after \<open>clear\<close>, the default
  tolerance and a lookup of the larger one.\<close>

definition tol13 :: fp where "tol13 = 1 / 10 ^ 13"
definition v_hi :: fp where "v_hi = 4503737070518500 / 2 ^ 53"
definition v_lo :: fp where "v_lo = 4503737070518300 / 2 ^ 53"

definition pool_after_hi :: "ComplexTable \<Rightarrow> ComplexTable" where
  "pool_after_hi s = snd (ComplexTable_lookup v_hi (ComplexTable_clear (setTolerance tol13 s)))"


section \<open>Complex numbers and the cache lane (DDcomplex.hpp)\<close>

text \<open>
  A pointer to an entry carries the sign of the number in its least significant bit. The
  model keeps the bit beside the pointer: \<open>(p, True)\<close> is the negative pointer to \<open>p\<close>.
\<close>

type_synonym TaggedPtr = "EntryPtr \<times> bool"

definition getAlignedPointer :: "TaggedPtr \<Rightarrow> EntryPtr" where
  "getAlignedPointer x = fst x"

definition isNegativePointer :: "TaggedPtr \<Rightarrow> bool" where
  "isNegativePointer x = snd x"

definition getNegativePointer :: "TaggedPtr \<Rightarrow> TaggedPtr" where
  "getNegativePointer x = (fst x, True)"

definition flipPointerSign :: "TaggedPtr \<Rightarrow> TaggedPtr" where
  "flipPointerSign x = (fst x, \<not> snd x)"

record Complex =
  cr :: TaggedPtr
  ci :: TaggedPtr

record ComplexValue =
  cv_r :: fp
  cv_i :: fp

definition ZERO :: Complex where
  "ZERO = \<lparr>cr = (ZeroEntry, False), ci = (ZeroEntry, False)\<rparr>"

definition ONE :: Complex where
  "ONE = \<lparr>cr = (OneEntry, False), ci = (ZeroEntry, False)\<rparr>"

definition CACHE_SIZE :: nat where "CACHE_SIZE = 1800"

text \<open>
  The state of \<open>ComplexNumbers\<close>: the pool, the chain of the cache entries that are
  available (\<open>Cache_Avail\<close> and the \<open>next\<close> fields behind it, as a list) and the number
  of available cache entries. All entries, those of the cache lane too, live in the
  memory of the pool.
\<close>

record ComplexNumbers =
  cn_pool :: ComplexTable
  Cache_Avail :: "EntryPtr list"
  cacheCount :: int

definition entry_val :: "ComplexNumbers \<Rightarrow> TaggedPtr \<Rightarrow> fp" where
  "entry_val s x =
     (if isNegativePointer x then - val (ctab_entries (cn_pool s) (getAlignedPointer x))
      else val (ctab_entries (cn_pool s) (getAlignedPointer x)))"

definition set_val :: "TaggedPtr \<Rightarrow> fp \<Rightarrow> ComplexNumbers \<Rightarrow> ComplexNumbers" where
  "set_val x v s =
     s\<lparr>cn_pool := (cn_pool s)\<lparr>ctab_entries :=
          (ctab_entries (cn_pool s))(getAlignedPointer x :=
             (ctab_entries (cn_pool s) (getAlignedPointer x))\<lparr>val := v\<rparr>)\<rparr>\<rparr>"

definition CN_tol :: "ComplexNumbers \<Rightarrow> fp" where
  "CN_tol s = TOLERANCE (cn_pool s)"

definition valueOf :: "ComplexNumbers \<Rightarrow> Complex \<Rightarrow> ComplexValue" where
  "valueOf s c = \<lparr>cv_r = entry_val s (cr c), cv_i = entry_val s (ci c)\<rparr>"

definition equalsZero :: "ComplexNumbers \<Rightarrow> Complex \<Rightarrow> bool" where
  "equalsZero s c =
     (c = ZERO \<or> (\<bar>entry_val s (cr c)\<bar> < CN_tol s \<and> \<bar>entry_val s (ci c)\<bar> < CN_tol s))"

definition equalsZeroValue :: "ComplexNumbers \<Rightarrow> ComplexValue \<Rightarrow> bool" where
  "equalsZeroValue s c = (\<bar>cv_r c\<bar> < CN_tol s \<and> \<bar>cv_i c\<bar> < CN_tol s)"

definition equalsOne :: "ComplexNumbers \<Rightarrow> Complex \<Rightarrow> bool" where
  "equalsOne s c =
     (c = ONE \<or> (\<bar>entry_val s (cr c) - 1\<bar> < CN_tol s \<and> \<bar>entry_val s (ci c)\<bar> < CN_tol s))"

definition mag2 :: "ComplexNumbers \<Rightarrow> Complex \<Rightarrow> fp" where
  "mag2 s a = entry_val s (cr a) * entry_val s (cr a) + entry_val s (ci a) * entry_val s (ci a)"

text \<open>
  The cache lane. \<open>getCachedComplex\<close> takes the first two entries of the chain,
  \<open>getTempCachedComplex\<close> names them and leaves them on the chain, \<open>releaseCached\<close>
  puts the two entries of a number back at the head. Where the chain is used up the code
  dereferences a null pointer; the model returns the error.
\<close>

definition getTempCachedComplex :: "ComplexNumbers \<Rightarrow> error + Complex" where
  "getTempCachedComplex s =
     (case Cache_Avail s of
        r # i # rest \<Rightarrow> Inr \<lparr>cr = (r, False), ci = (i, False)\<rparr>
      | _ \<Rightarrow> Inl null_dereference)"

definition getTempCachedComplexV :: "fp \<Rightarrow> fp \<Rightarrow> ComplexNumbers \<Rightarrow> error + Complex \<times> ComplexNumbers" where
  "getTempCachedComplexV r i s =
     bind (getTempCachedComplex s) (\<lambda>c. Inr (c, set_val (ci c) i (set_val (cr c) r s)))"

definition getCachedComplex :: "ComplexNumbers \<Rightarrow> error + Complex \<times> ComplexNumbers" where
  "getCachedComplex s =
     (case Cache_Avail s of
        r # i # rest \<Rightarrow>
          Inr (\<lparr>cr = (r, False), ci = (i, False)\<rparr>,
               s\<lparr>cacheCount := cacheCount s - 2, Cache_Avail := rest\<rparr>)
      | _ \<Rightarrow> Inl null_dereference)"

definition getCachedComplexV :: "fp \<Rightarrow> fp \<Rightarrow> ComplexNumbers \<Rightarrow> error + Complex \<times> ComplexNumbers" where
  "getCachedComplexV r i s =
     bind (getCachedComplex s) (\<lambda>(c, s1). Inr (c, set_val (ci c) i (set_val (cr c) r s1)))"

definition releaseCached :: "Complex \<Rightarrow> ComplexNumbers \<Rightarrow> ComplexNumbers" where
  "releaseCached c s =
     s\<lparr>Cache_Avail := getAlignedPointer (cr c) # getAlignedPointer (ci c) # Cache_Avail s,
       cacheCount := cacheCount s + 2\<rparr>"

text \<open>
  Modelled from the spec: the arithmetic of \<open>ComplexNumbers\<close> (\<open>add\<close>, \<open>mul\<close>,
  \<open>div\<close>, \<open>conj\<close>) and its \<open>lookup\<close> are declared in the header and defined in a
  file that is not among the sources. The specification: the operations work in double
  precision on the values of their operands and store the result in the entries of the
  result; \<open>conj\<close> flips the sign bit of the imaginary part; the lookup of a complex
  number looks up the magnitude of each component in the float pool and sets the sign bit
  iff the component is negative, \<open>ZERO\<close> being always untagged.
\<close>

definition CN_store :: "Complex \<Rightarrow> fp \<Rightarrow> fp \<Rightarrow> ComplexNumbers \<Rightarrow> ComplexNumbers" where
  "CN_store r x y s = set_val (ci r) y (set_val (cr r) x s)"

definition CN_add :: "Complex \<Rightarrow> Complex \<Rightarrow> Complex \<Rightarrow> ComplexNumbers \<Rightarrow> ComplexNumbers" where
  "CN_add r a b s =
     CN_store r (entry_val s (cr a) + entry_val s (cr b)) (entry_val s (ci a) + entry_val s (ci b)) s"

definition CN_mul :: "Complex \<Rightarrow> Complex \<Rightarrow> Complex \<Rightarrow> ComplexNumbers \<Rightarrow> ComplexNumbers" where
  "CN_mul r a b s =
     (let ar = entry_val s (cr a); ai = entry_val s (ci a);
          br = entry_val s (cr b); bi = entry_val s (ci b)
      in CN_store r (ar * br - ai * bi) (ar * bi + ai * br) s)"

definition CN_div :: "Complex \<Rightarrow> Complex \<Rightarrow> Complex \<Rightarrow> ComplexNumbers \<Rightarrow> ComplexNumbers" where
  "CN_div r a b s =
     (let ar = entry_val s (cr a); ai = entry_val s (ci a);
          br = entry_val s (cr b); bi = entry_val s (ci b);
          cmag = br * br + bi * bi
      in CN_store r ((ar * br + ai * bi) / cmag) ((ai * br - ar * bi) / cmag) s)"

definition CN_conj :: "Complex \<Rightarrow> Complex" where
  "CN_conj a = (if getAlignedPointer (ci a) = ZeroEntry then a else a\<lparr>ci := flipPointerSign (ci a)\<rparr>)"

definition lookupVal :: "fp \<Rightarrow> ComplexNumbers \<Rightarrow> TaggedPtr \<times> ComplexNumbers" where
  "lookupVal v s =
     (let (e, t) = ComplexTable_lookup \<bar>v\<bar> (cn_pool s)
      in ((e, v < 0 \<and> e \<noteq> ZeroEntry), s\<lparr>cn_pool := t\<rparr>))"

definition CN_lookupV :: "fp \<Rightarrow> fp \<Rightarrow> ComplexNumbers \<Rightarrow> Complex \<times> ComplexNumbers" where
  "CN_lookupV r i s =
     (let (pr, s1) = lookupVal r s; (pi, s2) = lookupVal i s1
      in (\<lparr>cr = pr, ci = pi\<rparr>, s2))"

definition CN_lookup :: "Complex \<Rightarrow> ComplexNumbers \<Rightarrow> Complex \<times> ComplexNumbers" where
  "CN_lookup c s = CN_lookupV (entry_val s (cr c)) (entry_val s (ci c)) s"

text \<open>The inline operations that combine the two (in the header).\<close>

definition addCached :: "Complex \<Rightarrow> Complex \<Rightarrow> ComplexNumbers \<Rightarrow> error + Complex \<times> ComplexNumbers" where
  "addCached a b s = bind (getCachedComplex s) (\<lambda>(c, s1). Inr (c, CN_add c a b s1))"

definition mulCached :: "Complex \<Rightarrow> Complex \<Rightarrow> ComplexNumbers \<Rightarrow> error + Complex \<times> ComplexNumbers" where
  "mulCached a b s = bind (getCachedComplex s) (\<lambda>(c, s1). Inr (c, CN_mul c a b s1))"

section \<open>Nodes, edges and the unique tables (UniqueTable.hpp)\<close>

text \<open>
  A qubit index is a signed 8-bit integer, \<open>-1\<close> for the terminal. A node pointer is
  null, the static terminal node of its kind, or a node of the chunks of a unique table
  (numbered in allocation order). Vector nodes have \<open>RADIX\<close> edges and matrix nodes
  \<open>NEDGE\<close>; the model uses one record for both, as the templates of the header do, and a
  vector node does not use the two flags.
\<close>

type_synonym Qubit = "8 word"

datatype NodePtr = Null | Terminal | NodeAt nat

record Edge =
  ep :: NodePtr
  ew :: Complex

record Node =
  ne :: "Edge list"
  nref :: nat
  nv :: Qubit
  symm :: bool
  ident :: bool

datatype Kind = Vector | Matrix

definition RADIX :: nat where "RADIX = 2"
definition NEDGE :: nat where "NEDGE = 4"

definition arity :: "Kind \<Rightarrow> nat" where
  "arity k = (case k of Vector \<Rightarrow> RADIX | Matrix \<Rightarrow> NEDGE)"

text \<open>The static terminal nodes \<open>vTerminal\<close> and \<open>mTerminal\<close>, with their initialisers.\<close>

definition nullEdge :: Edge where
  "nullEdge = \<lparr>ep = Null, ew = ZERO\<rparr>"

definition vTerminal :: Node where
  "vTerminal = \<lparr>ne = [nullEdge, nullEdge], nref = 0, nv = - 1, symm = False, ident = False\<rparr>"

definition mTerminal :: Node where
  "mTerminal = \<lparr>ne = [nullEdge, nullEdge, nullEdge, nullEdge], nref = 0, nv = - 1,
                 symm = True, ident = True\<rparr>"

definition terminalNode :: "Kind \<Rightarrow> Node" where
  "terminalNode k = (case k of Vector \<Rightarrow> vTerminal | Matrix \<Rightarrow> mTerminal)"

text \<open>
  The header that declares the edges \<open>vZero\<close>, \<open>vOne\<close>, \<open>mZero\<close> and \<open>mOne\<close> is not
  among the sources. The code tells \<open>{nullptr, CN::ZERO}\<close> and \<open>vZero\<close> apart
  (\<open>multiply2\<close>) and dereferences the target of a zero edge (\<open>trace\<close> reads
  \<open>a.p->v\<close> of every child first), so the zero edges point to the terminal, as the one
  edges do.
\<close>

definition zeroEdge :: Edge where
  "zeroEdge = \<lparr>ep = Terminal, ew = ZERO\<rparr>"

definition oneEdge :: Edge where
  "oneEdge = \<lparr>ep = Terminal, ew = ONE\<rparr>"

definition isTerminal :: "Edge \<Rightarrow> bool" where
  "isTerminal e = (ep e = Terminal)"

text \<open>The \<open>i\<close>-th edge of a node, \<open>p->e[i]\<close>.\<close>

definition childEdge :: "Node \<Rightarrow> nat \<Rightarrow> error + Edge" where
  "childEdge n i = (if i < length (ne n) then Inr (ne n ! i) else Inl out_of_range)"

definition NODE_NBUCKET :: nat where "NODE_NBUCKET = 32768"
definition ALLOCATION_SIZE :: nat where "ALLOCATION_SIZE = 2000"
definition NODE_MASK :: nat where "NODE_MASK = NODE_NBUCKET - 1"

text \<open>
  A unique table: the memory of its nodes, one array of buckets per variable (the chain of
  a bucket as the list of the nodes on it, head first), the chain of available nodes, and
  the counters.
\<close>

record UniqueTable =
  ut_nodes :: "nat \<Rightarrow> Node"
  ut_nvars :: nat
  ut_tables :: "nat \<Rightarrow> nat \<Rightarrow> NodePtr list"
  ut_available :: "NodePtr list"
  ut_allocations :: nat
  ut_nodeCount :: nat
  ut_peakNodeCount :: nat
  ut_collisions :: nat
  ut_hits :: nat
  ut_lookups :: nat
  ut_active :: "nat \<Rightarrow> nat"
  ut_activeNodeCount :: nat
  ut_maxActive :: nat
  ut_gcCalls :: nat
  ut_gcRuns :: nat
  ut_gcInitialLimit :: nat
  ut_gcLimit :: nat
  ut_gcIncrement :: nat

definition deref :: "Kind \<Rightarrow> UniqueTable \<Rightarrow> NodePtr \<Rightarrow> error + Node" where
  "deref k ut p =
     (case p of Null \<Rightarrow> Inl null_dereference
      | Terminal \<Rightarrow> Inr (terminalNode k)
      | NodeAt a \<Rightarrow> Inr (ut_nodes ut a))"

text \<open>Writing through a node pointer. The code never writes to a terminal.\<close>

definition store :: "NodePtr \<Rightarrow> Node \<Rightarrow> UniqueTable \<Rightarrow> error + UniqueTable" where
  "store p n ut =
     (case p of NodeAt a \<Rightarrow> Inr (ut\<lparr>ut_nodes := (ut_nodes ut)(a := n)\<rparr>)
      | _ \<Rightarrow> Inl null_dereference)"

text \<open>
  The hash of a node adds up the addresses of the targets and of the weights of its edges,
  shifted by the index of the edge. The model numbers the objects in place of their
  addresses; which bucket a node falls into depends on nothing else.
\<close>

definition node_address :: "NodePtr \<Rightarrow> nat" where
  "node_address p = (case p of Null \<Rightarrow> 0 | Terminal \<Rightarrow> 64 | NodeAt a \<Rightarrow> 128 + 64 * a)"

definition entry_address :: "TaggedPtr \<Rightarrow> nat" where
  "entry_address x =
     (case fst x of ZeroEntry \<Rightarrow> 32 | OneEntry \<Rightarrow> 64
      | PoolEntry k \<Rightarrow> 96 + 64 * k | CacheEntry k \<Rightarrow> 128 + 64 * k)
     + (if snd x then 1 else 0)"

fun UniqueTable_hash_from :: "nat \<Rightarrow> Edge list \<Rightarrow> nat \<Rightarrow> nat" where
  "UniqueTable_hash_from i [] key = key"
| "UniqueTable_hash_from i (e # es) key =
     UniqueTable_hash_from (Suc i) es
       (((key + ((node_address (ep e) div 2 ^ i + entry_address (cr (ew e)) div 2 ^ i
                  + entry_address (ci (ew e)) div 2 ^ (i + 1)) mod 2 ^ 64) mod NODE_NBUCKET)
         mod 2 ^ 64) mod NODE_NBUCKET)"

definition UniqueTable_hash :: "Node \<Rightarrow> nat" where
  "UniqueTable_hash n = UniqueTable_hash_from 0 (ne n) 0"

definition returnNode :: "NodePtr \<Rightarrow> UniqueTable \<Rightarrow> UniqueTable" where
  "returnNode p ut = ut\<lparr>ut_available := p # ut_available ut\<rparr>"

text \<open>\<open>getNode\<close>: the head of the available chain, else the first node of a new chunk, whose
  other nodes become the available chain. The reference count of the node is reset.\<close>

definition defaultNode :: Node where
  "defaultNode = \<lparr>ne = [], nref = 0, nv = 0, symm = False, ident = False\<rparr>"

definition getNode :: "Kind \<Rightarrow> UniqueTable \<Rightarrow> error + NodePtr \<times> UniqueTable" where
  "getNode k ut =
     (case ut_available ut of
        r # rest \<Rightarrow>
          bind (deref k ut r) (\<lambda>n.
          bind (store r (n\<lparr>nref := 0\<rparr>) (ut\<lparr>ut_available := rest\<rparr>)) (\<lambda>ut1.
          Inr (r, ut1)))
      | [] \<Rightarrow>
          (let base = ut_allocations ut;
               ut1 = ut\<lparr>ut_allocations := base + ALLOCATION_SIZE,
                        ut_available := map NodeAt [base + 1 ..< base + ALLOCATION_SIZE]\<rparr>
           in bind (deref k ut1 (NodeAt base)) (\<lambda>n.
              bind (store (NodeAt base) (n\<lparr>nref := 0\<rparr>) ut1) (\<lambda>ut2.
              Inr (NodeAt base, ut2)))))"

text \<open>\<open>lookup\<close>: the search of the chain of the bucket compares the arrays of edges.\<close>

fun UniqueTable_search :: "Kind \<Rightarrow> UniqueTable \<Rightarrow> Edge list \<Rightarrow> NodePtr list \<Rightarrow> nat \<Rightarrow> error + NodePtr option \<times> nat" where
  "UniqueTable_search k ut es [] c = Inr (None, c)"
| "UniqueTable_search k ut es (p # ps) c =
     bind (deref k ut p) (\<lambda>n.
     if es = ne n then Inr (Some p, c) else UniqueTable_search k ut es ps (c + 1))"

definition UniqueTable_lookup :: "Kind \<Rightarrow> Edge \<Rightarrow> bool \<Rightarrow> UniqueTable \<Rightarrow> error + Edge \<times> UniqueTable" where
  "UniqueTable_lookup k e keepNode ut =
     bind (deref k ut (ep e)) (\<lambda>n.
     if nv n = - 1 then Inr (e, ut)
     else
       (let ut1 = ut\<lparr>ut_lookups := ut_lookups ut + 1\<rparr>;
            key = UniqueTable_hash n;
            v = nat (sint (nv n))
        in if sint (nv n) < 0 \<or> v \<ge> ut_nvars ut1 then Inl out_of_range
           else
             bind (UniqueTable_search k ut1 (ne n) (ut_tables ut1 v key) 0) (\<lambda>(found, c).
             let ut2 = ut1\<lparr>ut_collisions := ut_collisions ut1 + c\<rparr>
             in case found of
                  Some p \<Rightarrow>
                    (let ut3 = (if ep e \<noteq> p \<and> \<not> keepNode then returnNode (ep e) ut2 else ut2)
                     in Inr (\<lparr>ep = p, ew = ew e\<rparr>, ut3\<lparr>ut_hits := ut_hits ut3 + 1\<rparr>))
                | None \<Rightarrow>
                    (let ut3 = ut2\<lparr>ut_tables := (ut_tables ut2)(v := (ut_tables ut2 v)(key := ep e # ut_tables ut2 v key)),
                                  ut_nodeCount := ut_nodeCount ut2 + 1\<rparr>
                     in Inr (e, ut3\<lparr>ut_peakNodeCount := max (ut_peakNodeCount ut3) (ut_nodeCount ut3)\<rparr>)))))"

text \<open>
  \<open>garbageCollect\<close>: every chain of every bucket of every variable is walked; a node with
  reference count zero is unlinked and returned, and the walk throws when such a node is
  a terminal.
\<close>

fun gc_chain :: "Kind \<Rightarrow> UniqueTable \<Rightarrow> NodePtr list \<Rightarrow> error + NodePtr list \<times> NodePtr list" where
  "gc_chain k ut [] = Inr ([], [])"
| "gc_chain k ut (p # ps) =
     bind (deref k ut p) (\<lambda>n.
     if nref n = 0 then
       (if nv n = - 1 then Inl runtime_error
        else bind (gc_chain k ut ps) (\<lambda>(kept, freed). Inr (kept, p # freed)))
     else bind (gc_chain k ut ps) (\<lambda>(kept, freed). Inr (p # kept, freed)))"

fun gc_buckets :: "Kind \<Rightarrow> nat \<Rightarrow> nat list \<Rightarrow> nat \<times> nat \<times> UniqueTable \<Rightarrow> error + nat \<times> nat \<times> UniqueTable" where
  "gc_buckets k v [] acc = Inr acc"
| "gc_buckets k v (key # keys) (collected, remaining, ut) =
     bind (gc_chain k ut (ut_tables ut v key)) (\<lambda>(kept, freed).
     gc_buckets k v keys
       (collected + length freed, remaining + length kept,
        ut\<lparr>ut_tables := (ut_tables ut)(v := (ut_tables ut v)(key := kept)),
           ut_available := rev freed @ ut_available ut\<rparr>))"

fun gc_tables :: "Kind \<Rightarrow> nat list \<Rightarrow> nat \<times> nat \<times> UniqueTable \<Rightarrow> error + nat \<times> nat \<times> UniqueTable" where
  "gc_tables k [] acc = Inr acc"
| "gc_tables k (v # vs) acc =
     bind (gc_buckets k v [0 ..< NODE_NBUCKET] acc) (\<lambda>acc1. gc_tables k vs acc1)"

definition UniqueTable_garbageCollect :: "Kind \<Rightarrow> bool \<Rightarrow> UniqueTable \<Rightarrow> error + nat \<times> UniqueTable" where
  "UniqueTable_garbageCollect k force ut =
     (let ut1 = ut\<lparr>ut_gcCalls := ut_gcCalls ut + 1\<rparr>
      in if \<not> force \<and> ut_nodeCount ut1 < ut_gcLimit ut1 then Inr (0, ut1)
         else
           bind (gc_tables k [0 ..< ut_nvars ut1] (0, 0, ut1\<lparr>ut_gcRuns := ut_gcRuns ut1 + 1\<rparr>))
             (\<lambda>(collected, remaining, ut2).
                Inr (collected, ut2\<lparr>ut_gcLimit := ut_gcLimit ut2 + ut_gcIncrement ut2,
                                    ut_nodeCount := remaining\<rparr>)))"

section \<open>Garbage collection of the float pool (ComplexTable.hpp)\<close>

fun ctab_gc_buckets :: "nat list \<Rightarrow> nat \<times> nat \<times> ComplexTable \<Rightarrow> nat \<times> nat \<times> ComplexTable" where
  "ctab_gc_buckets [] acc = acc"
| "ctab_gc_buckets (key # keys) (collected, remaining, s) =
     (let kept = filter (\<lambda>p. refCount (ctab_entries s p) \<noteq> 0) (ctab_table s key);
          freed = filter (\<lambda>p. refCount (ctab_entries s p) = 0) (ctab_table s key)
      in ctab_gc_buckets keys
           (collected + length freed, remaining + length kept,
            s\<lparr>ctab_table := (ctab_table s)(key := kept),
              ctab_available := rev freed @ ctab_available s\<rparr>))"

definition ComplexTable_garbageCollect :: "bool \<Rightarrow> ComplexTable \<Rightarrow> nat \<times> ComplexTable" where
  "ComplexTable_garbageCollect force s =
     (let s1 = s\<lparr>ctab_gcCalls := ctab_gcCalls s + 1\<rparr>
      in if (\<not> force \<and> ctab_count s1 < ctab_gcLimit s1) \<or> ctab_count s1 = 0 then (0, s1)
         else
           (let (collected, remaining, s2) =
                  ctab_gc_buckets [0 ..< NBUCKET] (0, 0, s1\<lparr>ctab_gcRuns := ctab_gcRuns s1 + 1\<rparr>);
                s3 = (if remaining > ctab_gcLimit s2 * 9 div 10
                      then s2\<lparr>ctab_gcLimit := remaining + INITIAL_GC_LIMIT\<rparr>
                      else if remaining < ctab_gcLimit s2 div 16
                      then s2\<lparr>ctab_gcLimit := ctab_gcLimit s2 div 8\<rparr>
                      else s2)
            in (collected, s3\<lparr>ctab_count := remaining\<rparr>)))"

definition CN_garbageCollect :: "bool \<Rightarrow> ComplexNumbers \<Rightarrow> nat \<times> ComplexNumbers" where
  "CN_garbageCollect force s =
     (let (collected, t) = ComplexTable_garbageCollect force (cn_pool s)
      in (collected, s\<lparr>cn_pool := t\<rparr>))"

section \<open>Compute tables\<close>

text \<open>
  An edge with its weight by value (\<open>CachedEdge\<close>): the operands of the addition tables
  and the results of the binary tables.
\<close>

record CachedEdge =
  cp :: NodePtr
  cw :: ComplexValue

text \<open>
  Modelled from the spec: the class \<open>ComputeTable\<close> (\<open>lookup\<close>, \<open>insert\<close>, \<open>clear\<close>) is
  not among the sources. The specification: a bounded, fixed-capacity memo cache keyed by
  the identity of the argument edges; single-slot direct-mapped, any hash collision
  overwrites; \<open>clear\<close> empties it. The hash that maps a pair of operands to its slot is a
  parameter of the table. A lookup that misses returns a result with a null target.
\<close>

record ('l, 'r, 'res) ComputeTable =
  cmp_hash :: "'l \<Rightarrow> 'r \<Rightarrow> nat"
  cmp_table :: "nat \<Rightarrow> ('l \<times> 'r \<times> 'res) option"

definition ComputeTable_insert :: "'l \<Rightarrow> 'r \<Rightarrow> 'res \<Rightarrow> ('l, 'r, 'res) ComputeTable \<Rightarrow> ('l, 'r, 'res) ComputeTable" where
  "ComputeTable_insert a b r t = t\<lparr>cmp_table := (cmp_table t)(cmp_hash t a b := Some (a, b, r))\<rparr>"

definition ComputeTable_lookup :: "'l \<Rightarrow> 'r \<Rightarrow> ('l, 'r, 'res) ComputeTable \<Rightarrow> 'res option" where
  "ComputeTable_lookup a b t =
     (case cmp_table t (cmp_hash t a b) of
        None \<Rightarrow> None
      | Some (a', b', r) \<Rightarrow> if a' = a \<and> b' = b then Some r else None)"

definition ComputeTable_clear :: "('l, 'r, 'res) ComputeTable \<Rightarrow> ('l, 'r, 'res) ComputeTable" where
  "ComputeTable_clear t = t\<lparr>cmp_table := (\<lambda>key. None)\<rparr>"

text \<open>The Toffoli table (ToffoliTable.hpp). \<open>count\<close> is a \<open>size_t\<close>; \<open>clear\<close> tests it.\<close>

datatype ControlType = pos | neg

record Control =
  qubit :: Qubit
  ctype :: ControlType

record ToffoliEntry =
  te_n :: nat
  te_controls :: "Control list"
  te_target :: Qubit
  te_e :: Edge

record ToffoliTable =
  tt_table :: "nat \<Rightarrow> ToffoliEntry"
  tt_hits :: nat
  tt_lookups :: nat
  tt_count :: "64 word"

definition TT_NBUCKET :: nat where "TT_NBUCKET = 2048"

fun ToffoliTable_hash_from :: "Control list \<Rightarrow> nat \<Rightarrow> nat" where
  "ToffoliTable_hash_from [] key = key"
| "ToffoliTable_hash_from (c # cs) key =
     ToffoliTable_hash_from cs
       ((key * (((if ctype c = pos then 29 else 71) * nat (sint (qubit c) mod 2 ^ 32)) mod 2 ^ 32))
        mod 2 ^ 64)"

definition ToffoliTable_hash :: "Control list \<Rightarrow> Qubit \<Rightarrow> nat" where
  "ToffoliTable_hash controls target = ToffoliTable_hash_from controls (unat target) mod TT_NBUCKET"

definition ToffoliTable_insert :: "nat \<Rightarrow> Control list \<Rightarrow> Qubit \<Rightarrow> Edge \<Rightarrow> ToffoliTable \<Rightarrow> ToffoliTable" where
  "ToffoliTable_insert n controls target e t =
     t\<lparr>tt_table := (tt_table t)(ToffoliTable_hash controls target :=
                      \<lparr>te_n = n, te_controls = controls, te_target = target, te_e = e\<rparr>),
       tt_count := tt_count t + 1\<rparr>"

definition ToffoliTable_lookup :: "nat \<Rightarrow> Control list \<Rightarrow> Qubit \<Rightarrow> ToffoliTable \<Rightarrow> Edge option \<times> ToffoliTable" where
  "ToffoliTable_lookup n controls target t =
     (let t1 = t\<lparr>tt_lookups := tt_lookups t + 1\<rparr>;
          entry = tt_table t1 (ToffoliTable_hash controls target)
      in if ep (te_e entry) = Null then (None, t1)
         else if te_n entry \<noteq> n then (None, t1)
         else if te_target entry \<noteq> target then (None, t1)
         else if te_controls entry \<noteq> controls then (None, t1)
         else (Some (te_e entry), t1\<lparr>tt_hits := tt_hits t1 + 1\<rparr>))"

definition ToffoliTable_clear :: "ToffoliTable \<Rightarrow> ToffoliTable" where
  "ToffoliTable_clear t =
     (let t1 = (if tt_count t \<noteq> 0
                then t\<lparr>tt_table := (\<lambda>key. (tt_table t key)\<lparr>te_e := (te_e (tt_table t key))\<lparr>ep := Null\<rparr>\<rparr>),
                       tt_count := 0\<rparr>
                else t)
      in t1\<lparr>tt_hits := 0, tt_lookups := 0\<rparr>)"

text \<open>
  Modelled from the spec: the class \<open>OperationTable\<close> of the noise operations is not among
  the sources. The specification: a direct-mapped cache keyed by the kind of the
  operation, the set of qubits and the number of qubits; \<open>clear\<close> empties it.
\<close>

record OperationTable =
  ot_table :: "nat \<Rightarrow> ((nat \<times> Qubit list \<times> nat) \<times> Edge) option"

definition OperationTable_clear :: "OperationTable \<Rightarrow> OperationTable" where
  "OperationTable_clear t = t\<lparr>ot_table := (\<lambda>key. None)\<rparr>"

section \<open>The package\<close>

record Package =
  cn :: ComplexNumbers
  nqubits :: nat
  vUniqueTable :: UniqueTable
  mUniqueTable :: UniqueTable
  vectorAdd :: "(CachedEdge, CachedEdge, CachedEdge) ComputeTable"
  matrixAdd :: "(CachedEdge, CachedEdge, CachedEdge) ComputeTable"
  matrixTranspose :: "(Edge, Edge, Edge) ComputeTable"
  conjugateMatrixTranspose :: "(Edge, Edge, Edge) ComputeTable"
  matrixMultiplication :: "(Edge, Edge, CachedEdge) ComputeTable"
  matrixVectorMultiplication :: "(Edge, Edge, CachedEdge) ComputeTable"
  vectorInnerProduct :: "(Edge, Edge, CachedEdge) ComputeTable"
  vectorKronecker :: "(Edge, Edge, CachedEdge) ComputeTable"
  matrixKronecker :: "(Edge, Edge, CachedEdge) ComputeTable"
  toffoliTable :: ToffoliTable
  IdTable :: "Edge list"
  operations :: OperationTable

definition clearIdentityTable :: "Package \<Rightarrow> Package" where
  "clearIdentityTable s = s\<lparr>IdTable := map (\<lambda>entry. entry\<lparr>ep := Null\<rparr>) (IdTable s)\<rparr>"

definition clearComputeTables :: "Package \<Rightarrow> Package" where
  "clearComputeTables s =
     (let s1 = s\<lparr>vectorAdd := ComputeTable_clear (vectorAdd s)\<rparr>;
          s2 = s1\<lparr>matrixAdd := ComputeTable_clear (matrixAdd s1)\<rparr>;
          s3 = s2\<lparr>matrixTranspose := ComputeTable_clear (matrixTranspose s2)\<rparr>;
          s4 = s3\<lparr>conjugateMatrixTranspose := ComputeTable_clear (conjugateMatrixTranspose s3)\<rparr>;
          s5 = s4\<lparr>matrixMultiplication := ComputeTable_clear (matrixMultiplication s4)\<rparr>;
          s6 = s5\<lparr>matrixVectorMultiplication := ComputeTable_clear (matrixVectorMultiplication s5)\<rparr>;
          s7 = s6\<lparr>vectorInnerProduct := ComputeTable_clear (vectorInnerProduct s6)\<rparr>;
          s8 = s7\<lparr>vectorKronecker := ComputeTable_clear (vectorKronecker s7)\<rparr>;
          s9 = s8\<lparr>matrixKronecker := ComputeTable_clear (matrixKronecker s8)\<rparr>;
          s10 = s9\<lparr>toffoliTable := ToffoliTable_clear (toffoliTable s9)\<rparr>;
          s11 = clearIdentityTable s10
      in s11\<lparr>operations := OperationTable_clear (operations s11)\<rparr>)"

definition garbageCollect :: "bool \<Rightarrow> Package \<Rightarrow> error + Package" where
  "garbageCollect force s =
     bind (UniqueTable_garbageCollect Vector force (vUniqueTable s)) (\<lambda>(vCollect, vt).
     bind (UniqueTable_garbageCollect Matrix force (mUniqueTable s)) (\<lambda>(mCollect, mt).
     let (cCollect, c) = CN_garbageCollect force (cn s)
     in Inr (clearComputeTables (s\<lparr>vUniqueTable := vt, mUniqueTable := mt, cn := c\<rparr>))))"

section \<open>Normalization (Package::normalize)\<close>

definition getUniqueTable :: "Kind \<Rightarrow> Package \<Rightarrow> UniqueTable" where
  "getUniqueTable k s = (case k of Vector \<Rightarrow> vUniqueTable s | Matrix \<Rightarrow> mUniqueTable s)"

definition setUniqueTable :: "Kind \<Rightarrow> UniqueTable \<Rightarrow> Package \<Rightarrow> Package" where
  "setUniqueTable k ut s = (case k of Vector \<Rightarrow> s\<lparr>vUniqueTable := ut\<rparr> | Matrix \<Rightarrow> s\<lparr>mUniqueTable := ut\<rparr>)"

text \<open>Writing the array of edges of the node an edge points to (\<open>e.p->e = ...\<close>).\<close>

definition setEdges :: "Kind \<Rightarrow> NodePtr \<Rightarrow> Edge list \<Rightarrow> Package \<Rightarrow> error + Package" where
  "setEdges k p es s =
     bind (deref k (getUniqueTable k s) p) (\<lambda>n.
     bind (store p (n\<lparr>ne := es\<rparr>) (getUniqueTable k s)) (\<lambda>ut.
     Inr (setUniqueTable k ut s)))"

text \<open>
  The first loop of both normalizations: an edge whose weight is zero within the
  tolerance, and is not the pointer \<open>ZERO\<close>, has its weight released and becomes the zero
  edge.
\<close>

fun snapZeroEdges :: "bool list \<Rightarrow> Edge list \<Rightarrow> ComplexNumbers \<Rightarrow> Edge list \<times> ComplexNumbers" where
  "snapZeroEdges (z # zs) (e # es) c =
     (if z \<and> ew e \<noteq> ZERO
      then (let (es', c') = snapZeroEdges zs es (releaseCached (ew e) c) in (zeroEdge # es', c'))
      else (let (es', c') = snapZeroEdges zs es c in (e # es', c')))"
| "snapZeroEdges zs es c = (es, c)"

text \<open>\<open>r.w.r->val *= sum\<close>: the entry behind a pointer is scaled in place.\<close>

definition scaleEntry :: "TaggedPtr \<Rightarrow> fp \<Rightarrow> ComplexNumbers \<Rightarrow> ComplexNumbers" where
  "scaleEntry x k c = set_val x (val (ctab_entries (cn_pool c) (getAlignedPointer x)) * k) c"

text \<open>The scan of the vector normalization: the first edge that is neither null nor zero
  is the pivot; \<open>div\<close> is its squared magnitude and \<open>sum\<close> the sum of the squared
  magnitudes of the edges that are neither null nor zero.\<close>

fun scanV :: "ComplexNumbers \<Rightarrow> bool list \<Rightarrow> Edge list \<Rightarrow> nat \<Rightarrow> nat option \<times> fp \<times> fp \<Rightarrow> nat option \<times> fp \<times> fp" where
  "scanV c (z # zs) (e # es) i (argmax, ssum, dv) =
     (if ep e = Null \<or> z then scanV c zs es (Suc i) (argmax, ssum, dv)
      else (case argmax of
              None \<Rightarrow> scanV c zs es (Suc i) (Some i, mag2 c (ew e), mag2 c (ew e))
            | Some a \<Rightarrow> scanV c zs es (Suc i) (argmax, ssum + mag2 c (ew e), dv)))"
| "scanV c zs es i acc = acc"

fun releaseNullEdges :: "Edge list \<Rightarrow> ComplexNumbers \<Rightarrow> ComplexNumbers" where
  "releaseNullEdges [] c = c"
| "releaseNullEdges (e # es) c =
     releaseNullEdges es (if ep e = Null \<and> ew e \<noteq> ZERO then releaseCached (ew e) c else c)"

text \<open>The weight of the result: the weight of the pivot times \<open>sum\<close>, scaled in place
  when the weight of the pivot is a cached number, else looked up.\<close>

definition normalizeV_parent :: "bool \<Rightarrow> Edge \<Rightarrow> fp \<Rightarrow> ComplexNumbers \<Rightarrow> Complex \<times> ComplexNumbers" where
  "normalizeV_parent cached mx sm c1 =
     (if cached \<and> ew mx \<noteq> ONE
      then (ew mx, scaleEntry (ci (ew mx)) sm (scaleEntry (cr (ew mx)) sm c1))
      else CN_lookupV (entry_val c1 (cr (ew mx)) * sm) (entry_val c1 (ci (ew mx)) * sm) c1)"

text \<open>\<open>max.w = cn.lookup(1.0 / sum, 0.)\<close>, and the zero edge when that is \<open>ZERO\<close>.\<close>

definition normalizeV_pivot :: "Edge \<Rightarrow> fp \<Rightarrow> ComplexNumbers \<Rightarrow> Edge \<times> ComplexNumbers" where
  "normalizeV_pivot mx sm c2 =
     (let (mw, c3) = CN_lookupV (1 / sm) 0 c2
      in (if mw = ZERO then zeroEdge else mx\<lparr>ew := mw\<rparr>, c3))"

text \<open>The other edge: its weight divided by the weight of the result, looked up.\<close>

definition normalizeV_other :: "bool \<Rightarrow> Complex \<Rightarrow> Edge \<Rightarrow> ComplexNumbers \<Rightarrow> error + Edge \<times> ComplexNumbers" where
  "normalizeV_other cached rw mn c3 =
     (if cached then
        (let c4 = releaseCached (ew mn) c3;
             c5 = CN_div (ew mn) (ew mn) rw c4;
             (w', c6) = CN_lookup (ew mn) c5
         in Inr (if w' = ZERO then zeroEdge else mn\<lparr>ew := w'\<rparr>, c6))
      else
        bind (getTempCachedComplex c3) (\<lambda>c.
        let c5 = CN_div c (ew mn) rw c3;
            (w', c6) = CN_lookup c c5
        in Inr (if w' = ZERO then zeroEdge else mn\<lparr>ew := w'\<rparr>, c6)))"

text \<open>The second half of the vector normalization, from \<open>sum = std::sqrt(sum / div)\<close> on:
  \<open>sm\<close> is that square root, \<open>am\<close> the index of the pivot.\<close>

definition normalizeV_rescale ::
  "Edge \<Rightarrow> bool \<Rightarrow> Package \<Rightarrow> bool list \<Rightarrow> Edge list \<Rightarrow> ComplexNumbers \<Rightarrow> nat \<Rightarrow> fp
   \<Rightarrow> error + Edge \<times> Package" where
  "normalizeV_rescale e cached s zero es1 c1 am sm =
     (let mx = es1 ! am;
          (rw, c2) = normalizeV_parent cached mx sm c1
      in if \<not> (cached \<and> ew mx \<noteq> ONE) \<and> equalsZero c2 rw then
           bind (setEdges Vector (ep e) es1 (s\<lparr>cn := c2\<rparr>)) (\<lambda>s1. Inr (zeroEdge, s1))
         else
           (let (mx1, c3) = normalizeV_pivot mx sm c2;
                es2 = es1[am := mx1];
                argmin = (am + 1) mod 2
            in if \<not> zero ! argmin then
                 bind (normalizeV_other cached rw (es2 ! argmin) c3) (\<lambda>(mn1, c6).
                 bind (setEdges Vector (ep e) (es2[argmin := mn1]) (s\<lparr>cn := c6\<rparr>)) (\<lambda>s1.
                 Inr (e\<lparr>ew := rw\<rparr>, s1)))
               else
                 bind (setEdges Vector (ep e) es2 (s\<lparr>cn := c3\<rparr>)) (\<lambda>s1.
                 Inr (e\<lparr>ew := rw\<rparr>, s1))))"

definition normalizeV :: "Edge \<Rightarrow> bool \<Rightarrow> Package \<Rightarrow> error + Edge \<times> Package" where
  "normalizeV e cached s =
     bind (deref Vector (vUniqueTable s) (ep e)) (\<lambda>n.
     case ne n of
       [e0, e1] \<Rightarrow>
         (let zero = [equalsZero (cn s) (ew e0), equalsZero (cn s) (ew e1)];
              (es1, c1) = snapZeroEdges zero [e0, e1] (cn s);
              (argmax, ssum, dv) = scanV c1 zero es1 0 (None, 0, 0)
          in case argmax of
               None \<Rightarrow>
                 (if cached then
                    bind (setEdges Vector (ep e) es1 (s\<lparr>cn := releaseNullEdges es1 c1\<rparr>)) (\<lambda>s1.
                    Inr (zeroEdge, s1))
                  else
                    bind (setEdges Vector (ep e) es1 (s\<lparr>cn := c1\<rparr>)) (\<lambda>s1.
                    Inr (zeroEdge,
                         if ep e \<noteq> Terminal
                         then s1\<lparr>vUniqueTable := returnNode (ep e) (vUniqueTable s1)\<rparr> else s1)))
             | Some am \<Rightarrow> normalizeV_rescale e cached s zero es1 c1 am (sqrt (ssum / dv)))
     | _ \<Rightarrow> Inl out_of_range)"

text \<open>The scan of the matrix normalization: the first edge that is not zero is the pivot;
  a later edge takes its place when its squared magnitude exceeds that of the current
  pivot by more than the tolerance.\<close>

fun scanM :: "ComplexNumbers \<Rightarrow> bool list \<Rightarrow> Edge list \<Rightarrow> nat \<Rightarrow> nat option \<times> fp \<times> Complex \<Rightarrow> nat option \<times> fp \<times> Complex" where
  "scanM c (z # zs) (e # es) i (argmax, mx, maxc) =
     (if z then scanM c zs es (Suc i) (argmax, mx, maxc)
      else (case argmax of
              None \<Rightarrow> scanM c zs es (Suc i) (Some i, mag2 c (ew e), ew e)
            | Some a \<Rightarrow>
                (if mag2 c (ew e) - mx > CN_tol c
                 then scanM c zs es (Suc i) (Some i, mag2 c (ew e), ew e)
                 else scanM c zs es (Suc i) (argmax, mx, maxc))))"
| "scanM c zs es i acc = acc"

fun releaseNonZeroEdges :: "Edge list \<Rightarrow> ComplexNumbers \<Rightarrow> ComplexNumbers" where
  "releaseNonZeroEdges [] c = c"
| "releaseNonZeroEdges (e # es) c =
     releaseNonZeroEdges es (if ew e \<noteq> ZERO then releaseCached (ew e) c else c)"

text \<open>The second loop of the matrix normalization, one index at a time: the state is the
  weight of the result, the edges of the node and the complex numbers.\<close>

definition divideStepM :: "bool \<Rightarrow> nat \<Rightarrow> Complex \<Rightarrow> bool list \<Rightarrow> nat \<Rightarrow> Complex \<times> Edge list \<times> ComplexNumbers \<Rightarrow> error + Complex \<times> Edge list \<times> ComplexNumbers" where
  "divideStepM cached argmax maxc zero i st =
     (case st of (rw, es, c) \<Rightarrow>
        if i = argmax then
          (if cached then
             (if rw = ONE then Inr (maxc, es[i := (es ! i)\<lparr>ew := ONE\<rparr>], c)
              else Inr (rw, es[i := (es ! i)\<lparr>ew := ONE\<rparr>], CN_mul rw rw maxc c))
           else
             (if rw = ONE then Inr (maxc, es[i := (es ! i)\<lparr>ew := ONE\<rparr>], c)
              else bind (getTempCachedComplex c) (\<lambda>t.
                   let (rw', c') = CN_lookup t (CN_mul t rw maxc c)
                   in Inr (rw', es[i := (es ! i)\<lparr>ew := ONE\<rparr>], c'))))
        else if zero ! i then
          Inr (rw, es[i := zeroEdge],
               if cached \<and> ew (es ! i) \<noteq> ZERO then releaseCached (ew (es ! i)) c else c)
        else
          (let c1 = (if cached \<and> \<not> zero ! i \<and> ew (es ! i) \<noteq> ONE
                     then releaseCached (ew (es ! i)) c else c);
               wi = (if equalsOne c1 (ew (es ! i)) then ONE else ew (es ! i))
           in bind (getTempCachedComplex c1) (\<lambda>t.
              let (w', c2) = CN_lookup t (CN_div t wi maxc c1)
              in Inr (rw, es[i := (es ! i)\<lparr>ew := w'\<rparr>], c2))))"

fun divideLoopM :: "bool \<Rightarrow> nat \<Rightarrow> Complex \<Rightarrow> bool list \<Rightarrow> nat list \<Rightarrow> Complex \<times> Edge list \<times> ComplexNumbers \<Rightarrow> error + Complex \<times> Edge list \<times> ComplexNumbers" where
  "divideLoopM cached argmax maxc zero [] st = Inr st"
| "divideLoopM cached argmax maxc zero (i # is) st =
     bind (divideStepM cached argmax maxc zero i st) (divideLoopM cached argmax maxc zero is)"

definition normalizeM :: "Edge \<Rightarrow> bool \<Rightarrow> Package \<Rightarrow> error + Edge \<times> Package" where
  "normalizeM e cached s =
     bind (deref Matrix (mUniqueTable s) (ep e)) (\<lambda>n.
     case ne n of
       [e0, e1, e2, e3] \<Rightarrow>
         (let zero = [equalsZero (cn s) (ew e0), equalsZero (cn s) (ew e1),
                      equalsZero (cn s) (ew e2), equalsZero (cn s) (ew e3)];
              (es1, c1) = snapZeroEdges zero [e0, e1, e2, e3] (cn s);
              (argmax, mx, maxc) = scanM c1 zero es1 0 (None, 0, ONE)
          in case argmax of
               None \<Rightarrow>
                 (if cached then
                    bind (setEdges Matrix (ep e) es1 (s\<lparr>cn := releaseNonZeroEdges es1 c1\<rparr>)) (\<lambda>s1.
                    Inr (zeroEdge, s1))
                  else
                    bind (setEdges Matrix (ep e) es1 (s\<lparr>cn := c1\<rparr>)) (\<lambda>s1.
                    Inr (zeroEdge,
                         if ep e \<noteq> Terminal
                         then s1\<lparr>mUniqueTable := returnNode (ep e) (mUniqueTable s1)\<rparr> else s1)))
             | Some am \<Rightarrow>
                 bind (divideLoopM cached am maxc zero [0, 1, 2, 3] (ew e, es1, c1)) (\<lambda>(rw, es2, c2).
                 bind (setEdges Matrix (ep e) es2 (s\<lparr>cn := c2\<rparr>)) (\<lambda>s1.
                 Inr (e\<lparr>ew := rw\<rparr>, s1))))
     | _ \<Rightarrow> Inl out_of_range)"

section \<open>Building nodes and states\<close>

text \<open>The first statements of \<open>makeVectorNode\<close> and \<open>makeMatrixNode\<close>: a node from the
  unique table, with its variable and its edges set, under an edge of weight \<open>ONE\<close>.\<close>

definition newNode :: "Kind \<Rightarrow> Qubit \<Rightarrow> Edge list \<Rightarrow> Package \<Rightarrow> error + Edge \<times> Package" where
  "newNode k var edge s =
     bind (getNode k (getUniqueTable k s)) (\<lambda>(p, ut).
     bind (deref k ut p) (\<lambda>n.
     bind (store p (n\<lparr>nv := var, ne := edge\<rparr>) ut) (\<lambda>ut1.
     Inr (\<lparr>ep = p, ew = ONE\<rparr>, setUniqueTable k ut1 s))))"

definition lookupNode :: "Kind \<Rightarrow> Edge \<Rightarrow> bool \<Rightarrow> Package \<Rightarrow> error + Edge \<times> Package" where
  "lookupNode k e keepNode s =
     bind (UniqueTable_lookup k e keepNode (getUniqueTable k s)) (\<lambda>(l, ut).
     Inr (l, setUniqueTable k ut s))"

definition makeVectorNode :: "Qubit \<Rightarrow> Edge list \<Rightarrow> bool \<Rightarrow> Package \<Rightarrow> error + Edge \<times> Package" where
  "makeVectorNode var edge cached s =
     bind (newNode Vector var edge s) (\<lambda>(e, s1).
     bind (normalizeV e cached s1) (\<lambda>(e1, s2).
     lookupNode Vector e1 False s2))"

definition makeZeroState_step :: "Qubit \<Rightarrow> Edge \<Rightarrow> Package \<Rightarrow> error + Edge \<times> Package" where
  "makeZeroState_step q f s = makeVectorNode q [f, zeroEdge] False s"

fun makeZeroState_loop :: "nat list \<Rightarrow> Edge \<Rightarrow> Package \<Rightarrow> error + Edge \<times> Package" where
  "makeZeroState_loop [] f s = Inr (f, s)"
| "makeZeroState_loop (q # qs) f s =
     bind (makeZeroState_step (of_nat q) f s) (\<lambda>(f1, s1). makeZeroState_loop qs f1 s1)"

definition makeZeroState :: "Qubit \<Rightarrow> Package \<Rightarrow> error + Edge \<times> Package" where
  "makeZeroState mostSignificantQubit s =
     makeZeroState_loop [0 ..< unat mostSignificantQubit + 1] oneEdge s"

datatype BasisStates = zero | one | plus | minus | right | left

definition SQRT_2 :: fp where
  "SQRT_2 = 707106781186547524400844362104849039284835937688474036588 / 10 ^ 57"

text \<open>One round of the loop of \<open>makeBasisState\<close>. The two weights of a superposition are
  looked up from left to right.\<close>

definition makeBasisState_step :: "Qubit \<Rightarrow> BasisStates \<Rightarrow> Edge \<Rightarrow> Package \<Rightarrow> error + Edge \<times> Package" where
  "makeBasisState_step q b f s =
     (case b of
        zero \<Rightarrow> makeVectorNode q [f, zeroEdge] False s
      | one \<Rightarrow> makeVectorNode q [zeroEdge, f] False s
      | plus \<Rightarrow>
          (let (w0, c0) = CN_lookupV SQRT_2 0 (cn s); (w1, c1) = CN_lookupV SQRT_2 0 c0
           in makeVectorNode q [\<lparr>ep = ep f, ew = w0\<rparr>, \<lparr>ep = ep f, ew = w1\<rparr>] False (s\<lparr>cn := c1\<rparr>))
      | minus \<Rightarrow>
          (let (w0, c0) = CN_lookupV SQRT_2 0 (cn s); (w1, c1) = CN_lookupV (- SQRT_2) 0 c0
           in makeVectorNode q [\<lparr>ep = ep f, ew = w0\<rparr>, \<lparr>ep = ep f, ew = w1\<rparr>] False (s\<lparr>cn := c1\<rparr>))
      | right \<Rightarrow>
          (let (w0, c0) = CN_lookupV SQRT_2 0 (cn s); (w1, c1) = CN_lookupV 0 SQRT_2 c0
           in makeVectorNode q [\<lparr>ep = ep f, ew = w0\<rparr>, \<lparr>ep = ep f, ew = w1\<rparr>] False (s\<lparr>cn := c1\<rparr>))
      | left \<Rightarrow>
          (let (w0, c0) = CN_lookupV SQRT_2 0 (cn s); (w1, c1) = CN_lookupV 0 (- SQRT_2) c0
           in makeVectorNode q [\<lparr>ep = ep f, ew = w0\<rparr>, \<lparr>ep = ep f, ew = w1\<rparr>] False (s\<lparr>cn := c1\<rparr>)))"

fun makeBasisState_loop :: "BasisStates list \<Rightarrow> nat list \<Rightarrow> Edge \<Rightarrow> Package \<Rightarrow> error + Edge \<times> Package" where
  "makeBasisState_loop state [] f s = Inr (f, s)"
| "makeBasisState_loop state (q # qs) f s =
     (if q < length state
      then bind (makeBasisState_step (of_nat q) (state ! q) f s)
             (\<lambda>(f1, s1). makeBasisState_loop state qs f1 s1)
      else Inl out_of_range)"

text \<open>
  How a call of a public function ends, for a claim that speaks of the package after an
  exception: the call returns, or it throws a C++ exception and the package lives on in the
  state it had at the \<open>throw\<close>, or it runs into undefined behaviour (a null pointer, an
  index out of range), after which there is no state to speak of.
\<close>

datatype 'a outcome = Returned 'a Package | Thrown error Package | Undefined error

text \<open>
  \<open>makeBasisState(mostSignificantQubit, state)\<close>. The guard is the first statement: it
  compares the size of the vector with \<open>mostSignificantQubit + 1\<close>, computed as an \<open>int\<close>
  and converted to \<open>size_t\<close>, and throws from the package as it was passed in. The loop
  runs up to the unsigned value of \<open>mostSignificantQubit\<close>; \<open>state[p]\<close> is not checked, and
  neither are the pointers that \<open>makeVectorNode\<close> follows.
\<close>

definition makeBasisState :: "Qubit \<Rightarrow> BasisStates list \<Rightarrow> Package \<Rightarrow> Edge outcome" where
  "makeBasisState mostSignificantQubit state s =
     (if int (length state) < (sint mostSignificantQubit + 1) mod 2 ^ 64
      then Thrown invalid_argument s
      else (case makeBasisState_loop state [0 ..< unat mostSignificantQubit + 1] oneEdge s of
              Inr (f, s1) \<Rightarrow> Returned f s1
            | Inl e \<Rightarrow> Undefined e))"

section \<open>Matrix nodes, transposition and the special matrices\<close>

definition childOf :: "Kind \<Rightarrow> Package \<Rightarrow> NodePtr \<Rightarrow> nat \<Rightarrow> error + Edge" where
  "childOf k s p i = bind (deref k (getUniqueTable k s) p) (\<lambda>n. childEdge n i)"

definition setFlags :: "NodePtr \<Rightarrow> bool \<Rightarrow> bool \<Rightarrow> Package \<Rightarrow> error + Package" where
  "setFlags p sy idn s =
     bind (deref Matrix (mUniqueTable s) p) (\<lambda>n.
     bind (store p (n\<lparr>symm := sy, ident := idn\<rparr>) (mUniqueTable s)) (\<lambda>ut.
     Inr (s\<lparr>mUniqueTable := ut\<rparr>)))"

text \<open>
  \<open>makeMatrixNode\<close>, \<open>checkSpecialMatrices\<close> and \<open>transpose\<close> call one another. Each
  is written over the function it calls; the recursion is closed over the fuel below.
\<close>

definition makeMatrixNode_with ::
  "(NodePtr \<Rightarrow> Package \<Rightarrow> error + Package)
   \<Rightarrow> Qubit \<Rightarrow> Edge list \<Rightarrow> bool \<Rightarrow> Package \<Rightarrow> error + Edge \<times> Package" where
  "makeMatrixNode_with check var edge cached s =
     bind (newNode Matrix var edge s) (\<lambda>(e, s1).
     bind (normalizeM e cached s1) (\<lambda>(e1, s2).
     bind (lookupNode Matrix e1 False s2) (\<lambda>(l, s3).
     if ep l = ep e1 then bind (check (ep l) s3) (\<lambda>s4. Inr (l, s4)) else Inr (l, s3))))"

definition checkSpecialMatrices_with ::
  "(Edge \<Rightarrow> Package \<Rightarrow> error + Edge \<times> Package) \<Rightarrow> NodePtr \<Rightarrow> Package \<Rightarrow> error + Package" where
  "checkSpecialMatrices_with tr p s =
     bind (deref Matrix (mUniqueTable s) p) (\<lambda>n.
     if nv n = - 1 then Inr s
     else
       bind (setFlags p False False s) (\<lambda>s1.
       bind (childOf Matrix s1 p 0) (\<lambda>e0.
       bind (childOf Matrix s1 p 3) (\<lambda>e3.
       bind (deref Matrix (mUniqueTable s1) (ep e0)) (\<lambda>n0.
       bind (deref Matrix (mUniqueTable s1) (ep e3)) (\<lambda>n3.
       if \<not> symm n0 \<or> \<not> symm n3 then Inr s1
       else
         bind (childOf Matrix s1 p 1) (\<lambda>e1.
         bind (tr e1 s1) (\<lambda>(t, s2).
         bind (childOf Matrix s2 p 2) (\<lambda>e2.
         if t \<noteq> e2 then Inr s2
         else
           bind (setFlags p True False s2) (\<lambda>s3.
           bind (childOf Matrix s3 p 0) (\<lambda>f0.
           bind (childOf Matrix s3 p 1) (\<lambda>f1.
           bind (childOf Matrix s3 p 2) (\<lambda>f2.
           bind (childOf Matrix s3 p 3) (\<lambda>f3.
           bind (deref Matrix (mUniqueTable s3) (ep f0)) (\<lambda>m0.
           bind (deref Matrix (mUniqueTable s3) (ep f3)) (\<lambda>m3.
           if \<not> ident m0 \<or> ew f1 \<noteq> ZERO \<or> ew f2 \<noteq> ZERO \<or> ew f0 \<noteq> ONE
              \<or> ew f3 \<noteq> ONE \<or> \<not> ident m3
           then Inr s3
           else setFlags p True True s3))))))))))))))))"

definition transpose_body ::
  "(Qubit \<Rightarrow> Edge list \<Rightarrow> bool \<Rightarrow> Package \<Rightarrow> error + Edge \<times> Package)
   \<Rightarrow> (Edge \<Rightarrow> Package \<Rightarrow> error + Edge \<times> Package)
   \<Rightarrow> Edge \<Rightarrow> Package \<Rightarrow> error + Edge \<times> Package" where
  "transpose_body mk rec a s =
     (if ep a = Null \<or> isTerminal a then Inr (a, s)
      else
        bind (deref Matrix (mUniqueTable s) (ep a)) (\<lambda>n.
        if symm n then Inr (a, s)
        else
          (case (case ComputeTable_lookup a a (matrixTranspose s) of
                   None \<Rightarrow> None
                 | Some r \<Rightarrow> if ep r \<noteq> Null then Some r else None) of
             Some r \<Rightarrow> Inr (r, s)
           | None \<Rightarrow>
               bind (childOf Matrix s (ep a) 0) (\<lambda>a0.
               bind (rec a0 s) (\<lambda>(t0, s1).
               bind (childOf Matrix s1 (ep a) 2) (\<lambda>a2.
               bind (rec a2 s1) (\<lambda>(t1, s2).
               bind (childOf Matrix s2 (ep a) 1) (\<lambda>a1.
               bind (rec a1 s2) (\<lambda>(t2, s3).
               bind (childOf Matrix s3 (ep a) 3) (\<lambda>a3.
               bind (rec a3 s3) (\<lambda>(t3, s4).
               bind (deref Matrix (mUniqueTable s4) (ep a)) (\<lambda>n4.
               bind (mk (nv n4) [t0, t1, t2, t3] False s4) (\<lambda>(r, s5).
               bind (getTempCachedComplex (cn s5)) (\<lambda>c.
               let (w, c1) = CN_lookup c (CN_mul c (ew r) (ew a) (cn s5));
                   r1 = r\<lparr>ew := w\<rparr>;
                   s6 = s5\<lparr>cn := c1\<rparr>
               in Inr (r1, s6\<lparr>matrixTranspose := ComputeTable_insert a a r1 (matrixTranspose s6)\<rparr>)))))))))))))))"

primrec transpose_dd :: "nat \<Rightarrow> Edge \<Rightarrow> Package \<Rightarrow> error + Edge \<times> Package" where
  "transpose_dd 0 = (\<lambda>a s. Inl out_of_fuel)"
| "transpose_dd (Suc fuel) =
     transpose_body (makeMatrixNode_with (checkSpecialMatrices_with (transpose_dd fuel)))
       (transpose_dd fuel)"

definition checkSpecialMatrices :: "nat \<Rightarrow> NodePtr \<Rightarrow> Package \<Rightarrow> error + Package" where
  "checkSpecialMatrices fuel = checkSpecialMatrices_with (transpose_dd fuel)"

definition makeMatrixNode :: "nat \<Rightarrow> Qubit \<Rightarrow> Edge list \<Rightarrow> bool \<Rightarrow> Package \<Rightarrow> error + Edge \<times> Package" where
  "makeMatrixNode fuel = makeMatrixNode_with (checkSpecialMatrices fuel)"

text \<open>\<open>makeDDNode\<close> of the header, for either kind of node.\<close>

definition makeDDNode :: "Kind \<Rightarrow> nat \<Rightarrow> Qubit \<Rightarrow> Edge list \<Rightarrow> bool \<Rightarrow> Package \<Rightarrow> error + Edge \<times> Package" where
  "makeDDNode k fuel var edge cached s =
     (case k of Vector \<Rightarrow> makeVectorNode var edge cached s
      | Matrix \<Rightarrow> makeMatrixNode fuel var edge cached s)"

section \<open>The identity\<close>

text \<open>
  \<open>makeIdent(leastSignificantQubit, mostSignificantQubit)\<close> with its table of memoized
  identities. The overload with one argument is the identity up to the most significant
  qubit in the revision of the \<open>.cpp\<close> file (the benchmarks call \<open>makeIdent(msq)\<close>) and the
  identity on \<open>n\<close> qubits in the header, \<open>makeIdent(0, n - 1)\<close>.
\<close>

definition IdTable_at :: "Package \<Rightarrow> Qubit \<Rightarrow> error + Edge" where
  "IdTable_at s q =
     (if 0 \<le> sint q \<and> nat (sint q) < length (IdTable s) then Inr (IdTable s ! nat (sint q))
      else Inl out_of_range)"

definition IdTable_set :: "Qubit \<Rightarrow> Edge \<Rightarrow> Package \<Rightarrow> error + Package" where
  "IdTable_set q e s =
     (if 0 \<le> sint q \<and> nat (sint q) < length (IdTable s)
      then Inr (s\<lparr>IdTable := (IdTable s)[nat (sint q) := e]\<rparr>)
      else Inl out_of_range)"

fun makeIdent_loop :: "nat \<Rightarrow> nat list \<Rightarrow> Edge \<Rightarrow> Package \<Rightarrow> error + Edge \<times> Package" where
  "makeIdent_loop fuel [] e s = Inr (e, s)"
| "makeIdent_loop fuel (k # ks) e s =
     bind (makeMatrixNode fuel (of_nat k) [e, zeroEdge, zeroEdge, e] False s)
       (\<lambda>(e1, s1). makeIdent_loop fuel ks e1 s1)"

definition makeIdent :: "nat \<Rightarrow> Qubit \<Rightarrow> Qubit \<Rightarrow> Package \<Rightarrow> error + Edge \<times> Package" where
  "makeIdent fuel leastSignificantQubit mostSignificantQubit s =
     (if mostSignificantQubit <s 0 then Inr (oneEdge, s)
      else
        bind (IdTable_at s mostSignificantQubit) (\<lambda>cur.
        if leastSignificantQubit = 0 \<and> ep cur \<noteq> Null then Inr (cur, s)
        else
          bind (if 1 \<le>s mostSignificantQubit
                then bind (IdTable_at s (mostSignificantQubit - 1)) (\<lambda>b. Inr (Some b))
                else Inr None) (\<lambda>below.
          case (case below of Some b \<Rightarrow> if ep b \<noteq> Null then Some b else None | None \<Rightarrow> None) of
            Some b \<Rightarrow>
              bind (makeMatrixNode fuel mostSignificantQubit [b, zeroEdge, zeroEdge, b] False s)
                (\<lambda>(e, s1).
              bind (IdTable_set mostSignificantQubit e s1) (\<lambda>s2. Inr (e, s2)))
          | None \<Rightarrow>
              bind (makeMatrixNode fuel leastSignificantQubit
                      [oneEdge, zeroEdge, zeroEdge, oneEdge] False s) (\<lambda>(e, s1).
              bind (makeIdent_loop fuel
                      [unat (leastSignificantQubit + 1) ..< nat (sint mostSignificantQubit) + 1] e s1)
                (\<lambda>(e1, s2).
              if leastSignificantQubit = 0
              then bind (IdTable_set mostSignificantQubit e1 s2) (\<lambda>s3. Inr (e1, s3))
              else Inr (e1, s2))))))"

definition makeIdentN :: "nat \<Rightarrow> nat \<Rightarrow> Package \<Rightarrow> error + Edge \<times> Package" where
  "makeIdentN fuel n s = makeIdent fuel 0 (of_nat n - 1) s"

section \<open>Addition\<close>

definition getAddComputeTable :: "Kind \<Rightarrow> Package \<Rightarrow> (CachedEdge, CachedEdge, CachedEdge) ComputeTable" where
  "getAddComputeTable k s = (case k of Vector \<Rightarrow> vectorAdd s | Matrix \<Rightarrow> matrixAdd s)"

definition setAddComputeTable :: "Kind \<Rightarrow> (CachedEdge, CachedEdge, CachedEdge) ComputeTable \<Rightarrow> Package \<Rightarrow> Package" where
  "setAddComputeTable k t s = (case k of Vector \<Rightarrow> s\<lparr>vectorAdd := t\<rparr> | Matrix \<Rightarrow> s\<lparr>matrixAdd := t\<rparr>)"

text \<open>An edge with its weight by value, \<open>{x.p, x.w}\<close> as a \<open>CachedEdge\<close>.\<close>

definition toCachedEdge :: "Package \<Rightarrow> Edge \<Rightarrow> CachedEdge" where
  "toCachedEdge s e = \<lparr>cp = ep e, cw = valueOf (cn s) (ew e)\<rparr>"

text \<open>\<open>r = e; r.w = cn.getCachedComplex(CN::val(e.w.r), CN::val(e.w.i))\<close>.\<close>

definition cachedCopy :: "Edge \<Rightarrow> Package \<Rightarrow> error + Edge \<times> Package" where
  "cachedCopy e s =
     bind (getCachedComplexV (entry_val (cn s) (cr (ew e))) (entry_val (cn s) (ci (ew e))) (cn s))
       (\<lambda>(c, c1). Inr (e\<lparr>ew := c\<rparr>, s\<lparr>cn := c1\<rparr>))"

text \<open>\<open>!isTerminal(x) && x.p->v == w\<close>.\<close>

definition atLevel :: "Kind \<Rightarrow> Package \<Rightarrow> Edge \<Rightarrow> Qubit \<Rightarrow> error + bool" where
  "atLevel k s x w =
     (if isTerminal x then Inr False
      else bind (deref k (getUniqueTable k s) (ep x)) (\<lambda>n. Inr (nv n = w)))"

text \<open>The operand \<open>e1\<close> of the \<open>i\<close>-th recursive addition (and \<open>e2\<close>, with the roles of
  \<open>x\<close> and \<open>y\<close> exchanged).\<close>

definition add2_operand :: "Kind \<Rightarrow> Edge \<Rightarrow> Edge \<Rightarrow> Qubit \<Rightarrow> nat \<Rightarrow> Package \<Rightarrow> error + Edge \<times> Package" where
  "add2_operand k x y w i s =
     bind (atLevel k s x w) (\<lambda>lv.
     if lv then
       bind (childOf k s (ep x) i) (\<lambda>e1.
       if ew e1 \<noteq> ZERO
       then bind (mulCached (ew e1) (ew x) (cn s)) (\<lambda>(c, c1). Inr (e1\<lparr>ew := c\<rparr>, s\<lparr>cn := c1\<rparr>))
       else Inr (e1, s))
     else
       bind (childOf k s (ep y) i) (\<lambda>yi.
       Inr (if ep yi = Null then nullEdge else x, s)))"

definition add2_release :: "Kind \<Rightarrow> Edge \<Rightarrow> Qubit \<Rightarrow> Edge \<Rightarrow> Package \<Rightarrow> error + Package" where
  "add2_release k x w e1 s =
     bind (atLevel k s x w) (\<lambda>lv.
     Inr (if lv \<and> ew e1 \<noteq> ZERO then s\<lparr>cn := releaseCached (ew e1) (cn s)\<rparr> else s))"

definition add2_child ::
  "Kind \<Rightarrow> (Edge \<Rightarrow> Edge \<Rightarrow> Package \<Rightarrow> error + Edge \<times> Package)
   \<Rightarrow> Edge \<Rightarrow> Edge \<Rightarrow> Qubit \<Rightarrow> nat \<Rightarrow> Package \<Rightarrow> error + Edge \<times> Package" where
  "add2_child k rec x y w i s =
     bind (add2_operand k x y w i s) (\<lambda>(e1, s1).
     bind (add2_operand k y x w i s1) (\<lambda>(e2, s2).
     bind (rec e1 e2 s2) (\<lambda>(r, s3).
     bind (add2_release k x w e1 s3) (\<lambda>s4.
     bind (add2_release k y w e2 s4) (\<lambda>s5.
     Inr (r, s5))))))"

fun add2_children ::
  "Kind \<Rightarrow> (Edge \<Rightarrow> Edge \<Rightarrow> Package \<Rightarrow> error + Edge \<times> Package)
   \<Rightarrow> Edge \<Rightarrow> Edge \<Rightarrow> Qubit \<Rightarrow> nat list \<Rightarrow> Package \<Rightarrow> error + Edge list \<times> Package" where
  "add2_children k rec x y w [] s = Inr ([], s)"
| "add2_children k rec x y w (i # is) s =
     bind (add2_child k rec x y w i s) (\<lambda>(r, s1).
     bind (add2_children k rec x y w is s1) (\<lambda>(rs, s2).
     Inr (r # rs, s2)))"

text \<open>The variable of the recursion: the larger of the variables of the two operands.\<close>

definition topVar :: "Kind \<Rightarrow> Package \<Rightarrow> Edge \<Rightarrow> Edge \<Rightarrow> error + Qubit" where
  "topVar k s x y =
     (if isTerminal x then bind (deref k (getUniqueTable k s) (ep y)) (\<lambda>ny. Inr (nv ny))
      else
        bind (deref k (getUniqueTable k s) (ep x)) (\<lambda>nx.
        if isTerminal y then Inr (nv nx)
        else bind (deref k (getUniqueTable k s) (ep y)) (\<lambda>ny.
             Inr (if nv nx <s nv ny then nv ny else nv nx))))"

definition add2_body ::
  "Kind \<Rightarrow> (Qubit \<Rightarrow> Edge list \<Rightarrow> bool \<Rightarrow> Package \<Rightarrow> error + Edge \<times> Package)
   \<Rightarrow> (Edge \<Rightarrow> Edge \<Rightarrow> Package \<Rightarrow> error + Edge \<times> Package)
   \<Rightarrow> Edge \<Rightarrow> Edge \<Rightarrow> Package \<Rightarrow> error + Edge \<times> Package" where
  "add2_body k mk rec x y s =
     (if ep x = Null then Inr (y, s)
      else if ep y = Null then Inr (x, s)
      else if ew x = ZERO then (if ew y = ZERO then Inr (y, s) else cachedCopy y s)
      else if ew y = ZERO then cachedCopy x s
      else if ep x = ep y then
        bind (addCached (ew x) (ew y) (cn s)) (\<lambda>(c, c1).
        if equalsZero c1 c then Inr (zeroEdge, s\<lparr>cn := releaseCached c c1\<rparr>)
        else Inr (y\<lparr>ew := c\<rparr>, s\<lparr>cn := c1\<rparr>))
      else
        (case (case ComputeTable_lookup (toCachedEdge s x) (toCachedEdge s y) (getAddComputeTable k s) of
                 None \<Rightarrow> None
               | Some r \<Rightarrow> if cp r \<noteq> Null then Some r else None) of
           Some r \<Rightarrow>
             (if equalsZeroValue (cn s) (cw r) then Inr (zeroEdge, s)
              else bind (getCachedComplexV (cv_r (cw r)) (cv_i (cw r)) (cn s))
                     (\<lambda>(c, c1). Inr (\<lparr>ep = cp r, ew = c\<rparr>, s\<lparr>cn := c1\<rparr>)))
         | None \<Rightarrow>
             bind (topVar k s x y) (\<lambda>w.
             bind (add2_children k rec x y w [0 ..< arity k] s) (\<lambda>(edge, s1).
             bind (mk w edge True s1) (\<lambda>(e, s2).
             Inr (e, setAddComputeTable k
                       (ComputeTable_insert (toCachedEdge s2 x) (toCachedEdge s2 y) (toCachedEdge s2 e)
                          (getAddComputeTable k s2)) s2))))))"

primrec add2 :: "Kind \<Rightarrow> nat \<Rightarrow> Edge \<Rightarrow> Edge \<Rightarrow> Package \<Rightarrow> error + Edge \<times> Package" where
  "add2 k 0 = (\<lambda>x y s. Inl out_of_fuel)"
| "add2 k (Suc fuel) = add2_body k (makeDDNode k fuel) (add2 k fuel)"

text \<open>The public operator interns the weight of the result and compares the count of the
  cache lane with its value at entry.\<close>

definition internResult :: "bool \<Rightarrow> Edge \<Rightarrow> Package \<Rightarrow> Edge \<times> Package" where
  "internResult keepOne e s =
     (if ew e \<noteq> ZERO \<and> (\<not> keepOne \<or> ew e \<noteq> ONE)
      then (let (w, c) = CN_lookup (ew e) (releaseCached (ew e) (cn s))
            in (e\<lparr>ew := w\<rparr>, s\<lparr>cn := c\<rparr>))
      else (e, s))"

definition add :: "Kind \<Rightarrow> nat \<Rightarrow> Edge \<Rightarrow> Edge \<Rightarrow> Package \<Rightarrow> error + Edge \<times> Package" where
  "add k fuel x y s =
     (let before = cacheCount (cn s) in
      bind (add2 k fuel x y s) (\<lambda>(result, s1).
      let (result1, s2) = internResult False result s1
      in if cacheCount (cn s2) = before then Inr (result1, s2) else Inl assertion_failed))"

section \<open>Multiplication\<close>

text \<open>The operand of a product at the variable of the recursion: the child when the
  operand is a node of that variable, else the operand with its weight stripped.\<close>

definition mult_operand :: "Kind \<Rightarrow> Package \<Rightarrow> Edge \<Rightarrow> Qubit \<Rightarrow> nat \<Rightarrow> error + Edge" where
  "mult_operand k s x var i =
     bind (atLevel k s x var) (\<lambda>lv.
     if lv then childOf k s (ep x) i else Inr (x\<lparr>ew := ONE\<rparr>))"

definition mult_accumulate ::
  "(Edge \<Rightarrow> Edge \<Rightarrow> Package \<Rightarrow> error + Edge \<times> Package)
   \<Rightarrow> Edge \<Rightarrow> Edge \<Rightarrow> nat \<Rightarrow> Package \<Rightarrow> error + Edge \<times> Package" where
  "mult_accumulate add2f m edge kk s =
     (if kk = 0 \<or> ew edge = ZERO then Inr (m, s)
      else if ew m \<noteq> ZERO then
        bind (add2f edge m s) (\<lambda>(r, s1).
        Inr (r, s1\<lparr>cn := releaseCached (ew m) (releaseCached (ew edge) (cn s1))\<rparr>))
      else Inr (edge, s))"

fun mult_terms ::
  "Kind \<Rightarrow> (Edge \<Rightarrow> Edge \<Rightarrow> Qubit \<Rightarrow> Package \<Rightarrow> error + Edge \<times> Package)
   \<Rightarrow> (Edge \<Rightarrow> Edge \<Rightarrow> Package \<Rightarrow> error + Edge \<times> Package)
   \<Rightarrow> Edge \<Rightarrow> Edge \<Rightarrow> Qubit \<Rightarrow> (nat \<times> nat) list \<Rightarrow> nat \<Rightarrow> Edge \<Rightarrow> Package
   \<Rightarrow> error + Edge \<times> Package" where
  "mult_terms ky rec add2f x y var [] kk edge s = Inr (edge, s)"
| "mult_terms ky rec add2f x y var ((ix, iy) # rest) kk edge s =
     bind (mult_operand Matrix s x var ix) (\<lambda>e1.
     bind (mult_operand ky s y var iy) (\<lambda>e2.
     bind (rec e1 e2 (var - 1) s) (\<lambda>(m, s1).
     bind (mult_accumulate add2f m edge kk s1) (\<lambda>(edge1, s2).
     mult_terms ky rec add2f x y var rest (Suc kk) edge1 s2))))"

fun mult_entries ::
  "Kind \<Rightarrow> (Edge \<Rightarrow> Edge \<Rightarrow> Qubit \<Rightarrow> Package \<Rightarrow> error + Edge \<times> Package)
   \<Rightarrow> (Edge \<Rightarrow> Edge \<Rightarrow> Package \<Rightarrow> error + Edge \<times> Package)
   \<Rightarrow> Edge \<Rightarrow> Edge \<Rightarrow> Qubit \<Rightarrow> (nat \<times> nat) list list \<Rightarrow> Package
   \<Rightarrow> error + Edge list \<times> Package" where
  "mult_entries ky rec add2f x y var [] s = Inr ([], s)"
| "mult_entries ky rec add2f x y var (terms # rest) s =
     bind (mult_terms ky rec add2f x y var terms 0 zeroEdge s) (\<lambda>(edge, s1).
     bind (mult_entries ky rec add2f x y var rest s1) (\<lambda>(edges, s2).
     Inr (edge # edges, s2)))"

text \<open>The result of a hit in the table, and the rescaling of a new result: the stripped
  result times the weights of the two operands, the zero edge when the product is zero.\<close>

definition rescaleInPlace :: "Edge \<Rightarrow> Edge \<Rightarrow> Edge \<Rightarrow> Package \<Rightarrow> Edge \<times> Package" where
  "rescaleInPlace e x y s =
     (let c1 = CN_mul (ew e) (ew e) (ew y) (CN_mul (ew e) (ew e) (ew x) (cn s))
      in if equalsZero c1 (ew e) then (zeroEdge, s\<lparr>cn := releaseCached (ew e) c1\<rparr>)
         else (e, s\<lparr>cn := c1\<rparr>))"

definition productWeight :: "Edge \<Rightarrow> Edge \<Rightarrow> Edge \<Rightarrow> Package \<Rightarrow> error + Edge \<times> Package" where
  "productWeight e x y s =
     bind (mulCached (ew x) (ew y) (cn s)) (\<lambda>(c, c1).
     if equalsZero c1 c then Inr (zeroEdge, s\<lparr>cn := releaseCached c c1\<rparr>)
     else Inr (e\<lparr>ew := c\<rparr>, s\<lparr>cn := c1\<rparr>))"

definition fromTable :: "CachedEdge \<Rightarrow> Edge \<Rightarrow> Edge \<Rightarrow> Package \<Rightarrow> error + Edge \<times> Package" where
  "fromTable r x y s =
     (if equalsZeroValue (cn s) (cw r) then Inr (zeroEdge, s)
      else bind (getCachedComplexV (cv_r (cw r)) (cv_i (cw r)) (cn s)) (\<lambda>(c, c1).
           Inr (rescaleInPlace \<lparr>ep = cp r, ew = c\<rparr> x y (s\<lparr>cn := c1\<rparr>))))"

definition rescaleNew :: "Edge \<Rightarrow> Edge \<Rightarrow> Edge \<Rightarrow> Package \<Rightarrow> error + Edge \<times> Package" where
  "rescaleNew e x y s =
     (if ew e \<noteq> ZERO \<and> (ew x \<noteq> ONE \<or> ew y \<noteq> ONE) then
        (if ew e = ONE then productWeight e x y s
         else Inr (rescaleInPlace e x y s))
      else Inr (e, s))"

definition multiply2_mv_body ::
  "(Qubit \<Rightarrow> Edge list \<Rightarrow> bool \<Rightarrow> Package \<Rightarrow> error + Edge \<times> Package)
   \<Rightarrow> (Edge \<Rightarrow> Edge \<Rightarrow> Package \<Rightarrow> error + Edge \<times> Package)
   \<Rightarrow> (Edge \<Rightarrow> Edge \<Rightarrow> Qubit \<Rightarrow> Package \<Rightarrow> error + Edge \<times> Package)
   \<Rightarrow> Edge \<Rightarrow> Edge \<Rightarrow> Qubit \<Rightarrow> Package \<Rightarrow> error + Edge \<times> Package" where
  "multiply2_mv_body mk add2f rec x y var s =
     (if ep x = Null then Inr (nullEdge, s)
      else if ep y = Null then Inr (y, s)
      else if ew x = ZERO \<or> ew y = ZERO then Inr (zeroEdge, s)
      else if var = - 1 then
        bind (mulCached (ew x) (ew y) (cn s)) (\<lambda>(c, c1).
        Inr (\<lparr>ep = Terminal, ew = c\<rparr>, s\<lparr>cn := c1\<rparr>))
      else
        (let xCopy = x\<lparr>ew := ONE\<rparr>; yCopy = y\<lparr>ew := ONE\<rparr>
         in case (case ComputeTable_lookup xCopy yCopy (matrixVectorMultiplication s) of
                    None \<Rightarrow> None
                  | Some r \<Rightarrow> if cp r \<noteq> Null then Some r else None) of
              Some r \<Rightarrow> fromTable r x y s
            | None \<Rightarrow>
                bind (deref Matrix (mUniqueTable s) (ep x)) (\<lambda>nx.
                bind (if nv nx = var then bind (deref Vector (vUniqueTable s) (ep y)) (\<lambda>ny. Inr (nv nx = nv ny))
                      else Inr False) (\<lambda>sameLevel.
                if sameLevel \<and> ident nx then
                  productWeight yCopy x y
                    (s\<lparr>matrixVectorMultiplication :=
                         ComputeTable_insert xCopy yCopy (toCachedEdge s yCopy)
                           (matrixVectorMultiplication s)\<rparr>)
                else
                  bind (mult_entries Vector rec add2f x y var [[(0, 0), (1, 1)], [(2, 0), (3, 1)]] s)
                    (\<lambda>(edge, s1).
                  bind (mk var edge True s1) (\<lambda>(e, s2).
                  rescaleNew e x y
                    (s2\<lparr>matrixVectorMultiplication :=
                          ComputeTable_insert xCopy yCopy (toCachedEdge s2 e)
                            (matrixVectorMultiplication s2)\<rparr>)))))))"

definition multiply2_mm_body ::
  "(Qubit \<Rightarrow> Edge list \<Rightarrow> bool \<Rightarrow> Package \<Rightarrow> error + Edge \<times> Package)
   \<Rightarrow> (Edge \<Rightarrow> Edge \<Rightarrow> Package \<Rightarrow> error + Edge \<times> Package)
   \<Rightarrow> (Qubit \<Rightarrow> Package \<Rightarrow> error + Edge \<times> Package)
   \<Rightarrow> (Edge \<Rightarrow> Edge \<Rightarrow> Qubit \<Rightarrow> Package \<Rightarrow> error + Edge \<times> Package)
   \<Rightarrow> Edge \<Rightarrow> Edge \<Rightarrow> Qubit \<Rightarrow> Package \<Rightarrow> error + Edge \<times> Package" where
  "multiply2_mm_body mk add2f mkIdent rec x y var s =
     (if ep x = Null then Inr (x, s)
      else if ep y = Null then Inr (y, s)
      else if ew x = ZERO \<or> ew y = ZERO then Inr (zeroEdge, s)
      else if var = - 1 then
        bind (mulCached (ew x) (ew y) (cn s)) (\<lambda>(c, c1).
        Inr (\<lparr>ep = Terminal, ew = c\<rparr>, s\<lparr>cn := c1\<rparr>))
      else
        (let xCopy = x\<lparr>ew := ONE\<rparr>; yCopy = y\<lparr>ew := ONE\<rparr>
         in case (case ComputeTable_lookup xCopy yCopy (matrixMultiplication s) of
                    None \<Rightarrow> None
                  | Some r \<Rightarrow> if cp r \<noteq> Null then Some r else None) of
              Some r \<Rightarrow> fromTable r x y s
            | None \<Rightarrow>
                bind (deref Matrix (mUniqueTable s) (ep x)) (\<lambda>nx.
                bind (if nv nx = var then bind (deref Matrix (mUniqueTable s) (ep y)) (\<lambda>ny. Inr (Some ny))
                      else Inr None) (\<lambda>ny.
                case (case ny of Some n \<Rightarrow> if nv nx = nv n then Some n else None | None \<Rightarrow> None) of
                  Some n \<Rightarrow>
                    (if ident nx then
                       bind (if ident n then mkIdent var s else Inr (yCopy, s)) (\<lambda>(e, s1).
                       productWeight e x y
                         (s1\<lparr>matrixMultiplication :=
                               ComputeTable_insert xCopy yCopy (toCachedEdge s1 e)
                                 (matrixMultiplication s1)\<rparr>))
                     else if ident n then
                       productWeight xCopy x y
                         (s\<lparr>matrixMultiplication :=
                              ComputeTable_insert xCopy yCopy (toCachedEdge s xCopy)
                                (matrixMultiplication s)\<rparr>)
                     else
                       bind (mult_entries Matrix rec add2f x y var
                               [[(0, 0), (1, 2)], [(0, 1), (1, 3)], [(2, 0), (3, 2)], [(2, 1), (3, 3)]] s)
                         (\<lambda>(edge, s1).
                       bind (mk var edge True s1) (\<lambda>(e, s2).
                       rescaleNew e x y
                         (s2\<lparr>matrixMultiplication :=
                               ComputeTable_insert xCopy yCopy (toCachedEdge s2 e)
                                 (matrixMultiplication s2)\<rparr>))))
                | None \<Rightarrow>
                    bind (mult_entries Matrix rec add2f x y var
                            [[(0, 0), (1, 2)], [(0, 1), (1, 3)], [(2, 0), (3, 2)], [(2, 1), (3, 3)]] s)
                      (\<lambda>(edge, s1).
                    bind (mk var edge True s1) (\<lambda>(e, s2).
                    rescaleNew e x y
                      (s2\<lparr>matrixMultiplication :=
                            ComputeTable_insert xCopy yCopy (toCachedEdge s2 e)
                              (matrixMultiplication s2)\<rparr>)))))))"

primrec multiply2_mv :: "nat \<Rightarrow> Edge \<Rightarrow> Edge \<Rightarrow> Qubit \<Rightarrow> Package \<Rightarrow> error + Edge \<times> Package" where
  "multiply2_mv 0 = (\<lambda>x y var s. Inl out_of_fuel)"
| "multiply2_mv (Suc fuel) =
     multiply2_mv_body makeVectorNode (add2 Vector fuel) (multiply2_mv fuel)"

primrec multiply2_mm :: "nat \<Rightarrow> Edge \<Rightarrow> Edge \<Rightarrow> Qubit \<Rightarrow> Package \<Rightarrow> error + Edge \<times> Package" where
  "multiply2_mm 0 = (\<lambda>x y var s. Inl out_of_fuel)"
| "multiply2_mm (Suc fuel) =
     multiply2_mm_body (makeMatrixNode fuel) (add2 Matrix fuel) (makeIdent fuel 0) (multiply2_mm fuel)"

definition multiply2 :: "Kind \<Rightarrow> nat \<Rightarrow> Edge \<Rightarrow> Edge \<Rightarrow> Qubit \<Rightarrow> Package \<Rightarrow> error + Edge \<times> Package" where
  "multiply2 k = (case k of Vector \<Rightarrow> multiply2_mv | Matrix \<Rightarrow> multiply2_mm)"

text \<open>\<open>multiply(x, y)\<close>: \<open>x\<close> is a matrix edge, \<open>y\<close> an edge of the kind \<open>k\<close>.\<close>

definition multiply :: "Kind \<Rightarrow> nat \<Rightarrow> Edge \<Rightarrow> Edge \<Rightarrow> Package \<Rightarrow> error + Edge \<times> Package" where
  "multiply k fuel x y s =
     (let before = cacheCount (cn s) in
      bind (if isTerminal x then Inr (- 1)
            else bind (deref Matrix (mUniqueTable s) (ep x)) (\<lambda>nx. Inr (nv nx))) (\<lambda>var0.
      bind (if isTerminal y then Inr var0
            else bind (deref k (getUniqueTable k s) (ep y)) (\<lambda>ny.
                 Inr (if var0 <s nv ny then nv ny else var0))) (\<lambda>var.
      bind (multiply2 k fuel x y var s) (\<lambda>(e, s1).
      let (e1, s2) = internResult True e s1
      in if cacheCount (cn s2) = before then Inr (e1, s2) else Inl assertion_failed))))"

section \<open>Kronecker product\<close>

definition getKroneckerComputeTable :: "Kind \<Rightarrow> Package \<Rightarrow> (Edge, Edge, CachedEdge) ComputeTable" where
  "getKroneckerComputeTable k s = (case k of Vector \<Rightarrow> vectorKronecker s | Matrix \<Rightarrow> matrixKronecker s)"

definition setKroneckerComputeTable :: "Kind \<Rightarrow> (Edge, Edge, CachedEdge) ComputeTable \<Rightarrow> Package \<Rightarrow> Package" where
  "setKroneckerComputeTable k t s =
     (case k of Vector \<Rightarrow> s\<lparr>vectorKronecker := t\<rparr> | Matrix \<Rightarrow> s\<lparr>matrixKronecker := t\<rparr>)"

fun kronecker2_children ::
  "(Edge \<Rightarrow> Edge \<Rightarrow> Package \<Rightarrow> error + Edge \<times> Package)
   \<Rightarrow> Kind \<Rightarrow> Edge \<Rightarrow> Edge \<Rightarrow> nat list \<Rightarrow> Package \<Rightarrow> error + Edge list \<times> Package" where
  "kronecker2_children rec k x y [] s = Inr ([], s)"
| "kronecker2_children rec k x y (i # is) s =
     bind (childOf k s (ep x) i) (\<lambda>xi.
     bind (rec xi y s) (\<lambda>(r, s1).
     bind (kronecker2_children rec k x y is s1) (\<lambda>(rs, s2).
     Inr (r # rs, s2))))"

text \<open>The loop \<open>for (auto i = 0; i < x.p->v; ++i)\<close> of the identity case.\<close>

fun kronecker2_ident_loop ::
  "(Qubit \<Rightarrow> Edge list \<Rightarrow> bool \<Rightarrow> Package \<Rightarrow> error + Edge \<times> Package)
   \<Rightarrow> nat \<Rightarrow> Edge \<Rightarrow> Package \<Rightarrow> error + Edge \<times> Package" where
  "kronecker2_ident_loop mk 0 e s = Inr (e, s)"
| "kronecker2_ident_loop mk (Suc n) e s =
     bind (deref Matrix (mUniqueTable s) (ep e)) (\<lambda>n0.
     bind (mk (nv n0 + 1) [e, zeroEdge, zeroEdge, e] False s) (\<lambda>(e1, s1).
     kronecker2_ident_loop mk n e1 s1))"

definition kronecker2_body ::
  "Kind \<Rightarrow> (Qubit \<Rightarrow> Edge list \<Rightarrow> bool \<Rightarrow> Package \<Rightarrow> error + Edge \<times> Package)
   \<Rightarrow> (Edge \<Rightarrow> Edge \<Rightarrow> Package \<Rightarrow> error + Edge \<times> Package)
   \<Rightarrow> Edge \<Rightarrow> Edge \<Rightarrow> Package \<Rightarrow> error + Edge \<times> Package" where
  "kronecker2_body k mk rec x y s =
     (if equalsZero (cn s) (ew x) then Inr (zeroEdge, s)
      else if isTerminal x then
        bind (mulCached (ew x) (ew y) (cn s)) (\<lambda>(c, c1). Inr (y\<lparr>ew := c\<rparr>, s\<lparr>cn := c1\<rparr>))
      else
        (case (case ComputeTable_lookup x y (getKroneckerComputeTable k s) of
                 None \<Rightarrow> None
               | Some r \<Rightarrow> if cp r \<noteq> Null then Some r else None) of
           Some r \<Rightarrow>
             (if equalsZeroValue (cn s) (cw r) then Inr (zeroEdge, s)
              else bind (getCachedComplexV (cv_r (cw r)) (cv_i (cw r)) (cn s))
                     (\<lambda>(c, c1). Inr (\<lparr>ep = cp r, ew = c\<rparr>, s\<lparr>cn := c1\<rparr>)))
         | None \<Rightarrow>
             bind (deref k (getUniqueTable k s) (ep x)) (\<lambda>nx.
             if k = Matrix \<and> ident nx then
               bind (deref k (getUniqueTable k s) (ep y)) (\<lambda>ny.
               bind (mk (nv ny + 1) [y, zeroEdge, zeroEdge, y] False s) (\<lambda>(e0, s1).
               bind (kronecker2_ident_loop mk (nat (sint (nv nx))) e0 s1) (\<lambda>(e1, s2).
               bind (cachedCopy (e1\<lparr>ew := ew y\<rparr>) s2) (\<lambda>(e, s3).
               Inr (e, setKroneckerComputeTable k
                         (ComputeTable_insert x y (toCachedEdge s3 e) (getKroneckerComputeTable k s3)) s3)))))
             else
               bind (kronecker2_children rec k x y [0 ..< arity k] s) (\<lambda>(edge, s1).
               bind (deref k (getUniqueTable k s1) (ep y)) (\<lambda>ny.
               bind (deref k (getUniqueTable k s1) (ep x)) (\<lambda>nx1.
               bind (mk (nv ny + nv nx1 + 1) edge True s1) (\<lambda>(e, s2).
               let s3 = s2\<lparr>cn := CN_mul (ew e) (ew e) (ew x) (cn s2)\<rparr>
               in Inr (e, setKroneckerComputeTable k
                            (ComputeTable_insert x y (toCachedEdge s3 e) (getKroneckerComputeTable k s3)) s3))))))))"

primrec kronecker2 :: "Kind \<Rightarrow> nat \<Rightarrow> Edge \<Rightarrow> Edge \<Rightarrow> Package \<Rightarrow> error + Edge \<times> Package" where
  "kronecker2 k 0 = (\<lambda>x y s. Inl out_of_fuel)"
| "kronecker2 k (Suc fuel) = kronecker2_body k (makeDDNode k fuel) (kronecker2 k fuel)"

definition kronecker :: "Kind \<Rightarrow> nat \<Rightarrow> Edge \<Rightarrow> Edge \<Rightarrow> Package \<Rightarrow> error + Edge \<times> Package" where
  "kronecker k fuel x y s =
     bind (kronecker2 k fuel x y s) (\<lambda>(e, s1). Inr (internResult True e s1))"

section \<open>Partial trace\<close>

text \<open>\<open>r.w = a.w\<close> when the weight of \<open>r\<close> is \<open>ONE\<close>, else the interned product.\<close>

definition trace_scale :: "Edge \<Rightarrow> Edge \<Rightarrow> Package \<Rightarrow> error + Edge \<times> Package" where
  "trace_scale r a s =
     (if ew r = ONE then Inr (r\<lparr>ew := ew a\<rparr>, s)
      else
        bind (getTempCachedComplex (cn s)) (\<lambda>c.
        let (w, c1) = CN_lookup c (CN_mul c (ew r) (ew a) (cn s))
        in Inr (r\<lparr>ew := w\<rparr>, s\<lparr>cn := c1\<rparr>)))"

fun trace_children ::
  "(Edge \<Rightarrow> bool list \<Rightarrow> nat \<Rightarrow> Package \<Rightarrow> error + Edge \<times> Package)
   \<Rightarrow> Edge list \<Rightarrow> bool list \<Rightarrow> nat \<Rightarrow> Package \<Rightarrow> error + Edge list \<times> Package" where
  "trace_children rec [] eliminate alreadyEliminated s = Inr ([], s)"
| "trace_children rec (e # es) eliminate alreadyEliminated s =
     bind (rec e eliminate alreadyEliminated s) (\<lambda>(r, s1).
     bind (trace_children rec es eliminate alreadyEliminated s1) (\<lambda>(rs, s2).
     Inr (r # rs, s2)))"

definition releaseNonZero :: "Edge \<Rightarrow> Package \<Rightarrow> Package" where
  "releaseNonZero r s = (if ew r \<noteq> ZERO then s\<lparr>cn := releaseCached (ew r) (cn s)\<rparr> else s)"

definition trace_body ::
  "(Qubit \<Rightarrow> Edge list \<Rightarrow> bool \<Rightarrow> Package \<Rightarrow> error + Edge \<times> Package)
   \<Rightarrow> (Edge \<Rightarrow> Edge \<Rightarrow> Package \<Rightarrow> error + Edge \<times> Package)
   \<Rightarrow> (Edge \<Rightarrow> bool list \<Rightarrow> nat \<Rightarrow> Package \<Rightarrow> error + Edge \<times> Package)
   \<Rightarrow> Edge \<Rightarrow> bool list \<Rightarrow> nat \<Rightarrow> Package \<Rightarrow> error + Edge \<times> Package" where
  "trace_body mk add2f rec a eliminate alreadyEliminated s =
     bind (deref Matrix (mUniqueTable s) (ep a)) (\<lambda>na.
     if equalsZero (cn s) (ew a) then Inr (zeroEdge, s)
     else if list_all Not eliminate then Inr (a, s)
     else if nv na = - 1 then (if isTerminal a then Inr (a, s) else Inl runtime_error)
     else if length eliminate \<le> unat (nv na) then Inl out_of_range
     else if eliminate ! unat (nv na) then
       bind (childEdge na 0) (\<lambda>a0.
       bind (rec a0 eliminate (alreadyEliminated + 1) s) (\<lambda>(t0, s1).
       bind (add2f zeroEdge t0 s1) (\<lambda>(r1, s2).
       bind (childOf Matrix s2 (ep a) 3) (\<lambda>a3.
       bind (rec a3 eliminate (alreadyEliminated + 1) s2) (\<lambda>(t1, s3).
       bind (add2f r1 t1 s3) (\<lambda>(r2, s4).
       bind (trace_scale r2 a s4) (\<lambda>(r, s5).
       Inr (r, releaseNonZero r2 (releaseNonZero r1 s5)))))))))
     else
       bind (trace_children rec (ne na) eliminate alreadyEliminated s) (\<lambda>(edge, s1).
       bind (mk (nv na - (of_nat (length (filter id eliminate)) - of_nat alreadyEliminated)) edge False s1)
         (\<lambda>(r, s2).
       trace_scale r a s2)))"

primrec trace :: "nat \<Rightarrow> Edge \<Rightarrow> bool list \<Rightarrow> nat \<Rightarrow> Package \<Rightarrow> error + Edge \<times> Package" where
  "trace 0 = (\<lambda>a eliminate alreadyEliminated s. Inl out_of_fuel)"
| "trace (Suc fuel) = trace_body (makeMatrixNode fuel) (add2 Matrix fuel) (trace fuel)"

definition partialTrace :: "nat \<Rightarrow> Edge \<Rightarrow> bool list \<Rightarrow> Package \<Rightarrow> error + Edge \<times> Package" where
  "partialTrace fuel a eliminate s =
     (let before = cacheCount (cn s) in
      bind (trace fuel a eliminate 0 s) (\<lambda>(result, s1).
      if cacheCount (cn s1) = before then Inr (result, s1) else Inl assertion_failed))"

section \<open>Inner product and fidelity\<close>

text \<open>The operand of the recursion at the level \<open>w\<close>: the \<open>i\<close>-th child when the operand
  is a node of that level, else the operand itself with its weight stripped.\<close>

definition operandAt :: "Kind \<Rightarrow> UniqueTable \<Rightarrow> Edge \<Rightarrow> Qubit \<Rightarrow> nat \<Rightarrow> bool \<Rightarrow> error + Edge" where
  "operandAt k ut x w i conjugate =
     (if isTerminal x then Inr (x\<lparr>ew := ONE\<rparr>)
      else bind (deref k ut (ep x)) (\<lambda>n.
           if nv n = w then
             bind (childEdge n i) (\<lambda>e. Inr (if conjugate then e\<lparr>ew := CN_conj (ew e)\<rparr> else e))
           else Inr (x\<lparr>ew := ONE\<rparr>)))"

definition scaleByOperands :: "Complex \<Rightarrow> Complex \<Rightarrow> Complex \<Rightarrow> ComplexNumbers \<Rightarrow> ComplexNumbers" where
  "scaleByOperands c xw yw s = CN_mul c c yw (CN_mul c c xw s)"

text \<open>The result of the recursion from a sum (or a cached sum): a temporary cached number
  with the value, multiplied by the weights of the two operands.\<close>

definition innerProduct_result :: "ComplexValue \<Rightarrow> Edge \<Rightarrow> Edge \<Rightarrow> Package \<Rightarrow> error + ComplexValue \<times> Package" where
  "innerProduct_result v x y s =
     bind (getTempCachedComplexV (cv_r v) (cv_i v) (cn s)) (\<lambda>(c, c1).
     let c2 = scaleByOperands c (ew x) (ew y) c1
     in Inr (valueOf c2 c, s\<lparr>cn := c2\<rparr>))"

definition innerProduct_child ::
  "(Edge \<Rightarrow> Edge \<Rightarrow> Qubit \<Rightarrow> Package \<Rightarrow> error + ComplexValue \<times> Package)
   \<Rightarrow> Edge \<Rightarrow> Edge \<Rightarrow> Qubit \<Rightarrow> nat \<Rightarrow> Package \<Rightarrow> error + ComplexValue \<times> Package" where
  "innerProduct_child rec x y w i s =
     bind (operandAt Vector (vUniqueTable s) x w i False) (\<lambda>e1.
     bind (operandAt Vector (vUniqueTable s) y w i True) (\<lambda>e2.
     rec e1 e2 w s))"

definition innerProduct_body ::
  "(Edge \<Rightarrow> Edge \<Rightarrow> Qubit \<Rightarrow> Package \<Rightarrow> error + ComplexValue \<times> Package)
   \<Rightarrow> Edge \<Rightarrow> Edge \<Rightarrow> Qubit \<Rightarrow> Package \<Rightarrow> error + ComplexValue \<times> Package" where
  "innerProduct_body rec x y var s =
     (if ep x = Null \<or> ep y = Null \<or> equalsZero (cn s) (ew x) \<or> equalsZero (cn s) (ew y)
      then Inr (\<lparr>cv_r = 0, cv_i = 0\<rparr>, s)
      else if var = 0 then
        bind (getTempCachedComplex (cn s)) (\<lambda>c.
        let c1 = CN_mul c (ew x) (ew y) (cn s)
        in Inr (valueOf c1 c, s\<lparr>cn := c1\<rparr>))
      else
        (let xCopy = x\<lparr>ew := ONE\<rparr>; yCopy = y\<lparr>ew := ONE\<rparr>;
             hit = (case ComputeTable_lookup xCopy yCopy (vectorInnerProduct s) of
                      None \<Rightarrow> None
                    | Some r \<Rightarrow> if cp r \<noteq> Null then Some r else None)
         in case hit of
              Some r \<Rightarrow> innerProduct_result (cw r) x y s
            | None \<Rightarrow>
                bind (innerProduct_child rec x y (var - 1) 0 s) (\<lambda>(cv0, s1).
                bind (innerProduct_child rec x y (var - 1) 1 s1) (\<lambda>(cv1, s2).
                let total = \<lparr>cv_r = cv_r cv0 + cv_r cv1, cv_i = cv_i cv0 + cv_i cv1\<rparr>;
                    s3 = s2\<lparr>vectorInnerProduct :=
                             ComputeTable_insert xCopy yCopy \<lparr>cp = Terminal, cw = total\<rparr>
                               (vectorInnerProduct s2)\<rparr>
                in innerProduct_result total x y s3))))"

primrec innerProduct_rec :: "nat \<Rightarrow> Edge \<Rightarrow> Edge \<Rightarrow> Qubit \<Rightarrow> Package \<Rightarrow> error + ComplexValue \<times> Package" where
  "innerProduct_rec 0 = (\<lambda>x y var s. Inl out_of_fuel)"
| "innerProduct_rec (Suc fuel) = innerProduct_body (innerProduct_rec fuel)"

definition innerProduct :: "nat \<Rightarrow> Edge \<Rightarrow> Edge \<Rightarrow> Package \<Rightarrow> error + ComplexValue \<times> Package" where
  "innerProduct fuel x y s =
     (if ep x = Null \<or> ep y = Null \<or> equalsZero (cn s) (ew x) \<or> equalsZero (cn s) (ew y)
      then Inr (\<lparr>cv_r = 0, cv_i = 0\<rparr>, s)
      else
        (let before = cacheCount (cn s) in
         bind (deref Vector (vUniqueTable s) (ep x)) (\<lambda>nx.
         bind (deref Vector (vUniqueTable s) (ep y)) (\<lambda>ny.
         let w = (if nv nx <s nv ny then nv ny else nv nx) in
         bind (innerProduct_rec fuel x y (w + 1) s) (\<lambda>(ip, s1).
         if cacheCount (cn s1) = before then Inr (ip, s1) else Inl assertion_failed)))))"

definition fidelity :: "nat \<Rightarrow> Edge \<Rightarrow> Edge \<Rightarrow> Package \<Rightarrow> error + fp \<times> Package" where
  "fidelity fuel x y s =
     bind (innerProduct fuel x y s) (\<lambda>(fid, s1).
     Inr (cv_r fid * cv_r fid + cv_i fid * cv_i fid, s1))"

section \<open>Initial states\<close>

text \<open>
  The state of a new package, from the member initialisers and the constructors of the
  header. Modelled from the spec: the constructor of \<open>ComplexNumbers\<close> is not among the
  sources; the specification gives a cache lane of \<open>CACHE_SIZE\<close> scratch entries, all
  available at first, and the tolerance \<open>1e-13\<close>. The constructor of the float pool is
  in the header: the first chunk, the static entries zero and one in their buckets, and the
  two pinned entries 1/2 and \<open>SQRT2_2\<close>.
\<close>

definition ComplexTable_fresh :: ComplexTable where
  "ComplexTable_fresh =
     \<lparr>ctab_entries = (\<lambda>p. case p of ZeroEntry \<Rightarrow> \<lparr>val = 0, refCount = 1\<rparr>
                               | OneEntry \<Rightarrow> \<lparr>val = 1, refCount = 1\<rparr>
                               | _ \<Rightarrow> \<lparr>val = 0, refCount = 0\<rparr>),
      ctab_table = (\<lambda>key. if key = 0 then [ZeroEntry] else if key = NBUCKET - 1 then [OneEntry] else []),
      TOLERANCE = 1 / 10 ^ 13,
      ctab_available = [],
      ctab_chunkID = 0,
      ctab_chunkIt = 0,
      ctab_chunkEndIt = INITIAL_ALLOCATION_SIZE,
      ctab_allocationSize = INITIAL_ALLOCATION_SIZE * GROWTH_FACTOR,
      ctab_allocations = INITIAL_ALLOCATION_SIZE,
      ctab_count = 2,
      ctab_peakCount = 2,
      ctab_collisions = 0,
      ctab_hits = 0,
      ctab_lookups = 0,
      ctab_gcCalls = 0,
      ctab_gcRuns = 0,
      ctab_gcLimit = INITIAL_GC_LIMIT\<rparr>"

text \<open>\<open>lookup(v)->refCount++\<close>, the last two statements of the constructor. Modelled from
  the spec: the constant \<open>SQRT2_2\<close> is declared in a header that is not among the sources;
  it is \<open>1 / sqrt 2\<close>, written with the digits of \<open>CN::SQRT_2\<close>.\<close>

definition SQRT2_2 :: fp where
  "SQRT2_2 = 707106781186547524400844362104849039284835937688474036588 / 10 ^ 57"

definition pinned :: "fp \<Rightarrow> ComplexTable \<Rightarrow> ComplexTable" where
  "pinned v s =
     (let (p, s1) = ComplexTable_lookup v s
      in s1\<lparr>ctab_entries := (ctab_entries s1)(p := (ctab_entries s1 p)\<lparr>refCount := refCount (ctab_entries s1 p) + 1\<rparr>)\<rparr>)"

definition ComplexTable_init :: ComplexTable where
  "ComplexTable_init = pinned SQRT2_2 (pinned (1 / 2) ComplexTable_fresh)"

definition ComplexNumbers_init :: ComplexNumbers where
  "ComplexNumbers_init =
     \<lparr>cn_pool = ComplexTable_init,
      Cache_Avail = map CacheEntry [0 ..< CACHE_SIZE],
      cacheCount = int CACHE_SIZE\<rparr>"

definition UniqueTable_init :: "nat \<Rightarrow> UniqueTable" where
  "UniqueTable_init nq =
     \<lparr>ut_nodes = (\<lambda>a. defaultNode),
      ut_nvars = nq,
      ut_tables = (\<lambda>v key. []),
      ut_available = [],
      ut_allocations = 0,
      ut_nodeCount = 0,
      ut_peakNodeCount = 0,
      ut_collisions = 0,
      ut_hits = 0,
      ut_lookups = 0,
      ut_active = (\<lambda>v. 0),
      ut_activeNodeCount = 0,
      ut_maxActive = 0,
      ut_gcCalls = 0,
      ut_gcRuns = 0,
      ut_gcInitialLimit = 250000,
      ut_gcLimit = 250000,
      ut_gcIncrement = 0\<rparr>"

definition ComputeTable_init :: "('l \<Rightarrow> 'r \<Rightarrow> nat) \<Rightarrow> ('l, 'r, 'res) ComputeTable" where
  "ComputeTable_init h = \<lparr>cmp_hash = h, cmp_table = (\<lambda>key. None)\<rparr>"

definition ToffoliTable_init :: ToffoliTable where
  "ToffoliTable_init =
     \<lparr>tt_table = (\<lambda>key. \<lparr>te_n = 0, te_controls = [], te_target = 0, te_e = nullEdge\<rparr>),
      tt_hits = 0, tt_lookups = 0, tt_count = 0\<rparr>"

definition Package_init :: "nat \<Rightarrow> Package" where
  "Package_init nq =
     \<lparr>cn = ComplexNumbers_init,
      nqubits = nq,
      vUniqueTable = UniqueTable_init nq,
      mUniqueTable = UniqueTable_init nq,
      vectorAdd = ComputeTable_init (\<lambda>a b. 0),
      matrixAdd = ComputeTable_init (\<lambda>a b. 0),
      matrixTranspose = ComputeTable_init (\<lambda>a b. 0),
      conjugateMatrixTranspose = ComputeTable_init (\<lambda>a b. 0),
      matrixMultiplication = ComputeTable_init (\<lambda>a b. 0),
      matrixVectorMultiplication = ComputeTable_init (\<lambda>a b. 0),
      vectorInnerProduct = ComputeTable_init (\<lambda>a b. 0),
      vectorKronecker = ComputeTable_init (\<lambda>a b. 0),
      matrixKronecker = ComputeTable_init (\<lambda>a b. 0),
      toffoliTable = ToffoliTable_init,
      IdTable = replicate nq nullEdge,
      operations = \<lparr>ot_table = (\<lambda>key. None)\<rparr>\<rparr>"

section \<open>Predicates of the statements\<close>

definition ComputeTable_empty :: "('l, 'r, 'res) ComputeTable \<Rightarrow> bool" where
  "ComputeTable_empty t = (\<forall>key. cmp_table t key = None)"

definition ToffoliTable_empty :: "ToffoliTable \<Rightarrow> bool" where
  "ToffoliTable_empty t = (\<forall>key. ep (te_e (tt_table t key)) = Null)"

definition OperationTable_empty :: "OperationTable \<Rightarrow> bool" where
  "OperationTable_empty t = (\<forall>key. ot_table t key = None)"

definition computeTables_empty :: "Package \<Rightarrow> bool" where
  "computeTables_empty s =
     (ComputeTable_empty (vectorAdd s) \<and> ComputeTable_empty (matrixAdd s)
      \<and> ComputeTable_empty (matrixTranspose s) \<and> ComputeTable_empty (conjugateMatrixTranspose s)
      \<and> ComputeTable_empty (matrixMultiplication s)
      \<and> ComputeTable_empty (matrixVectorMultiplication s)
      \<and> ComputeTable_empty (vectorInnerProduct s)
      \<and> ComputeTable_empty (vectorKronecker s) \<and> ComputeTable_empty (matrixKronecker s)
      \<and> ToffoliTable_empty (toffoliTable s) \<and> OperationTable_empty (operations s))"

text \<open>
  \<open>ToffoliTable::clear\<close> resets the entries only when \<open>count\<close> is not zero. \<open>count\<close>
  counts the insertions since the last \<open>clear\<close>, so a table whose count is zero holds no
  entry as long as the counter has not wrapped around.
\<close>

definition ToffoliTable_counted :: "ToffoliTable \<Rightarrow> bool" where
  "ToffoliTable_counted t = (tt_count t = 0 \<longrightarrow> ToffoliTable_empty t)"

text \<open>
  The chains of a unique table hold nodes of its chunks, none of them with the variable
  of the terminal: \<open>lookup\<close> returns before it inserts a node whose variable is \<open>-1\<close>.
\<close>

definition UniqueTable_chains_ok :: "UniqueTable \<Rightarrow> bool" where
  "UniqueTable_chains_ok ut =
     (\<forall>v key. \<forall>p \<in> set (ut_tables ut v key). \<exists>a. p = NodeAt a \<and> nv (ut_nodes ut a) \<noteq> - 1)"

definition IdTable_empty :: "Package \<Rightarrow> bool" where
  "IdTable_empty s = (\<forall>entry \<in> set (IdTable s). ep entry = Null)"

section \<open>Example states\<close>

text \<open>A package with an entry in the addition table of the vectors, an entry in the Toffoli
  table and one memoized identity.\<close>

definition gc_example :: Package where
  "gc_example =
     (Package_init 3)
       \<lparr>vectorAdd := ComputeTable_insert \<lparr>cp = Terminal, cw = \<lparr>cv_r = 1, cv_i = 0\<rparr>\<rparr>
                       \<lparr>cp = NodeAt 0, cw = \<lparr>cv_r = 1, cv_i = 0\<rparr>\<rparr>
                       \<lparr>cp = NodeAt 0, cw = \<lparr>cv_r = 2, cv_i = 0\<rparr>\<rparr> (vectorAdd (Package_init 3)),
        toffoliTable := ToffoliTable_insert 3 [] 0 oneEdge ToffoliTable_init,
        IdTable := [oneEdge, nullEdge, nullEdge]\<rparr>"

text \<open>A terminal vector edge of weight 1/2: the pool of a new package holds 1/2 in its
  first entry.\<close>

definition half_pool :: ComplexTable where
  "half_pool = ComplexTable_init"

definition half_state :: Package where
  "half_state = (Package_init 1)\<lparr>cn := ComplexNumbers_init\<lparr>cn_pool := half_pool\<rparr>\<rparr>"

definition half_edge :: Edge where
  "half_edge = \<lparr>ep = Terminal, ew = \<lparr>cr = (PoolEntry 0, False), ci = (ZeroEntry, False)\<rparr>\<rparr>"






definition pool_owned :: "ComplexTable \<Rightarrow> EntryPtr \<Rightarrow> bool" where
  "pool_owned t p =
     (p = ZeroEntry \<or> p = OneEntry
      \<or> (\<exists>k. p = PoolEntry k \<and> k < ctab_chunkIt t \<and> p \<notin> set (ctab_available t)))"

definition pool_ok :: "ComplexTable \<Rightarrow> bool" where
  "pool_ok t =
     (0 < TOLERANCE t \<and> val (ctab_entries t ZeroEntry) = 0 \<and> val (ctab_entries t OneEntry) = 1
      \<and> distinct (ctab_available t)
      \<and> (\<forall>q \<in> set (ctab_available t). \<exists>k. q = PoolEntry k \<and> k < ctab_chunkIt t)
      \<and> (\<forall>key. \<forall>q \<in> set (ctab_table t key). pool_owned t q)
      \<and> (\<forall>q. pool_owned t q \<and> q \<noteq> ZeroEntry \<longrightarrow> TOLERANCE t \<le> val (ctab_entries t q)))"

text \<open>What a lookup leaves as it is: the tolerance, the entries the pool owns and the
  entries of the cache lane.\<close>

definition pool_extends :: "ComplexTable \<Rightarrow> ComplexTable \<Rightarrow> bool" where
  "pool_extends t t' =
     (TOLERANCE t' = TOLERANCE t
      \<and> (\<forall>q. pool_owned t q \<longrightarrow> pool_owned t' q \<and> val (ctab_entries t' q) = val (ctab_entries t q)))"

definition cache_same :: "ComplexTable \<Rightarrow> ComplexTable \<Rightarrow> bool" where
  "cache_same t t' = (\<forall>a. ctab_entries t' (CacheEntry a) = ctab_entries t (CacheEntry a))"

definition lane_ok :: "ComplexNumbers \<Rightarrow> bool" where
  "lane_ok c = (distinct (Cache_Avail c) \<and> (\<forall>q \<in> set (Cache_Avail c). \<exists>a. q = CacheEntry a))"

definition interned :: "ComplexNumbers \<Rightarrow> Complex \<Rightarrow> bool" where
  "interned c w =
     (pool_owned (cn_pool c) (fst (cr w)) \<and> pool_owned (cn_pool c) (fst (ci w))
      \<and> (fst (cr w) = ZeroEntry \<longrightarrow> \<not> snd (cr w)) \<and> (fst (ci w) = ZeroEntry \<longrightarrow> \<not> snd (ci w)))"

definition cn_extends :: "ComplexNumbers \<Rightarrow> ComplexNumbers \<Rightarrow> bool" where
  "cn_extends c c' =
     (pool_extends (cn_pool c) (cn_pool c') \<and> Cache_Avail c' = Cache_Avail c
      \<and> cacheCount c' = cacheCount c)"

definition cache_weight :: "Complex \<Rightarrow> bool" where
  "cache_weight w = (\<exists>a b. a \<noteq> b \<and> w = \<lparr>cr = (CacheEntry a, False), ci = (CacheEntry b, False)\<rparr>)"

definition toComplex :: "ComplexValue \<Rightarrow> complex" where
  "toComplex v = Complex (cv_r v) (cv_i v)"

text \<open>Two complex numbers agree within the tolerance, component by component.\<close>

definition approx :: "fp \<Rightarrow> complex \<Rightarrow> complex \<Rightarrow> bool" where
  "approx tol x y = (\<bar>Re x - Re y\<bar> < tol \<and> \<bar>Im x - Im y\<bar> < tol)"

definition cache_ptrs :: "Complex \<Rightarrow> EntryPtr set" where
  "cache_ptrs w = {fst (cr w), fst (ci w)}"

definition weights_ready :: "bool \<Rightarrow> ComplexNumbers \<Rightarrow> Edge list \<Rightarrow> bool" where
  "weights_ready cached c es =
     (if cached then
        (\<forall>e \<in> set es. ew e = ZERO \<or> cache_weight (ew e))
        \<and> (\<forall>i < length es. \<forall>j < length es. i \<noteq> j \<longrightarrow> cache_weight (ew (es ! i)) \<longrightarrow>
               cache_ptrs (ew (es ! i)) \<inter> cache_ptrs (ew (es ! j)) = {})
      else
        (\<forall>e \<in> set es. interned c (ew e)) \<and> lane_ok c \<and> 2 \<le> length (Cache_Avail c))"

text \<open>The factor of the vector normalization (\<open>sum\<close> after the square root), for the pivot
  \<open>p\<close> and the other edge \<open>q\<close>.\<close>

definition vnorm_factor :: "ComplexNumbers \<Rightarrow> Edge \<Rightarrow> Edge \<Rightarrow> fp" where
  "vnorm_factor c p q =
     sqrt ((mag2 c (ew p) + (if equalsZero c (ew q) then 0 else mag2 c (ew q))) / mag2 c (ew p))"

definition vnode_state :: Package where
  "vnode_state = half_state\<lparr>vUniqueTable := (vUniqueTable half_state)\<lparr>ut_nodes :=
      (ut_nodes (vUniqueTable half_state))(0 :=
         \<lparr>ne = [oneEdge, half_edge], nref = 0, nv = 0, symm = False, ident = False\<rparr>)\<rparr>\<rparr>"

definition vnode_edge :: Edge where
  "vnode_edge = \<lparr>ep = NodeAt 0, ew = ONE\<rparr>"

text \<open>The entries of the cached weights of a list of edges, in order.\<close>

definition cache_list :: "Edge list \<Rightarrow> EntryPtr list" where
  "cache_list es =
     concat (map (\<lambda>e. if cache_weight (ew e) then [fst (cr (ew e)), fst (ci (ew e))] else []) es)"

text \<open>The weights of the edges are interned or cached, and the cached ones are apart from
  each other and from the entries that are available.\<close>

definition lane_inv :: "ComplexNumbers \<Rightarrow> Edge list \<Rightarrow> bool" where
  "lane_inv c es =
     (distinct (cache_list es @ Cache_Avail c)
      \<and> (\<forall>q \<in> set (Cache_Avail c). \<exists>a. q = CacheEntry a)
      \<and> (\<forall>e \<in> set es. interned c (ew e) \<or> cache_weight (ew e)))"

definition matrix_ready :: "bool \<Rightarrow> ComplexNumbers \<Rightarrow> Edge list \<Rightarrow> bool" where
  "matrix_ready cached c es =
     (lane_inv c es \<and> 2 \<le> length (Cache_Avail c)
      \<and> (cached \<longrightarrow> (\<forall>e \<in> set es. ew e = ZERO \<or> ew e = ONE \<or> cache_weight (ew e))))"

text \<open>The pivot of the matrix normalization: a non-zero edge, every non-zero edge before
  it is smaller, no later one is larger by more than the tolerance.\<close>

definition is_pivot :: "ComplexNumbers \<Rightarrow> Edge list \<Rightarrow> nat \<Rightarrow> bool" where
  "is_pivot c es am =
     (am < length es \<and> \<not> equalsZero c (ew (es ! am))
      \<and> (\<forall>j < am. \<not> equalsZero c (ew (es ! j)) \<longrightarrow> mag2 c (ew (es ! j)) < mag2 c (ew (es ! am)))
      \<and> (\<forall>j < length es. am < j \<longrightarrow> \<not> equalsZero c (ew (es ! j)) \<longrightarrow>
             mag2 c (ew (es ! j)) \<le> mag2 c (ew (es ! am)) + CN_tol c))"

text \<open>The entries of the cache lane outside a set are the same in two pools.\<close>

definition cache_frame :: "EntryPtr set \<Rightarrow> ComplexTable \<Rightarrow> ComplexTable \<Rightarrow> bool" where
  "cache_frame T t t' = (\<forall>a. CacheEntry a \<notin> T \<longrightarrow> ctab_entries t' (CacheEntry a) = ctab_entries t (CacheEntry a))"

text \<open>The value a weight stands for when values close to one are taken for one.\<close>

definition snap_one :: "ComplexNumbers \<Rightarrow> Complex \<Rightarrow> complex" where
  "snap_one c w = (if equalsOne c w then 1 else toComplex (valueOf c w))"

text \<open>What the scan of the matrix normalization knows after the first \<open>i\<close> edges.\<close>

definition scan_inv :: "ComplexNumbers \<Rightarrow> bool list \<Rightarrow> Edge list \<Rightarrow> nat \<Rightarrow> nat option \<times> fp \<times> Complex \<Rightarrow> bool" where
  "scan_inv c ZS ES i acc =
     (case acc of (argmax, mx, maxc) \<Rightarrow>
        (case argmax of
           None \<Rightarrow> (\<forall>j < i. ZS ! j)
         | Some a \<Rightarrow> a < i \<and> \<not> ZS ! a \<and> mx = mag2 c (ew (ES ! a)) \<and> maxc = ew (ES ! a)
             \<and> (\<forall>j < a. \<not> ZS ! j \<longrightarrow> mag2 c (ew (ES ! j)) < mx)
             \<and> (\<forall>j < i. a < j \<longrightarrow> \<not> ZS ! j \<longrightarrow> mag2 c (ew (ES ! j)) \<le> mx + CN_tol c)))"

text \<open>The edges whose weights the second loop of the matrix normalization still reads when
  it is at index \<open>i\<close>: the pivot and the edges from \<open>i\<close> on.\<close>

definition keep :: "nat \<Rightarrow> nat \<Rightarrow> Edge list \<Rightarrow> Edge list" where
  "keep am i es = (if am < i then [es ! am] else []) @ drop i es"

definition div_static :: "bool \<Rightarrow> ComplexNumbers \<Rightarrow> Edge list \<Rightarrow> bool list \<Rightarrow> nat \<Rightarrow> bool" where
  "div_static cached c1 es1 zs am =
     (length zs = length es1 \<and> am < length es1 \<and> \<not> zs ! am
      \<and> (\<forall>j < length es1. zs ! j \<longrightarrow> ew (es1 ! j) = ZERO)
      \<and> (\<forall>j < length es1. \<not> zs ! j \<longrightarrow> \<not> equalsZero c1 (ew (es1 ! j)))
      \<and> (cached \<longrightarrow> (\<forall>j < length es1. ew (es1 ! j) = ZERO \<or> ew (es1 ! j) = ONE \<or> cache_weight (ew (es1 ! j)))))"

definition div_inv :: "ComplexNumbers \<Rightarrow> Edge list \<Rightarrow> nat \<Rightarrow> nat \<Rightarrow> ComplexNumbers \<Rightarrow> bool" where
  "div_inv c1 es1 am i c =
     (pool_ok (cn_pool c) \<and> pool_extends (cn_pool c1) (cn_pool c)
      \<and> lane_inv c (keep am i es1) \<and> 2 \<le> length (Cache_Avail c)
      \<and> (\<forall>e \<in> set (keep am i es1). valueOf c (ew e) = valueOf c1 (ew e)))"

definition div_done :: "ComplexNumbers \<Rightarrow> Edge list \<Rightarrow> bool list \<Rightarrow> nat \<Rightarrow> nat \<Rightarrow> Edge list \<Rightarrow> ComplexNumbers \<Rightarrow> bool" where
  "div_done c1 es1 zs am i es c =
     (length es = length es1
      \<and> (\<forall>j < length es1.
            if i \<le> j then es ! j = es1 ! j
            else if j = am then es ! j = (es1 ! j)\<lparr>ew := ONE\<rparr>
            else if zs ! j then es ! j = zeroEdge
            else ep (es ! j) = ep (es1 ! j) \<and> interned c (ew (es ! j))
                 \<and> approx (CN_tol c1) (toComplex (valueOf c (ew (es ! j))))
                      (snap_one c1 (ew (es1 ! j)) / toComplex (valueOf c1 (ew (es1 ! am))))))"

text \<open>The node after the matrix normalization with pivot \<open>am\<close>: the pivot has the weight
  \<open>ONE\<close>, an edge that was zero is the zero edge, the weight of any other edge is its old
  weight over the old weight of the pivot.\<close>

definition pivot_normalized :: "ComplexNumbers \<Rightarrow> ComplexNumbers \<Rightarrow> Edge list \<Rightarrow> Edge list \<Rightarrow> nat \<Rightarrow> bool" where
  "pivot_normalized c c' es es' am =
     (length es' = length es
      \<and> (\<forall>i < length es.
            if i = am then es' ! i = (es ! i)\<lparr>ew := ONE\<rparr>
            else if equalsZero c (ew (es ! i)) then es' ! i = zeroEdge
            else ep (es' ! i) = ep (es ! i)
                 \<and> approx (CN_tol c) (toComplex (valueOf c' (ew (es' ! i))))
                      (snap_one c (ew (es ! i)) / toComplex (valueOf c (ew (es ! am))))))"

definition mnode_edge :: Edge where
  "mnode_edge = \<lparr>ep = NodeAt 0, ew = ONE\<rparr>"

definition sqrt_edge :: Edge where
  "sqrt_edge = \<lparr>ep = Terminal, ew = \<lparr>cr = (PoolEntry 1, False), ci = (ZeroEntry, False)\<rparr>\<rparr>"

definition mnode_state :: Package where
  "mnode_state = half_state\<lparr>mUniqueTable := (mUniqueTable half_state)\<lparr>ut_nodes :=
      (ut_nodes (mUniqueTable half_state))(0 :=
         \<lparr>ne = [half_edge, zeroEdge, zeroEdge, sqrt_edge], nref = 0, nv = 0, symm = False, ident = False\<rparr>)\<rparr>\<rparr>"

text \<open>The terminal vector edge of weight \<open>i\<close>, a state of norm one, and the same weight
  one level down: the node of the state \<open>i |0>\<close> under an edge of weight \<open>ONE\<close>.\<close>

definition i_weight :: Complex where
  "i_weight = \<lparr>cr = (ZeroEntry, False), ci = (OneEntry, False)\<rparr>"

definition i_edge :: Edge where
  "i_edge = \<lparr>ep = Terminal, ew = i_weight\<rparr>"

definition i_node_edge :: Edge where
  "i_node_edge = \<lparr>ep = NodeAt 0, ew = ONE\<rparr>"

definition i_node_state :: Package where
  "i_node_state = (Package_init 1)\<lparr>vUniqueTable := (vUniqueTable (Package_init 1))\<lparr>ut_nodes :=
      (ut_nodes (vUniqueTable (Package_init 1)))(0 :=
         \<lparr>ne = [i_edge, zeroEdge], nref = 0, nv = 0, symm = False, ident = False\<rparr>)\<rparr>\<rparr>"

text \<open>The pivot in the words of the claim: the edges are taken in the order of their
  indices; the first edge that is not zero is the current maximum, and a later edge takes
  its place only when its squared magnitude exceeds that of the current maximum by more
  than the tolerance. \<open>pivot_upto c es n\<close> is the current maximum after the first \<open>n\<close>
  edges.\<close>

primrec pivot_upto :: "ComplexNumbers \<Rightarrow> Edge list \<Rightarrow> nat \<Rightarrow> nat option" where
  "pivot_upto c es 0 = None"
| "pivot_upto c es (Suc n) =
     (if equalsZero c (ew (es ! n)) then pivot_upto c es n
      else (case pivot_upto c es n of
              None \<Rightarrow> Some n
            | Some a \<Rightarrow> if mag2 c (ew (es ! n)) - mag2 c (ew (es ! a)) > CN_tol c then Some n else Some a))"

text \<open>A unique table from which a node can be taken and in which a node of the variable
  \<open>var\<close> can be looked up: the chain of available nodes is empty or starts with a node of
  the chunks, every chain of a bucket holds nodes of the chunks, and \<open>var\<close> is one of the
  variables of the table.\<close>

definition table_ready :: "UniqueTable \<Rightarrow> Qubit \<Rightarrow> bool" where
  "table_ready ut var =
     ((ut_available ut = [] \<or> (\<exists>a rest. ut_available ut = NodeAt a # rest))
      \<and> UniqueTable_chains_ok ut \<and> 0 \<le> sint var \<and> nat (sint var) < ut_nvars ut)"

text \<open>The node \<open>b\<close> stands in a chain of the unique table, for the variable \<open>var\<close>.\<close>

definition stored :: "UniqueTable \<Rightarrow> Qubit \<Rightarrow> nat \<Rightarrow> bool" where
  "stored ut var b = (\<exists>key. NodeAt b \<in> set (ut_tables ut (nat (sint var)) key))"

text \<open>A pool in which four numbers have been looked up after the construction: a number
  just below \<open>0.001\<close>, and the parts of the weights \<open>1e-9\<close> and \<open>0.0006 + 0.0008 i\<close>.\<close>

definition near_p :: fp where
  "near_p = 1 / 1000 - 9 / 10 ^ 14"

definition over_pool :: ComplexTable where
  "over_pool =
     snd (ComplexTable_lookup (8 / 10 ^ 4) (snd (ComplexTable_lookup (6 / 10 ^ 4)
       (snd (ComplexTable_lookup (1 / 10 ^ 9) (snd (ComplexTable_lookup near_p ComplexTable_init)))))))"

definition over_state :: Package where
  "over_state = (Package_init 1)\<lparr>cn := ComplexNumbers_init\<lparr>cn_pool := over_pool\<rparr>\<rparr>"

definition over_e0 :: Edge where
  "over_e0 = \<lparr>ep = Terminal, ew = \<lparr>cr = (PoolEntry 3, False), ci = (ZeroEntry, False)\<rparr>\<rparr>"

definition over_e1 :: Edge where
  "over_e1 = \<lparr>ep = Terminal, ew = \<lparr>cr = (PoolEntry 4, False), ci = (PoolEntry 5, False)\<rparr>\<rparr>"















section \<open>The float pool: search order of the lookup\<close>

lemma hash_v_hi: "ComplexTable_hash v_hi = 16384"
  by (simp add: ComplexTable_hash_def v_hi_def MASK_def NBUCKET_def)

lemma hash_v_lo: "ComplexTable_hash v_lo = 16383"
  by (simp add: ComplexTable_hash_def v_lo_def MASK_def NBUCKET_def)

lemma hash_v_lo_minus: "ComplexTable_hash (v_lo - tol13) = 16383"
  by (simp add: ComplexTable_hash_def v_lo_def MASK_def NBUCKET_def tol13_def)

lemma hash_v_lo_plus: "ComplexTable_hash (v_lo + tol13) = 16384"
  by (simp add: ComplexTable_hash_def v_lo_def MASK_def NBUCKET_def tol13_def)

lemma v_hi_lo_facts:
  "\<not> \<bar>v_hi\<bar> < tol13" "\<not> \<bar>v_hi - 1\<bar> < tol13" "\<not> \<bar>v_lo\<bar> < tol13"
  "\<not> \<bar>v_lo - 1\<bar> < tol13" "\<bar>v_hi - v_lo\<bar> < tol13" "v_lo - tol13 \<ge> 0"
  by (simp_all add: v_hi_def v_lo_def tol13_def)

lemma lookup_v_hi_fresh:
  "fst (ComplexTable_lookup v_hi (ComplexTable_clear (setTolerance tol13 s))) = PoolEntry 0"
  by (simp add: ComplexTable_lookup_def hash_v_hi v_hi_lo_facts Let_def ComplexTable_clear_def
      setTolerance_def ComplexTable_insert_new_def getEntry_def INITIAL_ALLOCATION_SIZE_def)

lemma pool_after_hi_fields:
  "ctab_table (pool_after_hi s) = (\<lambda>k. [])(16384 := [PoolEntry 0])"
  "TOLERANCE (pool_after_hi s) = tol13"
  "val (ctab_entries (pool_after_hi s) (PoolEntry 0)) = v_hi"
  "ctab_available (pool_after_hi s) = []"
  "ctab_chunkIt (pool_after_hi s) = 1"
  "ctab_chunkEndIt (pool_after_hi s) = 2048"
  "ctab_count (pool_after_hi s) = 1"
  by (simp_all add: pool_after_hi_def ComplexTable_lookup_def hash_v_hi v_hi_lo_facts Let_def
      ComplexTable_clear_def setTolerance_def ComplexTable_insert_new_def getEntry_def
      INITIAL_ALLOCATION_SIZE_def)

lemma lookup_v_lo_code:
  "fst (ComplexTable_lookup v_lo (pool_after_hi s)) = PoolEntry 1"
  by (simp add: ComplexTable_lookup_def pool_after_hi_fields hash_v_lo hash_v_lo_minus
      v_hi_lo_facts Let_def ComplexTable_insert_new_def getEntry_def split_beta)

lemma lookup_v_lo_count:
  "ctab_count (snd (ComplexTable_lookup v_lo (pool_after_hi s))) = 2"
  by (simp add: ComplexTable_lookup_def pool_after_hi_fields hash_v_lo hash_v_lo_minus
      v_hi_lo_facts Let_def ComplexTable_insert_new_def getEntry_def split_beta)

lemma lookup_v_lo_spec:
  "fst (ComplexTable_lookup_spec v_lo (pool_after_hi s)) = PoolEntry 0"
  using v_hi_lo_facts(5)
  by (simp add: ComplexTable_lookup_spec_def pool_after_hi_fields hash_v_lo hash_v_lo_minus
      hash_v_lo_plus v_hi_lo_facts Let_def ComplexTable_insert_new_def getEntry_def split_beta)

text \<open>
  Claim C4. For an input \<open>v\<close> that is neither zero nor one within the tolerance, the lookup
  is said to search the bucket of \<open>hash v\<close>, then that of \<open>hash (v - tol)\<close>, then that of
  \<open>hash (v + tol)\<close>, before it allocates. The code computes the key of its third search
  from \<open>v - tol\<close>, so the bucket of \<open>hash (v + tol)\<close> is never searched when it differs
  from the other two. At the input below the pool holds \<open>v_hi\<close> in bucket 16384, and
  \<open>v_lo\<close> lies within the tolerance of it with \<open>hash v_lo = hash (v_lo - tol) = 16383\<close>
  and \<open>hash (v_lo + tol) = 16384\<close>: the order of the specification finds the entry of
  \<open>v_hi\<close>, the code allocates a second entry.
\<close>

theorem ComplexTable_lookup_never_searches_upper_bucket:
  "\<forall>s. \<bar>v_hi - v_lo\<bar> < tol13
     \<and> \<not> \<bar>v_lo\<bar> < tol13 \<and> \<not> \<bar>v_lo - 1\<bar> < tol13
     \<and> ComplexTable_hash v_lo = 16383
     \<and> ComplexTable_hash (v_lo - tol13) = 16383
     \<and> ComplexTable_hash (v_lo + tol13) = 16384
     \<and> ctab_table (pool_after_hi s) 16384 = [PoolEntry 0]
     \<and> val (ctab_entries (pool_after_hi s) (PoolEntry 0)) = v_hi
     \<and> fst (ComplexTable_lookup_spec v_lo (pool_after_hi s)) = PoolEntry 0
     \<and> fst (ComplexTable_lookup v_lo (pool_after_hi s)) = PoolEntry 1
     \<and> ctab_count (snd (ComplexTable_lookup v_lo (pool_after_hi s))) = 2"
  by (simp add: v_hi_lo_facts hash_v_lo hash_v_lo_minus hash_v_lo_plus pool_after_hi_fields
      lookup_v_lo_spec lookup_v_lo_code lookup_v_lo_count)


section \<open>Garbage collection and the tables\<close>

lemma bind_Inr [simp]: "bind (Inr x) f = f x" by (simp add: bind_def)
lemma bind_Inl [simp]: "bind (Inl e) f = Inl e" by (simp add: bind_def)
lemma bind_eq_Inr: "bind m f = Inr y \<longleftrightarrow> (\<exists>x. m = Inr x \<and> f x = Inr y)"
  by (cases m) auto

lemma gc_chain_ok:
  "\<forall>p \<in> set ps. \<exists>a. p = NodeAt a \<and> nv (ut_nodes ut a) \<noteq> - 1 \<Longrightarrow>
   \<exists>kept freed. gc_chain k ut ps = Inr (kept, freed) \<and> set kept \<subseteq> set ps"
proof (induction ps)
  case Nil then show ?case by simp
next
  case (Cons p ps)
  then obtain a where a: "p = NodeAt a" "nv (ut_nodes ut a) \<noteq> - 1" by auto
  from Cons obtain kept freed where kf: "gc_chain k ut ps = Inr (kept, freed)" "set kept \<subseteq> set ps" by auto
  show ?case using a kf by (auto simp: deref_def)
qed

lemma gc_buckets_ok:
  "UniqueTable_chains_ok ut \<Longrightarrow>
   \<exists>c r ut'. gc_buckets k v keys (collected, remaining, ut) = Inr (c, r, ut') \<and> UniqueTable_chains_ok ut'
      \<and> ut_nvars ut' = ut_nvars ut"
proof (induction keys arbitrary: collected remaining ut)
  case Nil then show ?case by simp
next
  case (Cons key keys)
  from Cons.prems have "\<forall>p \<in> set (ut_tables ut v key). \<exists>a. p = NodeAt a \<and> nv (ut_nodes ut a) \<noteq> - 1"
    by (simp add: UniqueTable_chains_ok_def)
  from gc_chain_ok[OF this, of k] obtain kept freed where
    kf: "gc_chain k ut (ut_tables ut v key) = Inr (kept, freed)" "set kept \<subseteq> set (ut_tables ut v key)" by auto
  let ?ut = "ut\<lparr>ut_tables := (ut_tables ut)(v := (ut_tables ut v)(key := kept)),
           ut_available := rev freed @ ut_available ut\<rparr>"
  have ok: "UniqueTable_chains_ok ?ut"
    using Cons.prems kf(2) unfolding UniqueTable_chains_ok_def by (auto simp: fun_upd_def)
  from Cons.IH[OF ok] show ?case using kf(1) by simp
qed

lemma gc_tables_ok:
  "UniqueTable_chains_ok (snd (snd acc)) \<Longrightarrow>
   \<exists>c r ut'. gc_tables k vs acc = Inr (c, r, ut') \<and> UniqueTable_chains_ok ut'"
proof (induction vs arbitrary: acc)
  case Nil then show ?case by (cases acc) auto
next
  case (Cons v vs)
  obtain c r ut where acc: "acc = (c, r, ut)" by (cases acc) auto
  with Cons.prems have "UniqueTable_chains_ok ut" by simp
  from gc_buckets_ok[OF this, of k v "[0 ..< NODE_NBUCKET]" c r] obtain c1 r1 ut1 where
    b: "gc_buckets k v [0 ..< NODE_NBUCKET] (c, r, ut) = Inr (c1, r1, ut1)" "UniqueTable_chains_ok ut1" by auto
  from Cons.IH[of "(c1, r1, ut1)"] b show ?case by (simp add: acc)
qed

lemma UniqueTable_garbageCollect_ok:
  assumes "UniqueTable_chains_ok ut"
  shows "\<exists>c ut'. UniqueTable_garbageCollect k force ut = Inr (c, ut')"
proof -
  let ?ut1 = "ut\<lparr>ut_gcCalls := ut_gcCalls ut + 1\<rparr>"
  let ?ut2 = "?ut1\<lparr>ut_gcRuns := ut_gcRuns ?ut1 + 1\<rparr>"
  have "UniqueTable_chains_ok ?ut2" using assms by (simp add: UniqueTable_chains_ok_def)
  from gc_tables_ok[of "(0, 0, ?ut2)" k "[0 ..< ut_nvars ?ut1]"] this
  obtain c r ut' where "gc_tables k [0 ..< ut_nvars ?ut1] (0, 0, ?ut2) = Inr (c, r, ut')" by auto
  then show ?thesis by (auto simp: UniqueTable_garbageCollect_def Let_def)
qed


lemma ToffoliTable_clear_empty:
  "ToffoliTable_counted t \<Longrightarrow> ToffoliTable_empty (ToffoliTable_clear t)"
  by (auto simp: ToffoliTable_counted_def ToffoliTable_empty_def ToffoliTable_clear_def Let_def)

lemma clearComputeTables_empty:
  "ToffoliTable_counted (toffoliTable s) \<Longrightarrow> computeTables_empty (clearComputeTables s)"
  by (simp add: computeTables_empty_def clearComputeTables_def Let_def clearIdentityTable_def
      ComputeTable_empty_def ComputeTable_clear_def OperationTable_empty_def OperationTable_clear_def
      ToffoliTable_clear_empty)

lemma clearComputeTables_IdTable:
  "IdTable_empty (clearComputeTables s)"
  by (simp add: IdTable_empty_def clearComputeTables_def Let_def clearIdentityTable_def)

text \<open>
  Claim C6. Every call of \<open>garbageCollect\<close>, forced or not, whatever the unique tables
  and the pool collect, returns with every compute table empty: the nine operation
  tables, the Toffoli table and the table of the noise operations. The call returns
  (the walk of a unique table throws only at a terminal on a chain), and the Toffoli
  table is emptied because its counter is not zero when it holds an entry.
\<close>

theorem garbageCollect_clears_compute_tables:
  assumes "UniqueTable_chains_ok (vUniqueTable s)" and "UniqueTable_chains_ok (mUniqueTable s)"
    and "ToffoliTable_counted (toffoliTable s)"
  shows "\<exists>s'. garbageCollect force s = Inr s' \<and> computeTables_empty s'"
proof -
  obtain vc vt where v: "UniqueTable_garbageCollect Vector force (vUniqueTable s) = Inr (vc, vt)"
    using UniqueTable_garbageCollect_ok[OF assms(1)] by blast
  obtain mc mt where m: "UniqueTable_garbageCollect Matrix force (mUniqueTable s) = Inr (mc, mt)"
    using UniqueTable_garbageCollect_ok[OF assms(2)] by blast
  obtain cc c where c: "CN_garbageCollect force (cn s) = (cc, c)" by (cases "CN_garbageCollect force (cn s)")
  have g: "garbageCollect force s = Inr (clearComputeTables (s\<lparr>vUniqueTable := vt, mUniqueTable := mt, cn := c\<rparr>))"
    by (simp add: garbageCollect_def v m c)
  have "ToffoliTable_counted (toffoliTable (s\<lparr>vUniqueTable := vt, mUniqueTable := mt, cn := c\<rparr>))"
    using assms(3) by simp
  from clearComputeTables_empty[OF this] g show ?thesis by simp
qed

text \<open>
  Claim C10. \<open>clearComputeTables\<close>, and with it every call of \<open>garbageCollect\<close>, forced
  or not, resets the target of every entry of \<open>IdTable\<close> to null; the table keeps its
  length.
\<close>

theorem garbageCollect_clears_IdTable:
  assumes "UniqueTable_chains_ok (vUniqueTable s)" and "UniqueTable_chains_ok (mUniqueTable s)"
  shows "IdTable_empty (clearComputeTables s) \<and>
         (\<exists>s'. garbageCollect force s = Inr s' \<and> IdTable_empty s' \<and> length (IdTable s') = length (IdTable s))"
proof -
  obtain vc vt where v: "UniqueTable_garbageCollect Vector force (vUniqueTable s) = Inr (vc, vt)"
    using UniqueTable_garbageCollect_ok[OF assms(1)] by blast
  obtain mc mt where m: "UniqueTable_garbageCollect Matrix force (mUniqueTable s) = Inr (mc, mt)"
    using UniqueTable_garbageCollect_ok[OF assms(2)] by blast
  obtain cc c where c: "CN_garbageCollect force (cn s) = (cc, c)" by (cases "CN_garbageCollect force (cn s)")
  have g: "garbageCollect force s = Inr (clearComputeTables (s\<lparr>vUniqueTable := vt, mUniqueTable := mt, cn := c\<rparr>))"
    by (simp add: garbageCollect_def v m c)
  have l: "length (IdTable (clearComputeTables (s\<lparr>vUniqueTable := vt, mUniqueTable := mt, cn := c\<rparr>))) = length (IdTable s)"
    by (simp add: clearComputeTables_def Let_def clearIdentityTable_def)
  show ?thesis using g l clearComputeTables_IdTable by simp
qed


lemma gc_example_ok:
  "UniqueTable_chains_ok (vUniqueTable gc_example)" "UniqueTable_chains_ok (mUniqueTable gc_example)"
  "ToffoliTable_counted (toffoliTable gc_example)" 
  by (simp_all add: gc_example_def Package_init_def UniqueTable_chains_ok_def UniqueTable_init_def
      ToffoliTable_counted_def ToffoliTable_insert_def ToffoliTable_init_def)

lemma gc_example_not_empty:
  "\<not> computeTables_empty gc_example" "\<not> IdTable_empty gc_example"
  by (simp_all add: gc_example_def Package_init_def computeTables_empty_def ComputeTable_empty_def
      ComputeTable_insert_def ComputeTable_init_def IdTable_empty_def oneEdge_def)

theorem garbageCollect_clears_compute_tables_witness:
  "UniqueTable_chains_ok (vUniqueTable gc_example) \<and> UniqueTable_chains_ok (mUniqueTable gc_example)
   \<and> ToffoliTable_counted (toffoliTable gc_example) \<and> \<not> computeTables_empty gc_example
   \<and> (\<exists>s'. garbageCollect False gc_example = Inr s' \<and> computeTables_empty s')"
  using garbageCollect_clears_compute_tables[of gc_example False]
  by (simp add: gc_example_ok gc_example_not_empty)

theorem garbageCollect_clears_IdTable_witness:
  "UniqueTable_chains_ok (vUniqueTable gc_example) \<and> UniqueTable_chains_ok (mUniqueTable gc_example)
   \<and> \<not> IdTable_empty gc_example
   \<and> IdTable_empty (clearComputeTables gc_example)
   \<and> (\<exists>s'. garbageCollect False gc_example = Inr s' \<and> IdTable_empty s'
           \<and> length (IdTable s') = length (IdTable gc_example))"
  using garbageCollect_clears_IdTable[of gc_example False]
  by (simp add: gc_example_ok gc_example_not_empty)


lemma ToffoliTable_init_counted: "ToffoliTable_counted ToffoliTable_init"
  by (simp add: ToffoliTable_counted_def ToffoliTable_init_def ToffoliTable_empty_def nullEdge_def)

lemma ToffoliTable_insert_counted:
  assumes "tt_count t \<noteq> - 1"
  shows "ToffoliTable_counted (ToffoliTable_insert n cs tg e t)"
proof -
  have "tt_count t + 1 \<noteq> 0"
    using assms by (simp add: eq_neg_iff_add_eq_0 [symmetric])
  then show ?thesis
    by (simp add: ToffoliTable_counted_def ToffoliTable_insert_def)
qed

lemma ToffoliTable_clear_counted:
  "ToffoliTable_counted t \<Longrightarrow> ToffoliTable_counted (ToffoliTable_clear t)"
  by (simp add: ToffoliTable_counted_def ToffoliTable_clear_def Let_def ToffoliTable_empty_def)

lemma ToffoliTable_lookup_counted:
  "ToffoliTable_counted t \<Longrightarrow> ToffoliTable_counted (snd (ToffoliTable_lookup n cs tg t))"
  by (simp add: ToffoliTable_counted_def ToffoliTable_lookup_def Let_def ToffoliTable_empty_def)

lemma UniqueTable_lookup_chains_ok:
  assumes "UniqueTable_chains_ok ut" and "UniqueTable_lookup k e keepNode ut = Inr (e', ut')"
  shows "UniqueTable_chains_ok ut'"
proof (cases "ep e")
  case Null
  with assms(2) show ?thesis by (simp add: UniqueTable_lookup_def deref_def)
next
  case Terminal
  with assms show ?thesis
    by (cases k) (auto simp: UniqueTable_lookup_def deref_def terminalNode_def vTerminal_def mTerminal_def)
next
  case (NodeAt a)
  show ?thesis
  proof (cases "nv (ut_nodes ut a) = - 1")
    case True
    with assms NodeAt show ?thesis by (simp add: UniqueTable_lookup_def deref_def)
  next
    case False
    with assms NodeAt show ?thesis
      unfolding UniqueTable_chains_ok_def
      by (auto simp: UniqueTable_lookup_def deref_def Let_def bind_eq_Inr returnNode_def
          split: if_splits option.splits)
  qed
qed

section \<open>Basis states\<close>

text \<open>
  Claim C9. \<open>makeBasisState(n, state)\<close> with fewer than \<open>n + 1\<close> designators throws
  \<open>std::invalid_argument\<close>, and the package at the \<open>throw\<close> is the package of the call:
  no node has been taken from the unique table, no weight has been looked up, nothing has
  been written.
\<close>

theorem makeBasisState_too_short:
  assumes "int (length state) < sint n + 1"
  shows "makeBasisState n state s = Thrown invalid_argument s"
proof -
  have "0 \<le> sint n + 1" using assms by linarith
  moreover have "sint n + 1 < 2 ^ 64"
    using sint_lt [of n] by simp
  ultimately have "(sint n + 1) mod 2 ^ 64 = sint n + 1" by simp
  with assms show ?thesis by (simp add: makeBasisState_def)
qed

theorem makeBasisState_too_short_witness:
  "int (length [zero, one]) < sint (2 :: Qubit) + 1
   \<and> makeBasisState 2 [zero, one] (Package_init 3) = Thrown invalid_argument (Package_init 3)"
  using makeBasisState_too_short [of "[zero, one]" 2 "Package_init 3"] by simp

section \<open>Inner product and fidelity: the two values\<close>

lemma hash_half: "ComplexTable_hash (1 / 2) = 16383"
  by (simp add: ComplexTable_hash_def MASK_def NBUCKET_def)

lemma hash_half_lower: "ComplexTable_hash (4999999999999 / 10000000000000) = 16383"
  by (simp add: ComplexTable_hash_def MASK_def NBUCKET_def)

lemma lookup_half_fresh:
  "ComplexTable_lookup (1 / 2) ComplexTable_fresh =
     (PoolEntry 0, ComplexTable_fresh\<lparr>ctab_lookups := 1, ctab_chunkIt := 1,
        ctab_entries := (ctab_entries ComplexTable_fresh)(PoolEntry 0 := \<lparr>val = 1 / 2, refCount = 0\<rparr>),
        ctab_table := (ctab_table ComplexTable_fresh)(16383 := [PoolEntry 0]),
        ctab_count := 3, ctab_peakCount := 3\<rparr>)"
  by (simp add: ComplexTable_lookup_def ComplexTable_fresh_def hash_half hash_half_lower NBUCKET_def Let_def
      ComplexTable_insert_new_def getEntry_def INITIAL_ALLOCATION_SIZE_def)

lemma hash_sqrt: "ComplexTable_hash SQRT2_2 = 23169"
  by (simp add: ComplexTable_hash_def MASK_def NBUCKET_def SQRT2_2_def)

lemma hash_sqrt_lower: "ComplexTable_hash (SQRT2_2 - 1 / 10000000000000) = 23169"
  by (simp add: ComplexTable_hash_def MASK_def NBUCKET_def SQRT2_2_def)

lemma sqrt_bounds: "7 / 10 < SQRT2_2" "SQRT2_2 < 8 / 10"
  by (simp_all add: SQRT2_2_def)

lemma pinned_half:
  "pinned (1 / 2) ComplexTable_fresh =
     ComplexTable_fresh\<lparr>ctab_lookups := 1, ctab_chunkIt := 1,
        ctab_entries := (ctab_entries ComplexTable_fresh)(PoolEntry 0 := \<lparr>val = 1 / 2, refCount = 1\<rparr>),
        ctab_table := (ctab_table ComplexTable_fresh)(16383 := [PoolEntry 0]),
        ctab_count := 3, ctab_peakCount := 3\<rparr>"
  unfolding pinned_def lookup_half_fresh by (simp add: ComplexTable_fresh_def)

text \<open>The pool of a new package: the two pinned entries are the first two entries of the
  first chunk.\<close>

lemma ComplexTable_init_eq:
  "ComplexTable_init =
     ComplexTable_fresh\<lparr>ctab_lookups := 2, ctab_chunkIt := 2,
        ctab_entries := (ctab_entries ComplexTable_fresh)
           (PoolEntry 0 := \<lparr>val = 1 / 2, refCount = 1\<rparr>, PoolEntry 1 := \<lparr>val = SQRT2_2, refCount = 1\<rparr>),
        ctab_table := (ctab_table ComplexTable_fresh)(16383 := [PoolEntry 0], 23169 := [PoolEntry 1]),
        ctab_count := 4, ctab_peakCount := 4\<rparr>"
proof -
  have t: "\<bar>SQRT2_2\<bar> \<ge> 1 / 10 ^ 13" "\<not> \<bar>SQRT2_2 - 1\<bar> < 1 / 10 ^ 13" "0 \<le> SQRT2_2 - 1 / 10 ^ 13"
    using sqrt_bounds by simp_all
  show ?thesis
    unfolding ComplexTable_init_def pinned_half
    unfolding pinned_def
    using t
    by (simp add: ComplexTable_lookup_def hash_sqrt hash_sqrt_lower NBUCKET_def Let_def
        ComplexTable_insert_new_def getEntry_def INITIAL_ALLOCATION_SIZE_def ComplexTable_fresh_def)
qed

lemma ComplexTable_lookup_zero:
  "0 < TOLERANCE t \<Longrightarrow> ComplexTable_lookup 0 t = (ZeroEntry, t)"
  by (simp add: ComplexTable_lookup_def)

lemma half_pool_fields:
  "TOLERANCE half_pool = 1 / 10 ^ 13"
  "val (ctab_entries half_pool (PoolEntry 0)) = 1 / 2"
  "val (ctab_entries half_pool ZeroEntry) = 0"
  unfolding half_pool_def ComplexTable_init_eq by (simp_all add: ComplexTable_fresh_def)

lemma Cache_Avail_init:
  "Cache_Avail ComplexNumbers_init = CacheEntry 0 # CacheEntry 1 # map CacheEntry [2 ..< CACHE_SIZE]"
proof -
  have a: "[0 ..< 1800] = 0 # [Suc 0 ..< 1800]" by (rule upt_conv_Cons) simp
  have b: "[Suc 0 ..< 1800] = Suc 0 # [Suc (Suc 0) ..< 1800]" by (rule upt_conv_Cons) simp
  have c: "Suc (Suc 0) = 2" by simp
  have "[0 ..< CACHE_SIZE] = 0 # 1 # [2 ..< CACHE_SIZE]"
    unfolding CACHE_SIZE_def a b c by simp
  then show ?thesis by (simp add: ComplexNumbers_init_def del: upt_rec_numeral)
qed

text \<open>The inner product of a terminal edge with itself: the square of its weight.\<close>

lemma innerProduct_terminal:
  assumes "ep x = Terminal" and "\<not> equalsZero (cn s) (ew x)"
    and "Cache_Avail (cn s) = r # i # rest" and "r \<noteq> i"
  shows "\<exists>s'. innerProduct (Suc fuel) x x s =
           Inr (\<lparr>cv_r = entry_val (cn s) (cr (ew x)) * entry_val (cn s) (cr (ew x))
                          - entry_val (cn s) (ci (ew x)) * entry_val (cn s) (ci (ew x)),
                 cv_i = entry_val (cn s) (cr (ew x)) * entry_val (cn s) (ci (ew x))
                          + entry_val (cn s) (ci (ew x)) * entry_val (cn s) (cr (ew x))\<rparr>, s')"
  using assms
  by (simp add: innerProduct_def deref_def Package_init_def terminalNode_def vTerminal_def
      innerProduct_body_def getTempCachedComplex_def CN_mul_def Let_def CN_store_def set_val_def
      valueOf_def entry_val_def getAlignedPointer_def isNegativePointer_def)

lemma half_edge_nonzero: "\<not> equalsZero (cn half_state) (ew half_edge)"
  by (simp add: equalsZero_def half_state_def half_edge_def ZERO_def entry_val_def CN_tol_def
      getAlignedPointer_def isNegativePointer_def half_pool_fields)

lemma half_edge_vals:
  "entry_val (cn half_state) (cr (ew half_edge)) = 1 / 2"
  "entry_val (cn half_state) (ci (ew half_edge)) = 0"
  by (simp_all add: half_state_def half_edge_def entry_val_def
      getAlignedPointer_def isNegativePointer_def half_pool_fields)

lemma innerProduct_half:
  "\<exists>s'. innerProduct 1 half_edge half_edge half_state = Inr (\<lparr>cv_r = 1 / 4, cv_i = 0\<rparr>, s')"
proof -
  have c: "Cache_Avail (cn half_state) = CacheEntry 0 # CacheEntry 1 # map CacheEntry [2 ..< CACHE_SIZE]"
    using Cache_Avail_init by (simp add: half_state_def ComplexNumbers_init_def del: upt_rec_numeral)
  have t: "ep half_edge = Terminal" by (simp add: half_edge_def)
  from innerProduct_terminal [OF t half_edge_nonzero c, of 0]
  show ?thesis by (simp add: half_edge_vals)
qed

text \<open>The terminal edge of weight 1/2: its inner product with itself is 1/4, its
  fidelity with itself 1/16.\<close>

lemma innerProduct_differs_from_fidelity:
  "\<exists>ip f s1 s2. innerProduct 1 half_edge half_edge half_state = Inr (ip, s1)
        \<and> fidelity 1 half_edge half_edge half_state = Inr (f, s2)
        \<and> cv_i ip = 0 \<and> cv_r ip = 1 / 4 \<and> f = 1 / 16 \<and> cv_r ip \<noteq> f"
proof -
  from innerProduct_half obtain s' where
    ip: "innerProduct 1 half_edge half_edge half_state = Inr (\<lparr>cv_r = 1 / 4, cv_i = 0\<rparr>, s')" by blast
  then have "fidelity 1 half_edge half_edge half_state = Inr (1 / 16, s')"
    by (simp add: fidelity_def)
  with ip show ?thesis
    by (intro exI [of _ "\<lparr>cv_r = 1 / 4, cv_i = 0\<rparr>"] exI [of _ "1 / 16"] exI [of _ s']) simp
qed

lemma init_pool_vals:
  "TOLERANCE ComplexTable_init = 1 / 10 ^ 13"
  "val (ctab_entries ComplexTable_init ZeroEntry) = 0"
  "val (ctab_entries ComplexTable_init OneEntry) = 1"
  unfolding ComplexTable_init_eq by (simp_all add: ComplexTable_fresh_def)

lemma init_entry_vals:
  "entry_val (cn (Package_init n)) (ZeroEntry, b) = 0"
  "entry_val (cn (Package_init n)) (OneEntry, False) = 1"
  "entry_val (cn (Package_init n)) (OneEntry, True) = - 1"
  "CN_tol (cn (Package_init n)) = 1 / 10 ^ 13"
  by (simp_all add: entry_val_def CN_tol_def Package_init_def ComplexNumbers_init_def init_pool_vals
      getAlignedPointer_def isNegativePointer_def)

lemma i_edge_nonzero: "\<not> equalsZero (cn (Package_init n)) (ew i_edge)"
  by (simp add: equalsZero_def i_edge_def i_weight_def ZERO_def init_entry_vals)

lemma innerProduct_i_edge:
  "\<exists>s'. innerProduct 1 i_edge i_edge (Package_init 1) = Inr (\<lparr>cv_r = - 1, cv_i = 0\<rparr>, s')"
proof -
  have c: "Cache_Avail (cn (Package_init 1)) = CacheEntry 0 # CacheEntry 1 # map CacheEntry [2 ..< CACHE_SIZE]"
    using Cache_Avail_init by (simp add: Package_init_def)
  have t: "ep i_edge = Terminal" by (simp add: i_edge_def)
  from innerProduct_terminal [OF t i_edge_nonzero c, of 0]
  show ?thesis by (simp add: i_edge_def i_weight_def init_entry_vals)
qed

lemma i_node_cn: "cn i_node_state = cn (Package_init 1)"
  by (simp add: i_node_state_def)

lemma pool_init_vals:
  "val (ctab_entries (cn_pool (cn (Package_init n))) ZeroEntry) = 0"
  "val (ctab_entries (cn_pool (cn (Package_init n))) OneEntry) = 1"
  "TOLERANCE (cn_pool (cn (Package_init n))) = 1 / 10 ^ 13"
  by (simp_all add: Package_init_def ComplexNumbers_init_def init_pool_vals)

lemma innerProduct_i_node:
  "\<exists>s'. innerProduct (Suc (Suc 0)) i_node_edge i_node_edge i_node_state = Inr (\<lparr>cv_r = 1, cv_i = 0\<rparr>, s')"
proof -
  have c: "Cache_Avail (cn (Package_init 1)) = CacheEntry 0 # CacheEntry 1 # map CacheEntry [2 ..< CACHE_SIZE]"
    using Cache_Avail_init by (simp add: Package_init_def)
  have n: "ut_nodes (vUniqueTable i_node_state) 0 =
      \<lparr>ne = [i_edge, zeroEdge], nref = 0, nv = 0, symm = False, ident = False\<rparr>"
    "vUniqueTable (i_node_state\<lparr>cn := x\<rparr>) = vUniqueTable i_node_state" for x
    by (simp_all add: i_node_state_def)
  have ct: "ComputeTable_lookup a b (vectorInnerProduct i_node_state) = None" for a b
    by (simp add: i_node_state_def Package_init_def ComputeTable_lookup_def ComputeTable_init_def)
  show ?thesis
    using c
    by (simp add: innerProduct_def i_node_cn i_node_edge_def deref_def n innerProduct_body_def ct Let_def
      innerProduct_child_def operandAt_def isTerminal_def childEdge_def
      i_edge_def i_weight_def zeroEdge_def ZERO_def ONE_def CN_conj_def flipPointerSign_def
      getTempCachedComplex_def getTempCachedComplexV_def innerProduct_result_def scaleByOperands_def
      CN_mul_def CN_store_def set_val_def valueOf_def entry_val_def equalsZero_def CN_tol_def
      getAlignedPointer_def isNegativePointer_def pool_init_vals bind_def
      del: upt_rec_numeral)
qed

text \<open>
  Claim C8. The recursion conjugates the weights of the children of the second operand,
  and never the weight of the second operand itself. For the terminal edge of weight \<open>i\<close>,
  a state of norm one, the inner product with itself is \<open>-1\<close>, outside the unit interval,
  while the fidelity is 1; with the same weight one level down, on the edge from a node to
  the terminal, the inner product of the state with itself is 1.
\<close>

theorem innerProduct_top_weight_not_conjugated:
  "(\<exists>s1. innerProduct 1 i_edge i_edge (Package_init 1) = Inr (\<lparr>cv_r = - 1, cv_i = 0\<rparr>, s1)
          \<and> fidelity 1 i_edge i_edge (Package_init 1) = Inr (1, s1))
   \<and> (\<exists>s2. innerProduct 2 i_node_edge i_node_edge i_node_state = Inr (\<lparr>cv_r = 1, cv_i = 0\<rparr>, s2))"
proof -
  from innerProduct_i_edge obtain s1 where
    ip: "innerProduct 1 i_edge i_edge (Package_init 1) = Inr (\<lparr>cv_r = - 1, cv_i = 0\<rparr>, s1)" by blast
  then have "fidelity 1 i_edge i_edge (Package_init 1) = Inr (1, s1)" by (simp add: fidelity_def)
  with ip innerProduct_i_node show ?thesis by (simp add: numeral_2_eq_2)
qed

section \<open>Compute tables: the keys\<close>


lemma rescaleInPlace_frame: "\<exists>e' c. rescaleInPlace e x y s = (e', s\<lparr>cn := c\<rparr>)"
  by (auto simp: rescaleInPlace_def Let_def)

lemma productWeight_frame:
  "productWeight e x y s = Inr (e', s') \<Longrightarrow> \<exists>c. s' = s\<lparr>cn := c\<rparr>"
  by (auto simp: productWeight_def bind_eq_Inr split: if_splits)

lemma fromTable_frame:
  "fromTable r x y s = Inr (e', s') \<Longrightarrow> s' = s \<or> (\<exists>c. s' = s\<lparr>cn := c\<rparr>)"
  using rescaleInPlace_frame
  by (auto simp: fromTable_def bind_eq_Inr rescaleInPlace_def Let_def split: if_splits)

lemma rescaleNew_frame:
  "rescaleNew e x y s = Inr (e', s') \<Longrightarrow> s' = s \<or> (\<exists>c. s' = s\<lparr>cn := c\<rparr>)"
  by (auto simp: rescaleNew_def rescaleInPlace_def Let_def dest: productWeight_frame split: if_splits)

lemma innerProduct_result_frame:
  "innerProduct_result v x y s = Inr (e', s') \<Longrightarrow> \<exists>c. s' = s\<lparr>cn := c\<rparr>"
  by (auto simp: innerProduct_result_def bind_eq_Inr Let_def)


lemma half_pool_one: "val (ctab_entries half_pool OneEntry) = 1"
  unfolding half_pool_def ComplexTable_init_eq by (simp add: ComplexTable_fresh_def)







lemma example_Cache_Avail:
  "Cache_Avail (cn half_state) = CacheEntry 0 # CacheEntry 1 # map CacheEntry [2 ..< CACHE_SIZE]"
  using Cache_Avail_init by (simp add: half_state_def ComplexNumbers_init_def del: upt_rec_numeral)



section \<open>Vector normalization: the weights of a node\<close>

lemma pool_ok_val:
  "pool_ok t \<Longrightarrow> pool_owned t q \<Longrightarrow> q \<noteq> ZeroEntry \<Longrightarrow> TOLERANCE t \<le> val (ctab_entries t q)"
  unfolding pool_ok_def by blast

lemma pool_extends_refl: "pool_extends t t"
  by (simp add: pool_extends_def)

lemma pool_extends_trans: "pool_extends t t' \<Longrightarrow> pool_extends t' t'' \<Longrightarrow> pool_extends t t''"
  by (simp add: pool_extends_def)

lemma find_Some:
  "ComplexTable_find ps v t = (Some p, t') \<Longrightarrow>
     p \<in> set ps \<and> \<bar>val (ctab_entries t p) - v\<bar> < TOLERANCE t"
proof (induction ps arbitrary: t)
  case Nil
  then show ?case by simp
next
  case (Cons a ps)
  show ?case
  proof (cases "\<bar>val (ctab_entries t a) - v\<bar> < TOLERANCE t")
    case True
    with Cons.prems show ?thesis by auto
  next
    case False
    with Cons.prems have "ComplexTable_find ps v (t\<lparr>ctab_collisions := ctab_collisions t + 1\<rparr>) = (Some p, t')"
      by simp
    from Cons.IH [OF this] show ?thesis by simp
  qed
qed

lemma find_frame:
  "ComplexTable_find ps v t = (r, t') \<Longrightarrow>
     ctab_entries t' = ctab_entries t \<and> ctab_table t' = ctab_table t \<and> TOLERANCE t' = TOLERANCE t
     \<and> ctab_available t' = ctab_available t \<and> ctab_chunkIt t' = ctab_chunkIt t"
  by (induction ps arbitrary: t) (auto split: if_splits)

lemma find_pool_ok:
  assumes "ComplexTable_find ps v t = (r, t')" and "pool_ok t"
  shows "pool_ok t'" and "pool_extends t t'" and "cache_same t t'"
  using find_frame [OF assms(1)] assms(2)
  by (auto simp: pool_ok_def pool_extends_def pool_owned_def cache_same_def)

lemma find_owned:
  assumes "ComplexTable_find (ctab_table t key) v t = (Some p, t')" and "pool_ok t"
  shows "pool_owned t' p" and "\<bar>val (ctab_entries t' p) - v\<bar> < TOLERANCE t"
proof -
  from find_Some [OF assms(1)] have m: "p \<in> set (ctab_table t key)"
    and d: "\<bar>val (ctab_entries t p) - v\<bar> < TOLERANCE t" by simp_all
  from m assms(2) have "pool_owned t p" by (auto simp: pool_ok_def)
  with find_pool_ok(2) [OF assms] show "pool_owned t' p" by (simp add: pool_extends_def)
  from d find_frame [OF assms(1)] show "\<bar>val (ctab_entries t' p) - v\<bar> < TOLERANCE t" by simp
qed

lemma insert_new_spec:
  assumes "ComplexTable_insert_new v key t = (p, t')" and "pool_ok t" and "TOLERANCE t \<le> v"
  shows "pool_ok t' \<and> pool_extends t t' \<and> cache_same t t' \<and> pool_owned t' p
         \<and> val (ctab_entries t' p) = v"
proof (cases "ctab_available t")
  case Nil
  define t1 where "t1 = (if ctab_chunkIt t = ctab_chunkEndIt t
                     then t\<lparr>ctab_allocations := ctab_allocations t + ctab_allocationSize t,
                            ctab_allocationSize := ctab_allocationSize t * GROWTH_FACTOR,
                            ctab_chunkID := ctab_chunkID t + 1,
                            ctab_chunkEndIt := ctab_chunkEndIt t + ctab_allocationSize t\<rparr>
                     else t)"
  have f: "ctab_chunkIt t1 = ctab_chunkIt t" "ctab_entries t1 = ctab_entries t"
    "ctab_table t1 = ctab_table t" "ctab_available t1 = []" "TOLERANCE t1 = TOLERANCE t"
    using Nil by (simp_all add: t1_def)
  have g: "getEntry t = (PoolEntry (ctab_chunkIt t), t1\<lparr>ctab_chunkIt := ctab_chunkIt t + 1\<rparr>)"
    using Nil by (simp add: getEntry_def t1_def Let_def)
  from assms(1) have p: "p = PoolEntry (ctab_chunkIt t)"
    and e: "ctab_entries t' = (ctab_entries t)(p := (ctab_entries t p)\<lparr>val := v\<rparr>)"
    and tb: "ctab_table t' = (ctab_table t)(key := p # ctab_table t key)"
    and av: "ctab_available t' = []" and ci: "ctab_chunkIt t' = ctab_chunkIt t + 1"
    and tl: "TOLERANCE t' = TOLERANCE t"
    by (auto simp: ComplexTable_insert_new_def g Let_def f)
  have old: "TOLERANCE t \<le> val (ctab_entries t (PoolEntry k))" if "k < ctab_chunkIt t" for k
    using that Nil pool_ok_val [OF assms(2), of "PoolEntry k"] by (simp add: pool_owned_def)
  have one: "TOLERANCE t \<le> val (ctab_entries t OneEntry)"
    using pool_ok_val [OF assms(2), of OneEntry] by (simp add: pool_owned_def)
  show ?thesis
    using assms(2,3) Nil old one unfolding pool_ok_def pool_extends_def pool_owned_def cache_same_def e tb av ci tl p
    by (auto simp: less_Suc_eq)
next
  case (Cons entry rest)
  have g: "getEntry t = (entry, t\<lparr>ctab_available := rest,
              ctab_entries := (ctab_entries t)(entry := (ctab_entries t entry)\<lparr>refCount := 0\<rparr>)\<rparr>)"
    using Cons by (simp add: getEntry_def)
  from assms(1) have p: "p = entry"
    and e: "ctab_entries t' = (ctab_entries t)(p := (ctab_entries t p)\<lparr>refCount := 0, val := v\<rparr>)"
    and tb: "ctab_table t' = (ctab_table t)(key := p # ctab_table t key)"
    and av: "ctab_available t' = rest" and ci: "ctab_chunkIt t' = ctab_chunkIt t"
    and tl: "TOLERANCE t' = TOLERANCE t"
    by (auto simp: ComplexTable_insert_new_def g Let_def)
  from assms(2) Cons obtain k where k: "entry = PoolEntry k" "k < ctab_chunkIt t" "entry \<notin> set rest"
    "distinct rest" by (auto simp: pool_ok_def)
  have old: "TOLERANCE t \<le> val (ctab_entries t (PoolEntry j))"
    if "j < ctab_chunkIt t" "PoolEntry j \<noteq> entry" "PoolEntry j \<notin> set rest" for j
    using that Cons pool_ok_val [OF assms(2), of "PoolEntry j"] by (simp add: pool_owned_def)
  have one: "TOLERANCE t \<le> val (ctab_entries t OneEntry)"
    using pool_ok_val [OF assms(2), of OneEntry] by (simp add: pool_owned_def)
  show ?thesis
    using assms(2,3) k Cons old one unfolding pool_ok_def pool_extends_def pool_owned_def cache_same_def e tb av ci tl p
    by auto
qed

lemma cache_same_refl: "cache_same t t"
  by (simp add: cache_same_def)

lemma cache_same_trans: "cache_same t t' \<Longrightarrow> cache_same t' t'' \<Longrightarrow> cache_same t t''"
  by (simp add: cache_same_def)

lemma find_stage:
  assumes "ComplexTable_find (ctab_table s key) v s = (r, s')" and "pool_ok s"
  shows "pool_ok s' \<and> pool_extends s s' \<and> cache_same s s' \<and> TOLERANCE s' = TOLERANCE s
         \<and> (\<forall>e. r = Some e \<longrightarrow> pool_owned s' e \<and> \<bar>val (ctab_entries s' e) - v\<bar> < TOLERANCE s)"
proof -
  have "pool_owned s' e \<and> \<bar>val (ctab_entries s' e) - v\<bar> < TOLERANCE s" if "r = Some e" for e
    using find_owned [OF assms(1) [unfolded that] assms(2)] by simp
  with find_pool_ok [OF assms] find_frame [OF assms(1)] show ?thesis by simp
qed

lemma lookups_ok:
  "pool_ok t \<Longrightarrow> pool_ok (t\<lparr>ctab_lookups := n\<rparr>) \<and> pool_extends t (t\<lparr>ctab_lookups := n\<rparr>)
     \<and> cache_same t (t\<lparr>ctab_lookups := n\<rparr>)"
  unfolding pool_ok_def pool_extends_def pool_owned_def cache_same_def by auto

lemma ComplexTable_lookup_spec_ok:
  assumes "ComplexTable_lookup v t = (p, t')" and "pool_ok t" and "0 \<le> v"
  shows "pool_ok t' \<and> pool_extends t t' \<and> cache_same t t' \<and> pool_owned t' p
         \<and> \<bar>val (ctab_entries t' p) - v\<bar> < TOLERANCE t"
proof (cases "\<bar>v\<bar> < TOLERANCE t \<or> \<bar>v - 1\<bar> < TOLERANCE t")
  case True
  from assms(2) have vz: "val (ctab_entries t ZeroEntry) = 0" "val (ctab_entries t OneEntry) = 1"
    by (simp_all add: pool_ok_def)
  show ?thesis
  proof (cases "\<bar>v\<bar> < TOLERANCE t")
    case z: True
    with assms(1,3) have "p = ZeroEntry" "t' = t" by (simp_all add: ComplexTable_lookup_def)
    with vz z assms(2) show ?thesis
      by (simp add: pool_extends_refl cache_same_refl pool_owned_def)
  next
    case z: False
    with True assms(1,3) have "p = OneEntry" "t' = t" by (simp_all add: ComplexTable_lookup_def)
    with vz z True assms(2) show ?thesis
      by (simp add: pool_extends_refl cache_same_refl pool_owned_def abs_minus_commute)
  qed
next
  case False
  with assms(3) have big: "TOLERANCE t \<le> v" by simp
  define s0 where "s0 = t\<lparr>ctab_lookups := ctab_lookups t + 1\<rparr>"
  have ok0: "pool_ok s0" and ex0: "pool_extends t s0" and cs0: "cache_same t s0"
    using lookups_ok [OF assms(2)] by (simp_all add: s0_def)
  have tl0: "TOLERANCE s0 = TOLERANCE t" by (simp add: s0_def)
  note L = assms(1) [unfolded ComplexTable_lookup_def Let_def, folded s0_def]
  obtain p1 s1 where f1: "ComplexTable_find (ctab_table s0 (ComplexTable_hash v)) v s0 = (p1, s1)"
    by (cases "ComplexTable_find (ctab_table s0 (ComplexTable_hash v)) v s0")
  note st1 = find_stage [OF f1 ok0]
  have ex1: "pool_extends t s1" and tl1: "TOLERANCE s1 = TOLERANCE t" and cs1: "cache_same t s1"
    using st1 ex0 tl0 cs0 by (auto intro: pool_extends_trans cache_same_trans)
  show ?thesis
  proof (cases p1)
    case (Some e)
    with L False f1 assms(3) have "p = e" "t' = s1" by simp_all
    with st1 Some ex1 tl0 cs1 show ?thesis by simp
  next
    case n1: None
    obtain p2 s2 where f2: "ComplexTable_find (ctab_table s1 (ComplexTable_hash (v - TOLERANCE s1))) v s1 = (p2, s2)"
      by (cases "ComplexTable_find (ctab_table s1 (ComplexTable_hash (v - TOLERANCE s1))) v s1")
    note st2 = find_stage [OF f2 st1 [THEN conjunct1]]
    have ex2: "pool_extends t s2" and tl2: "TOLERANCE s2 = TOLERANCE t" and cs2: "cache_same t s2"
      using st2 ex1 tl1 cs1 by (auto intro: pool_extends_trans cache_same_trans)
    obtain p4 s4 where f4: "ComplexTable_find (ctab_table s2 (ComplexTable_hash (v - TOLERANCE s2))) v s2 = (p4, s4)"
      by (cases "ComplexTable_find (ctab_table s2 (ComplexTable_hash (v - TOLERANCE s2))) v s2")
    note st4 = find_stage [OF f4 st2 [THEN conjunct1]]
    have ex4: "pool_extends t s4" and tl4: "TOLERANCE s4 = TOLERANCE t" and cs4: "cache_same t s4"
      using st4 ex2 tl2 cs2 by (auto intro: pool_extends_trans cache_same_trans)
    let ?G = "pool_ok t' \<and> pool_extends t t' \<and> cache_same t t' \<and> pool_owned t' p
         \<and> \<bar>val (ctab_entries t' p) - v\<bar> < TOLERANCE t"
    have ins: ?G
      if "pool_ok s" "pool_extends t s" "cache_same t s"
        "ComplexTable_insert_new v (ComplexTable_hash v) s = (p, t')" for s
    proof -
      from that(2) have "TOLERANCE s \<le> v" using big by (simp add: pool_extends_def)
      from insert_new_spec [OF that(4) that(1) this] that(2,3) assms(2) show ?thesis
        by (auto intro: pool_extends_trans cache_same_trans simp: pool_ok_def)
    qed
    from L False f1 n1 assms(3) show ?thesis
      apply (simp add: f2 f4 split: if_splits option.splits prod.splits)
      using st1 st2 st4 ex1 ex2 ex4 tl1 tl2 tl4 cs1 cs2 cs4 ins f2 f4
      apply (auto split: if_splits option.splits prod.splits)
      done
  qed
qed

lemma cn_extends_refl: "cn_extends c c"
  by (simp add: cn_extends_def pool_extends_refl)

lemma cn_extends_trans: "cn_extends c c' \<Longrightarrow> cn_extends c' c'' \<Longrightarrow> cn_extends c c''"
  by (auto simp: cn_extends_def intro: pool_extends_trans)

lemma cn_extends_tol: "cn_extends c c' \<Longrightarrow> CN_tol c' = CN_tol c"
  by (simp add: cn_extends_def pool_extends_def CN_tol_def)

lemma cn_extends_val:
  "cn_extends c c' \<Longrightarrow> pool_owned (cn_pool c) (fst x) \<Longrightarrow> entry_val c' x = entry_val c x"
  by (simp add: cn_extends_def pool_extends_def entry_val_def getAlignedPointer_def)

lemma cn_extends_interned: "cn_extends c c' \<Longrightarrow> interned c w \<Longrightarrow> interned c' w"
  by (simp add: cn_extends_def pool_extends_def interned_def)

lemma cn_extends_valueOf: "cn_extends c c' \<Longrightarrow> interned c w \<Longrightarrow> valueOf c' w = valueOf c w"
  by (simp add: valueOf_def interned_def cn_extends_val)

lemma cache_same_val:
  "cache_same (cn_pool c) (cn_pool c') \<Longrightarrow> fst x = CacheEntry a \<Longrightarrow> entry_val c' x = entry_val c x"
  by (simp add: cache_same_def entry_val_def getAlignedPointer_def)

lemma lookupVal_ok:
  assumes "lookupVal v c = (x, c')" and "pool_ok (cn_pool c)"
  shows "pool_ok (cn_pool c') \<and> cn_extends c c' \<and> cache_same (cn_pool c) (cn_pool c')
         \<and> pool_owned (cn_pool c') (fst x) \<and> \<bar>entry_val c' x - v\<bar> < CN_tol c
         \<and> (fst x = ZeroEntry \<longrightarrow> \<not> snd x)"
proof -
  obtain e t where l: "ComplexTable_lookup \<bar>v\<bar> (cn_pool c) = (e, t)"
    by (cases "ComplexTable_lookup \<bar>v\<bar> (cn_pool c)")
  from ComplexTable_lookup_spec_ok [OF l assms(2)] have
    ok: "pool_ok t" and ex: "pool_extends (cn_pool c) t" and cs: "cache_same (cn_pool c) t"
    and ow: "pool_owned t e"
    and d: "\<bar>val (ctab_entries t e) - \<bar>v\<bar>\<bar> < TOLERANCE (cn_pool c)" by simp_all
  from assms(1) l have x: "x = (e, v < 0 \<and> e \<noteq> ZeroEntry)" and c': "c' = c\<lparr>cn_pool := t\<rparr>"
    by (simp_all add: lookupVal_def)
  have z: "val (ctab_entries t ZeroEntry) = 0" using ok by (simp add: pool_ok_def)
  have "\<bar>entry_val c' x - v\<bar> < CN_tol c"
    using d z unfolding x c' entry_val_def CN_tol_def getAlignedPointer_def isNegativePointer_def
    by (cases "e = ZeroEntry"; cases "v < 0") auto
  with ok ex cs ow show ?thesis
    by (simp add: x c' cn_extends_def)
qed

lemma lookupVal_zero: "pool_ok (cn_pool c) \<Longrightarrow> lookupVal 0 c = ((ZeroEntry, False), c)"
  by (simp add: lookupVal_def ComplexTable_lookup_def pool_ok_def)

lemma lookupVal_big:
  assumes "lookupVal v c = (x, c')" and "pool_ok (cn_pool c)" and "CN_tol c \<le> \<bar>v\<bar>"
  shows "CN_tol c \<le> \<bar>entry_val c' x\<bar>"
proof -
  note a = lookupVal_ok [OF assms(1,2)]
  have t: "CN_tol c' = CN_tol c" using a cn_extends_tol by blast
  from a assms(3) have nz: "fst x \<noteq> ZeroEntry"
    by (auto simp: entry_val_def getAlignedPointer_def pool_ok_def split: if_splits)
  with a have "TOLERANCE (cn_pool c') \<le> val (ctab_entries (cn_pool c') (fst x))"
    using pool_ok_val by blast
  then show ?thesis using t
    by (simp add: entry_val_def getAlignedPointer_def CN_tol_def)
qed

lemma CN_lookupV_ok:
  assumes "CN_lookupV r i c = (w, c')" and "pool_ok (cn_pool c)"
  shows "pool_ok (cn_pool c') \<and> cn_extends c c' \<and> cache_same (cn_pool c) (cn_pool c') \<and> interned c' w
         \<and> \<bar>entry_val c' (cr w) - r\<bar> < CN_tol c \<and> \<bar>entry_val c' (ci w) - i\<bar> < CN_tol c"
proof -
  obtain pr c1 where l1: "lookupVal r c = (pr, c1)" by (cases "lookupVal r c")
  obtain pi c2 where l2: "lookupVal i c1 = (pi, c2)" by (cases "lookupVal i c1")
  from assms(1) l1 l2 have w: "w = \<lparr>cr = pr, ci = pi\<rparr>" and c': "c' = c2"
    by (simp_all add: CN_lookupV_def)
  note a = lookupVal_ok [OF l1 assms(2)]
  note b = lookupVal_ok [OF l2 a [THEN conjunct1]]
  have t: "CN_tol c1 = CN_tol c" using a cn_extends_tol by blast
  have "entry_val c2 pr = entry_val c1 pr" using a b by (simp add: cn_extends_val)
  with a b t show ?thesis
    unfolding w c' interned_def
    by (auto intro: cn_extends_trans cache_same_trans simp: cn_extends_def pool_extends_def)
qed

lemma CN_lookupV_real:
  assumes "CN_lookupV r 0 c = (w, c')" and "pool_ok (cn_pool c)"
  shows "ci w = (ZeroEntry, False)"
proof -
  obtain pr c1 where l1: "lookupVal r c = (pr, c1)" by (cases "lookupVal r c")
  from lookupVal_ok [OF l1 assms(2)] have "pool_ok (cn_pool c1)" by simp
  from lookupVal_zero [OF this] assms(1) l1 show ?thesis by (auto simp: CN_lookupV_def)
qed

lemma CN_lookupV_big:
  assumes "CN_lookupV r i c = (w, c')" and "pool_ok (cn_pool c)"
    and "CN_tol c \<le> \<bar>r\<bar> \<or> CN_tol c \<le> \<bar>i\<bar>"
  shows "\<not> equalsZero c' w"
proof -
  obtain pr c1 where l1: "lookupVal r c = (pr, c1)" by (cases "lookupVal r c")
  obtain pi c2 where l2: "lookupVal i c1 = (pi, c2)" by (cases "lookupVal i c1")
  from assms(1) l1 l2 have w: "w = \<lparr>cr = pr, ci = pi\<rparr>" and c': "c' = c2"
    by (simp_all add: CN_lookupV_def)
  note a = lookupVal_ok [OF l1 assms(2)]
  note b = lookupVal_ok [OF l2 a [THEN conjunct1]]
  have t1: "CN_tol c1 = CN_tol c" using a cn_extends_tol by blast
  have t2: "CN_tol c2 = CN_tol c1" using b cn_extends_tol by blast
  note t = t1 t2 [unfolded t1]
  have pv: "entry_val c2 pr = entry_val c1 pr" using a b by (simp add: cn_extends_val)
  from assms(3) show ?thesis
  proof
    assume r: "CN_tol c \<le> \<bar>r\<bar>"
    from lookupVal_big [OF l1 assms(2) r] pv have "CN_tol c \<le> \<bar>entry_val c2 pr\<bar>" by simp
    moreover from a r have "fst pr \<noteq> ZeroEntry"
      by (auto simp: entry_val_def getAlignedPointer_def pool_ok_def split: if_splits)
    ultimately show ?thesis by (auto simp: equalsZero_def w c' t ZERO_def)
  next
    assume i: "CN_tol c \<le> \<bar>i\<bar>"
    with t have "CN_tol c1 \<le> \<bar>i\<bar>" by simp
    from lookupVal_big [OF l2 a [THEN conjunct1] this] t have "CN_tol c \<le> \<bar>entry_val c2 pi\<bar>" by simp
    moreover from b i t have "fst pi \<noteq> ZeroEntry"
      by (auto simp: entry_val_def getAlignedPointer_def pool_ok_def split: if_splits)
    ultimately show ?thesis by (auto simp: equalsZero_def w c' t ZERO_def)
  qed
qed

lemma pool_extends_val:
  "pool_extends (cn_pool c) (cn_pool c') \<Longrightarrow> pool_owned (cn_pool c) (fst x) \<Longrightarrow> entry_val c' x = entry_val c x"
  by (simp add: pool_extends_def entry_val_def getAlignedPointer_def)

lemma pool_extends_valueOf:
  "pool_extends (cn_pool c) (cn_pool c') \<Longrightarrow> interned c w \<Longrightarrow> valueOf c' w = valueOf c w"
  by (simp add: valueOf_def interned_def pool_extends_val)

lemma pool_extends_interned:
  "pool_extends (cn_pool c) (cn_pool c') \<Longrightarrow> interned c w \<Longrightarrow> interned c' w"
  by (simp add: pool_extends_def interned_def)

lemma pool_extends_tol:
  "pool_extends (cn_pool c) (cn_pool c') \<Longrightarrow> CN_tol c' = CN_tol c"
  by (simp add: pool_extends_def CN_tol_def)

lemma cn_extends_pool: "cn_extends c c' \<Longrightarrow> pool_extends (cn_pool c) (cn_pool c')"
  by (simp add: cn_extends_def)

lemma set_val_cache:
  assumes "fst x = CacheEntry a" and "pool_ok (cn_pool c)"
  shows "pool_ok (cn_pool (set_val x v c))" and "cn_extends c (set_val x v c)"
  using assms
  unfolding pool_ok_def cn_extends_def pool_extends_def pool_owned_def set_val_def getAlignedPointer_def
  by auto

lemma set_val_same: "\<not> snd x \<Longrightarrow> entry_val (set_val x v c) x = v"
  by (simp add: set_val_def entry_val_def getAlignedPointer_def isNegativePointer_def)

lemma set_val_other: "fst y \<noteq> fst x \<Longrightarrow> entry_val (set_val x v c) y = entry_val c y"
  by (simp add: set_val_def entry_val_def getAlignedPointer_def isNegativePointer_def)


lemma CN_store_cache:
  assumes "cache_weight r" and "pool_ok (cn_pool c)"
  shows "pool_ok (cn_pool (CN_store r x y c))" and "cn_extends c (CN_store r x y c)"
    and "valueOf (CN_store r x y c) r = \<lparr>cv_r = x, cv_i = y\<rparr>"
proof -
  from assms(1) obtain a b where ab: "a \<noteq> b" "r = \<lparr>cr = (CacheEntry a, False), ci = (CacheEntry b, False)\<rparr>"
    by (auto simp: cache_weight_def)
  have 1: "pool_ok (cn_pool (set_val (cr r) x c))" "cn_extends c (set_val (cr r) x c)"
    using set_val_cache [of "cr r" a c x] ab assms(2) by simp_all
  have 2: "pool_ok (cn_pool (CN_store r x y c))" "cn_extends (set_val (cr r) x c) (CN_store r x y c)"
    using set_val_cache [of "ci r" b "set_val (cr r) x c" y] ab 1 by (simp_all add: CN_store_def)
  show "pool_ok (cn_pool (CN_store r x y c))" by (rule 2)
  show "cn_extends c (CN_store r x y c)" using 1 2 by (blast intro: cn_extends_trans)
  show "valueOf (CN_store r x y c) r = \<lparr>cv_r = x, cv_i = y\<rparr>"
    using ab by (simp add: valueOf_def CN_store_def set_val_same set_val_other)
qed

lemma CN_div_cache:
  assumes "cache_weight r" and "pool_ok (cn_pool c)" and "toComplex (valueOf c b) \<noteq> 0"
  shows "pool_ok (cn_pool (CN_div r a b c))" and "cn_extends c (CN_div r a b c)"
    and "toComplex (valueOf (CN_div r a b c) r) = toComplex (valueOf c a) / toComplex (valueOf c b)"
proof -
  show "pool_ok (cn_pool (CN_div r a b c))" "cn_extends c (CN_div r a b c)"
    using CN_store_cache [OF assms(1,2)] by (simp_all add: CN_div_def Let_def)
  show "toComplex (valueOf (CN_div r a b c) r) = toComplex (valueOf c a) / toComplex (valueOf c b)"
    using CN_store_cache(3) [OF assms(1,2)]
    by (simp add: CN_div_def Let_def toComplex_def valueOf_def complex_eq_iff Re_divide Im_divide power2_eq_square)
qed


lemma CN_lookup_ok:
  assumes "CN_lookup w0 c = (w, c')" and "pool_ok (cn_pool c)"
  shows "pool_ok (cn_pool c')" and "cn_extends c c'" and "cache_same (cn_pool c) (cn_pool c')"
    and "interned c' w" and "approx (CN_tol c) (toComplex (valueOf c' w)) (toComplex (valueOf c w0))"
  using CN_lookupV_ok [OF assms(1) [unfolded CN_lookup_def] assms(2)]
  by (simp_all add: approx_def toComplex_def valueOf_def)

lemma interned_zero:
  assumes "pool_ok (cn_pool c)" and "interned c w" and "equalsZero c w"
  shows "w = ZERO"
proof (rule ccontr)
  assume n: "w \<noteq> ZERO"
  with assms(3) have s: "\<bar>entry_val c (cr w)\<bar> < CN_tol c" "\<bar>entry_val c (ci w)\<bar> < CN_tol c"
    by (simp_all add: equalsZero_def)
  have z: "fst x = ZeroEntry" if "pool_owned (cn_pool c) (fst x)" "\<bar>entry_val c x\<bar> < CN_tol c" for x
  proof (rule ccontr)
    assume "fst x \<noteq> ZeroEntry"
    from pool_ok_val [OF assms(1) that(1) this] that(2) assms(1) show False
      by (auto simp: entry_val_def CN_tol_def getAlignedPointer_def pool_ok_def split: if_splits)
  qed
  from assms(2) s z have "fst (cr w) = ZeroEntry" "fst (ci w) = ZeroEntry" by (simp_all add: interned_def)
  with assms(2) have "cr w = (ZeroEntry, False)" "ci w = (ZeroEntry, False)"
    by (simp_all add: interned_def prod_eq_iff)
  then have "w = ZERO" by (simp add: ZERO_def)
  with n show False by simp
qed

lemma not_equalsZero_nonzero: "\<not> equalsZero c w \<Longrightarrow> 0 < CN_tol c \<Longrightarrow> toComplex (valueOf c w) \<noteq> 0"
  by (auto simp: equalsZero_def toComplex_def valueOf_def complex_eq_iff)

lemma not_equalsZero_big:
  "\<not> equalsZero c w \<Longrightarrow> CN_tol c \<le> \<bar>entry_val c (cr w)\<bar> \<or> CN_tol c \<le> \<bar>entry_val c (ci w)\<bar>"
  by (auto simp: equalsZero_def)

lemma pool_ok_tol: "pool_ok (cn_pool c) \<Longrightarrow> 0 < CN_tol c"
  by (simp add: pool_ok_def CN_tol_def)

lemma parent_noncached:
  assumes "normalizeV_parent False mx sm c1 = (rw, c2)" and "pool_ok (cn_pool c1)"
  shows "pool_ok (cn_pool c2)" and "cn_extends c1 c2" and "cache_same (cn_pool c1) (cn_pool c2)"
    and "interned c2 rw"
    and "approx (CN_tol c1) (toComplex (valueOf c2 rw)) (toComplex (valueOf c1 (ew mx)) * of_real sm)"
    and "\<not> equalsZero c1 (ew mx) \<Longrightarrow> 1 \<le> sm \<Longrightarrow> \<not> equalsZero c2 rw"
proof -
  from assms(1) have l: "CN_lookupV (entry_val c1 (cr (ew mx)) * sm) (entry_val c1 (ci (ew mx)) * sm) c1 = (rw, c2)"
    by (simp add: normalizeV_parent_def)
  note a = CN_lookupV_ok [OF l assms(2)]
  from a show "pool_ok (cn_pool c2)" "cn_extends c1 c2" "cache_same (cn_pool c1) (cn_pool c2)"
    "interned c2 rw" by simp_all
  from a show "approx (CN_tol c1) (toComplex (valueOf c2 rw)) (toComplex (valueOf c1 (ew mx)) * of_real sm)"
    by (simp add: approx_def toComplex_def valueOf_def)
  assume nz: "\<not> equalsZero c1 (ew mx)" and sm: "1 \<le> sm"
  have m: "t \<le> \<bar>x\<bar> \<Longrightarrow> t \<le> \<bar>x * sm\<bar>" for t x :: real
  proof -
    assume "t \<le> \<bar>x\<bar>"
    moreover have "\<bar>x\<bar> * 1 \<le> \<bar>x\<bar> * sm" using sm by (intro mult_left_mono) simp_all
    ultimately show ?thesis using sm by (simp add: abs_mult)
  qed
  from not_equalsZero_big [OF nz] m
  have "CN_tol c1 \<le> \<bar>entry_val c1 (cr (ew mx)) * sm\<bar> \<or> CN_tol c1 \<le> \<bar>entry_val c1 (ci (ew mx)) * sm\<bar>"
    by blast
  from CN_lookupV_big [OF l assms(2) this] show "\<not> equalsZero c2 rw" .
qed

lemma pivot_ok:
  assumes "normalizeV_pivot mx sm c2 = (mx1, c3)" and "pool_ok (cn_pool c2)"
  shows "pool_ok (cn_pool c3)" and "cn_extends c2 c3" and "cache_same (cn_pool c2) (cn_pool c3)"
    and "interned c3 (ew mx1)" and "ci (ew mx1) = (ZeroEntry, False)"
    and "\<bar>entry_val c3 (cr (ew mx1)) - 1 / sm\<bar> < CN_tol c2"
    and "ep mx1 = (if ew mx1 = ZERO then Terminal else ep mx)"
proof -
  obtain mw where l: "CN_lookupV (1 / sm) 0 c2 = (mw, c3)"
    and m: "mx1 = (if mw = ZERO then zeroEdge else mx\<lparr>ew := mw\<rparr>)"
    using assms(1) by (auto simp: normalizeV_pivot_def split: prod.splits)
  have w: "ew mx1 = mw" using m by (simp add: zeroEdge_def)
  note a = CN_lookupV_ok [OF l assms(2)]
  from a show "pool_ok (cn_pool c3)" "cn_extends c2 c3" "cache_same (cn_pool c2) (cn_pool c3)" by simp_all
  from a w show "interned c3 (ew mx1)" "\<bar>entry_val c3 (cr (ew mx1)) - 1 / sm\<bar> < CN_tol c2" by simp_all
  from CN_lookupV_real [OF l assms(2)] w show "ci (ew mx1) = (ZeroEntry, False)" by simp
  show "ep mx1 = (if ew mx1 = ZERO then Terminal else ep mx)"
    using m by (simp add: zeroEdge_def)
qed

lemma other_noncached:
  assumes "Cache_Avail c3 = t0 # t1 # rest" and "lane_ok c3" and "pool_ok (cn_pool c3)"
    and "toComplex (valueOf c3 rw) \<noteq> 0"
  shows "\<exists>mn1 c6. normalizeV_other False rw mn c3 = Inr (mn1, c6) \<and> pool_ok (cn_pool c6)
           \<and> cn_extends c3 c6 \<and> interned c6 (ew mn1)
           \<and> approx (CN_tol c3) (toComplex (valueOf c6 (ew mn1)))
                (toComplex (valueOf c3 (ew mn)) / toComplex (valueOf c3 rw))
           \<and> ep mn1 = (if ew mn1 = ZERO then Terminal else ep mn)"
proof -
  define c where "c = \<lparr>cr = (t0, False), ci = (t1, False)\<rparr>"
  from assms(1,2) have cw: "cache_weight c"
    by (auto simp: lane_ok_def cache_weight_def c_def)
  have g: "getTempCachedComplex c3 = Inr c" using assms(1) by (simp add: getTempCachedComplex_def c_def)
  define c5 where "c5 = CN_div c (ew mn) rw c3"
  note d = CN_div_cache [OF cw assms(3,4), of "ew mn", folded c5_def]
  obtain w' c6 where l: "CN_lookup c c5 = (w', c6)" by (cases "CN_lookup c c5")
  note k = CN_lookup_ok [OF l d(1)]
  have t: "CN_tol c5 = CN_tol c3" using d(2) by (rule cn_extends_tol)
  have r: "normalizeV_other False rw mn c3 = Inr (if w' = ZERO then zeroEdge else mn\<lparr>ew := w'\<rparr>, c6)"
    by (simp add: normalizeV_other_def g c5_def [symmetric] l)
  have w: "ew (if w' = ZERO then zeroEdge else mn\<lparr>ew := w'\<rparr>) = w'" by (simp add: zeroEdge_def)
  show ?thesis
    unfolding r using k d t w
    by (auto intro: cn_extends_trans simp: zeroEdge_def)
qed

lemma setEdges_NodeAt:
  "setEdges Vector (NodeAt a) es s =
     Inr (s\<lparr>vUniqueTable := (vUniqueTable s)\<lparr>ut_nodes :=
            (ut_nodes (vUniqueTable s))(a := (ut_nodes (vUniqueTable s) a)\<lparr>ne := es\<rparr>)\<rparr>\<rparr>)"
  by (simp add: setEdges_def deref_def store_def getUniqueTable_def setUniqueTable_def)

lemma two_cases: "am < 2 \<Longrightarrow> (am = 0 \<Longrightarrow> P) \<Longrightarrow> (am = Suc 0 \<Longrightarrow> P) \<Longrightarrow> P"
  by (cases am) auto

lemma rescale_noncached:
  assumes e: "ep e = NodeAt a" and len: "length es1 = 2" "length zs = 2" and am: "am < 2"
    and ok: "pool_ok (cn_pool c1)" "lane_ok c1" "Cache_Avail c1 = t0 # t1 # rest"
    and nz: "\<not> equalsZero c1 (ew (es1 ! am))" and sm: "1 \<le> sm"
    and int: "interned c1 (ew (es1 ! ((am + 1) mod 2)))"
  shows "\<exists>r s' es'. normalizeV_rescale e False s zs es1 c1 am sm = Inr (r, s')
           \<and> ep r = ep e \<and> ne (ut_nodes (vUniqueTable s') a) = es' \<and> length es' = 2
           \<and> pool_ok (cn_pool (cn s')) \<and> pool_extends (cn_pool c1) (cn_pool (cn s'))
           \<and> approx (CN_tol c1) (toComplex (valueOf (cn s') (ew r)))
                (toComplex (valueOf c1 (ew (es1 ! am))) * of_real sm)
           \<and> ci (ew (es' ! am)) = (ZeroEntry, False)
           \<and> \<bar>entry_val (cn s') (cr (ew (es' ! am))) - 1 / sm\<bar> < CN_tol c1
           \<and> (if zs ! ((am + 1) mod 2) then es' ! ((am + 1) mod 2) = es1 ! ((am + 1) mod 2)
               else interned (cn s') (ew (es' ! ((am + 1) mod 2)))
                  \<and> approx (CN_tol c1) (toComplex (valueOf (cn s') (ew (es' ! ((am + 1) mod 2)))))
                       (toComplex (valueOf c1 (ew (es1 ! ((am + 1) mod 2))))
                          / toComplex (valueOf (cn s') (ew r))))"
proof -
  define mx where "mx = es1 ! am"
  define argmin where "argmin = (am + 1) mod 2"
  have ne: "argmin \<noteq> am" "argmin < 2" using am by (auto simp: argmin_def elim: two_cases)
  obtain rw c2 where p: "normalizeV_parent False mx sm c1 = (rw, c2)"
    by (cases "normalizeV_parent False mx sm c1")
  note P = parent_noncached [OF p ok(1)]
  have nz2: "\<not> equalsZero c2 rw" using P(6) nz sm by (simp add: mx_def)
  obtain mx1 c3 where q: "normalizeV_pivot mx sm c2 = (mx1, c3)"
    by (cases "normalizeV_pivot mx sm c2")
  note Q = pivot_ok [OF q P(1)]
  have t2: "CN_tol c2 = CN_tol c1" using P(2) by (rule cn_extends_tol)
  have t3: "CN_tol c3 = CN_tol c1" using Q(2) t2 cn_extends_tol by metis
  have e13: "cn_extends c1 c3" using P(2) Q(2) by (rule cn_extends_trans)
  have lane3: "Cache_Avail c3 = t0 # t1 # rest" "lane_ok c3"
    using e13 ok by (simp_all add: cn_extends_def lane_ok_def)
  have rw3: "valueOf c3 rw = valueOf c2 rw" using Q(2) P(4) by (rule cn_extends_valueOf)
  have rnz3: "toComplex (valueOf c3 rw) \<noteq> 0"
    using not_equalsZero_nonzero [OF nz2] pool_ok_tol [OF P(1)] rw3 by simp
  define es2 where "es2 = es1[am := mx1]"
  have es2: "length es2 = 2" "es2 ! am = mx1" "es2 ! argmin = es1 ! argmin"
    using len am ne by (simp_all add: es2_def)
  have unf: "normalizeV_rescale e False s zs es1 c1 am sm =
      (if \<not> zs ! argmin then
         bind (normalizeV_other False rw (es2 ! argmin) c3) (\<lambda>(mn1, c6).
         bind (setEdges Vector (ep e) (es2[argmin := mn1]) (s\<lparr>cn := c6\<rparr>)) (\<lambda>s1.
         Inr (e\<lparr>ew := rw\<rparr>, s1)))
       else
         bind (setEdges Vector (ep e) es2 (s\<lparr>cn := c3\<rparr>)) (\<lambda>s1.
         Inr (e\<lparr>ew := rw\<rparr>, s1)))"
    using nz2 by (simp add: normalizeV_rescale_def Let_def mx_def [symmetric] p q es2_def argmin_def)
  show ?thesis
  proof (cases "zs ! argmin")
    case True
    have v: "approx (CN_tol c1) (toComplex (valueOf c3 rw)) (toComplex (valueOf c1 (ew mx)) * of_real sm)"
      using P(5) rw3 by simp
    have i3: "interned c3 rw" using Q(2) P(4) by (rule cn_extends_interned)
    show ?thesis
      unfolding unf argmin_def [symmetric] mx_def [symmetric]
      using True e es2 Q cn_extends_pool [OF e13] v i3 t2
      by (simp add: setEdges_NodeAt)
  next
    case False
    from other_noncached [OF lane3(1) lane3(2) Q(1) rnz3, of "es2 ! argmin"]
    obtain mn1 c6 where o: "normalizeV_other False rw (es2 ! argmin) c3 = Inr (mn1, c6)"
      and O: "pool_ok (cn_pool c6)" "cn_extends c3 c6" "interned c6 (ew mn1)"
        "approx (CN_tol c3) (toComplex (valueOf c6 (ew mn1)))
                (toComplex (valueOf c3 (ew (es2 ! argmin))) / toComplex (valueOf c3 rw))"
      by blast
    have e16: "cn_extends c1 c6" using e13 O(2) by (rule cn_extends_trans)
    have i3: "interned c3 rw" using Q(2) P(4) by (rule cn_extends_interned)
    have rw6: "valueOf c6 rw = valueOf c2 rw" using cn_extends_valueOf [OF O(2) i3] rw3 by simp
    have i6: "interned c6 rw" using O(2) i3 by (rule cn_extends_interned)
    have mn3: "valueOf c3 (ew (es1 ! argmin)) = valueOf c1 (ew (es1 ! argmin))"
      using cn_extends_valueOf [OF e13] int by (simp add: argmin_def)
    have pv: "entry_val c6 (cr (ew mx1)) = entry_val c3 (cr (ew mx1))"
      using cn_extends_val [OF O(2)] Q(4) by (simp add: interned_def)
    have l3: "length (es2[argmin := mn1]) = 2" "es2[argmin := mn1] ! am = mx1"
      "es2[argmin := mn1] ! argmin = mn1"
      using es2 ne by simp_all
    show ?thesis
      unfolding unf argmin_def [symmetric] mx_def [symmetric]
      using False e l3 Q O cn_extends_pool [OF e16] i6 rw6 P(5) pv mn3 t2 t3 rw3 es2(3)
      by (simp add: setEdges_NodeAt o [unfolded es2(3)])
  qed
qed

lemma cache_weight_not_special: "cache_weight w \<Longrightarrow> w \<noteq> ONE \<and> w \<noteq> ZERO"
  by (auto simp: cache_weight_def ONE_def ZERO_def)

text \<open>Writing the entries of one cached number leaves the value of any number apart from
  it as it is.\<close>

lemma CN_store_other:
  "cache_ptrs w \<inter> cache_ptrs r = {} \<Longrightarrow> valueOf (CN_store r x y c) w = valueOf c w"
  by (auto simp: valueOf_def CN_store_def set_val_other cache_ptrs_def)

lemma releaseCached_pool:
  "cn_pool (releaseCached w c) = cn_pool c" "valueOf (releaseCached w c) v = valueOf c v"
  "CN_tol (releaseCached w c) = CN_tol c"
  by (simp_all add: releaseCached_def valueOf_def entry_val_def CN_tol_def)

lemma parent_cached:
  assumes "normalizeV_parent True mx sm c1 = (rw, c2)" and "pool_ok (cn_pool c1)"
    and "cache_weight (ew mx)"
  shows "rw = ew mx" and "pool_ok (cn_pool c2)" and "cn_extends c1 c2"
    and "toComplex (valueOf c2 rw) = toComplex (valueOf c1 (ew mx)) * of_real sm"
    and "cache_ptrs w \<inter> cache_ptrs (ew mx) = {} \<Longrightarrow> valueOf c2 w = valueOf c1 w"
proof -
  from assms(3) obtain a b where ab: "a \<noteq> b" "ew mx = \<lparr>cr = (CacheEntry a, False), ci = (CacheEntry b, False)\<rparr>"
    by (auto simp: cache_weight_def)
  from assms(1) cache_weight_not_special [OF assms(3)]
  have r: "rw = ew mx" and c2: "c2 = scaleEntry (ci (ew mx)) sm (scaleEntry (cr (ew mx)) sm c1)"
    by (auto simp: normalizeV_parent_def)
  show "rw = ew mx" by (rule r)
  have 1: "pool_ok (cn_pool (scaleEntry (cr (ew mx)) sm c1))" "cn_extends c1 (scaleEntry (cr (ew mx)) sm c1)"
    using set_val_cache [of "cr (ew mx)" a c1] ab assms(2) by (simp_all add: scaleEntry_def)
  have 2: "pool_ok (cn_pool c2)" "cn_extends (scaleEntry (cr (ew mx)) sm c1) c2"
    using set_val_cache [of "ci (ew mx)" b "scaleEntry (cr (ew mx)) sm c1"] ab 1 c2
    by (simp_all add: scaleEntry_def)
  show "pool_ok (cn_pool c2)" by (rule 2)
  show "cn_extends c1 c2" using 1 2 by (blast intro: cn_extends_trans)
  show "toComplex (valueOf c2 rw) = toComplex (valueOf c1 (ew mx)) * of_real sm"
    using ab unfolding r c2
    by (simp add: toComplex_def valueOf_def scaleEntry_def set_val_def entry_val_def
        getAlignedPointer_def isNegativePointer_def complex_eq_iff)
  show "valueOf c2 w = valueOf c1 w" if "cache_ptrs w \<inter> cache_ptrs (ew mx) = {}"
    using that unfolding c2
    by (auto simp: valueOf_def scaleEntry_def set_val_other cache_ptrs_def)
qed

lemma other_cached:
  assumes "cache_weight (ew mn)" and "pool_ok (cn_pool c3)"
    and "toComplex (valueOf c3 rw) \<noteq> 0" and "cache_ptrs rw \<inter> cache_ptrs (ew mn) = {}"
    and "cache_weight rw"
  shows "\<exists>mn1 c6. normalizeV_other True rw mn c3 = Inr (mn1, c6) \<and> pool_ok (cn_pool c6)
           \<and> pool_extends (cn_pool c3) (cn_pool c6) \<and> interned c6 (ew mn1)
           \<and> valueOf c6 rw = valueOf c3 rw
           \<and> approx (CN_tol c3) (toComplex (valueOf c6 (ew mn1)))
                (toComplex (valueOf c3 (ew mn)) / toComplex (valueOf c3 rw))
           \<and> ep mn1 = (if ew mn1 = ZERO then Terminal else ep mn)"
proof -
  define c4 where "c4 = releaseCached (ew mn) c3"
  have p4: "pool_ok (cn_pool c4)" "toComplex (valueOf c4 rw) \<noteq> 0"
    using assms(2,3) by (simp_all add: c4_def releaseCached_pool)
  define c5 where "c5 = CN_div (ew mn) (ew mn) rw c4"
  note d = CN_div_cache [OF assms(1) p4, of "ew mn", folded c5_def]
  have rw5: "valueOf c5 rw = valueOf c3 rw"
    using CN_store_other [OF assms(4)] by (simp add: c5_def CN_div_def Let_def c4_def releaseCached_pool)
  obtain w' c6 where l: "CN_lookup (ew mn) c5 = (w', c6)" by (cases "CN_lookup (ew mn) c5")
  note k = CN_lookup_ok [OF l d(1)]
  have t: "CN_tol c5 = CN_tol c3" using d(2) cn_extends_tol [of c4 c5] by (simp add: c4_def releaseCached_pool)
  have r: "normalizeV_other True rw mn c3 = Inr (if w' = ZERO then zeroEdge else mn\<lparr>ew := w'\<rparr>, c6)"
    by (simp add: normalizeV_other_def c4_def [symmetric] c5_def [symmetric] l Let_def)
  have w: "ew (if w' = ZERO then zeroEdge else mn\<lparr>ew := w'\<rparr>) = w'" by (simp add: zeroEdge_def)
  have pe: "pool_extends (cn_pool c3) (cn_pool c6)"
    using cn_extends_pool [OF d(2)] cn_extends_pool [OF k(2)]
    by (auto intro: pool_extends_trans simp: c4_def releaseCached_pool)
  from assms(5) obtain a b where "fst (cr rw) = CacheEntry a" "fst (ci rw) = CacheEntry b"
    by (auto simp: cache_weight_def)
  then have rw6: "valueOf c6 rw = valueOf c5 rw"
    using k(3) by (simp add: valueOf_def cache_same_val)
  show ?thesis
    unfolding r using k d t w pe rw5 rw6 c4_def
    by (auto simp: zeroEdge_def releaseCached_pool)
qed

lemma rescale_cached:
  assumes e: "ep e = NodeAt a" and len: "length es1 = 2" "length zs = 2" and am: "am < 2"
    and ok: "pool_ok (cn_pool c1)"
    and nz: "\<not> equalsZero c1 (ew (es1 ! am))" and sm: "1 \<le> sm"
    and cw: "cache_weight (ew (es1 ! am))"
    and oth: "\<not> zs ! ((am + 1) mod 2) \<longrightarrow> cache_weight (ew (es1 ! ((am + 1) mod 2)))
                \<and> cache_ptrs (ew (es1 ! am)) \<inter> cache_ptrs (ew (es1 ! ((am + 1) mod 2))) = {}"
  shows "\<exists>r s' es'. normalizeV_rescale e True s zs es1 c1 am sm = Inr (r, s')
           \<and> ep r = ep e \<and> ne (ut_nodes (vUniqueTable s') a) = es' \<and> length es' = 2
           \<and> pool_ok (cn_pool (cn s')) \<and> pool_extends (cn_pool c1) (cn_pool (cn s'))
           \<and> approx (CN_tol c1) (toComplex (valueOf (cn s') (ew r)))
                (toComplex (valueOf c1 (ew (es1 ! am))) * of_real sm)
           \<and> ci (ew (es' ! am)) = (ZeroEntry, False)
           \<and> \<bar>entry_val (cn s') (cr (ew (es' ! am))) - 1 / sm\<bar> < CN_tol c1
           \<and> (if zs ! ((am + 1) mod 2) then es' ! ((am + 1) mod 2) = es1 ! ((am + 1) mod 2)
               else interned (cn s') (ew (es' ! ((am + 1) mod 2)))
                  \<and> approx (CN_tol c1) (toComplex (valueOf (cn s') (ew (es' ! ((am + 1) mod 2)))))
                       (toComplex (valueOf c1 (ew (es1 ! ((am + 1) mod 2))))
                          / toComplex (valueOf (cn s') (ew r))))"
proof -
  define mx where "mx = es1 ! am"
  define argmin where "argmin = (am + 1) mod 2"
  have ne: "argmin \<noteq> am" "argmin < 2" using am by (auto simp: argmin_def elim: two_cases)
  have cwm: "cache_weight (ew mx)" using cw by (simp add: mx_def)
  obtain rw c2 where p: "normalizeV_parent True mx sm c1 = (rw, c2)"
    by (cases "normalizeV_parent True mx sm c1")
  note P = parent_cached [OF p ok cwm]
  have tol: "0 < CN_tol c1" using ok by (rule pool_ok_tol)
  have v2: "toComplex (valueOf c2 rw) \<noteq> 0"
    using not_equalsZero_nonzero [OF nz tol] sm unfolding P(4) by (simp add: mx_def)
  obtain mx1 c3 where q: "normalizeV_pivot mx sm c2 = (mx1, c3)"
    by (cases "normalizeV_pivot mx sm c2")
  note Q = pivot_ok [OF q P(2)]
  have t2: "CN_tol c2 = CN_tol c1" using P(3) by (rule cn_extends_tol)
  have t3: "CN_tol c3 = CN_tol c1" using Q(2) t2 cn_extends_tol by metis
  have e13: "cn_extends c1 c3" using P(3) Q(2) by (rule cn_extends_trans)
  from cwm obtain ka kb where k: "fst (cr (ew mx)) = CacheEntry ka" "fst (ci (ew mx)) = CacheEntry kb"
    by (auto simp: cache_weight_def)
  have rw3: "valueOf c3 rw = valueOf c2 rw"
    using k Q(3) by (simp add: valueOf_def cache_same_val P(1))
  have rnz3: "toComplex (valueOf c3 rw) \<noteq> 0" using v2 rw3 by simp
  have ap3: "approx (CN_tol c1) (toComplex (valueOf c3 rw)) (toComplex (valueOf c1 (ew mx)) * of_real sm)"
    using P(4) rw3 tol by (simp add: approx_def)
  define es2 where "es2 = es1[am := mx1]"
  have es2: "length es2 = 2" "es2 ! am = mx1" "es2 ! argmin = es1 ! argmin"
    using len am ne by (simp_all add: es2_def)
  have unf: "normalizeV_rescale e True s zs es1 c1 am sm =
      (if \<not> zs ! argmin then
         bind (normalizeV_other True rw (es2 ! argmin) c3) (\<lambda>(mn1, c6).
         bind (setEdges Vector (ep e) (es2[argmin := mn1]) (s\<lparr>cn := c6\<rparr>)) (\<lambda>s1.
         Inr (e\<lparr>ew := rw\<rparr>, s1)))
       else
         bind (setEdges Vector (ep e) es2 (s\<lparr>cn := c3\<rparr>)) (\<lambda>s1.
         Inr (e\<lparr>ew := rw\<rparr>, s1)))"
    using cache_weight_not_special [OF cwm]
    by (simp add: normalizeV_rescale_def Let_def mx_def [symmetric] p q es2_def argmin_def)
  show ?thesis
  proof (cases "zs ! argmin")
    case True
    show ?thesis
      unfolding unf argmin_def [symmetric] mx_def [symmetric]
      using True e es2 Q cn_extends_pool [OF e13] ap3 t2
      by (simp add: setEdges_NodeAt)
  next
    case False
    with oth have cmn: "cache_weight (ew (es1 ! argmin))"
      and dj: "cache_ptrs rw \<inter> cache_ptrs (ew (es1 ! argmin)) = {}"
      by (simp_all add: argmin_def mx_def P(1))
    from other_cached [OF cmn Q(1) rnz3 dj cwm [folded P(1)]]
    obtain mn1 c6 where o: "normalizeV_other True rw (es1 ! argmin) c3 = Inr (mn1, c6)"
      and O: "pool_ok (cn_pool c6)" "pool_extends (cn_pool c3) (cn_pool c6)" "interned c6 (ew mn1)"
        "valueOf c6 rw = valueOf c3 rw"
        "approx (CN_tol c3) (toComplex (valueOf c6 (ew mn1)))
                (toComplex (valueOf c3 (ew (es1 ! argmin))) / toComplex (valueOf c3 rw))"
      by blast
    have e16: "pool_extends (cn_pool c1) (cn_pool c6)"
      using cn_extends_pool [OF e13] O(2) by (rule pool_extends_trans)
    from cmn obtain ja jb where j: "fst (cr (ew (es1 ! argmin))) = CacheEntry ja"
      "fst (ci (ew (es1 ! argmin))) = CacheEntry jb"
      by (auto simp: cache_weight_def)
    have mn2: "valueOf c2 (ew (es1 ! argmin)) = valueOf c1 (ew (es1 ! argmin))"
      using P(5) [of "ew (es1 ! argmin)"] dj by (simp add: P(1) Int_commute)
    have mn3: "valueOf c3 (ew (es1 ! argmin)) = valueOf c1 (ew (es1 ! argmin))"
      using j Q(3) mn2 by (simp add: valueOf_def cache_same_val)
    have pv: "entry_val c6 (cr (ew mx1)) = entry_val c3 (cr (ew mx1))"
      using pool_extends_val [OF O(2)] Q(4) by (simp add: interned_def)
    have l3: "length (es2[argmin := mn1]) = 2" "es2[argmin := mn1] ! am = mx1"
      "es2[argmin := mn1] ! argmin = mn1"
      using es2 ne by simp_all
    show ?thesis
      unfolding unf argmin_def [symmetric] mx_def [symmetric]
      using False e l3 Q O e16 ap3 pv mn3 t2 t3 es2(3)
      by (simp add: setEdges_NodeAt o)
  qed
qed

lemma snapZeroEdges_spec:
  "length zs = length es \<Longrightarrow> snapZeroEdges zs es c = (es', c') \<Longrightarrow>
     length es' = length es \<and> cn_pool c' = cn_pool c
     \<and> (\<forall>i < length es. es' ! i = (if zs ! i \<and> ew (es ! i) \<noteq> ZERO then zeroEdge else es ! i))
     \<and> ((\<forall>i < length es. zs ! i \<longrightarrow> ew (es ! i) = ZERO) \<longrightarrow> c' = c)"
proof (induction zs es c arbitrary: es' c' rule: snapZeroEdges.induct)
  case (1 z zs e es c)
  show ?case
  proof (cases "z \<and> ew e \<noteq> ZERO")
    case True
    obtain es2 c2 where r: "snapZeroEdges zs es (releaseCached (ew e) c) = (es2, c2)"
      by (cases "snapZeroEdges zs es (releaseCached (ew e) c)")
    with True "1.prems" have e': "es' = zeroEdge # es2" "c' = c2" by simp_all
    from "1.IH"(1) [OF True _ r] "1.prems"(1)
    have ih: "length es2 = length es" "cn_pool c2 = cn_pool c"
      "\<forall>i < length es. es2 ! i = (if zs ! i \<and> ew (es ! i) \<noteq> ZERO then zeroEdge else es ! i)"
      by (simp_all add: releaseCached_pool)
    show ?thesis
      unfolding e' using ih True
      by (auto simp: nth_Cons split: nat.splits)
  next
    case False
    obtain es2 c2 where r: "snapZeroEdges zs es c = (es2, c2)"
      by (cases "snapZeroEdges zs es c")
    with False "1.prems" have e': "es' = e # es2" "c' = c2" by auto
    from "1.IH"(2) [OF False _ r] "1.prems"(1)
    have ih: "length es2 = length es" "cn_pool c2 = cn_pool c"
      "\<forall>i < length es. es2 ! i = (if zs ! i \<and> ew (es ! i) \<noteq> ZERO then zeroEdge else es ! i)"
      "(\<forall>i < length es. zs ! i \<longrightarrow> ew (es ! i) = ZERO) \<longrightarrow> c2 = c"
      by simp_all
    show ?thesis
      unfolding e' using ih False
      by (auto simp: nth_Cons split: nat.splits)
  qed
qed simp_all

lemma mag2_pool: "cn_pool c' = cn_pool c \<Longrightarrow> mag2 c' w = mag2 c w"
  by (simp add: mag2_def entry_val_def)

lemma same_pool_vals:
  assumes "cn_pool c' = cn_pool c"
  shows "valueOf c' w = valueOf c w" "equalsZero c' w = equalsZero c w" "CN_tol c' = CN_tol c"
    "interned c' w = interned c w"
  using assms by (simp_all add: valueOf_def entry_val_def equalsZero_def CN_tol_def interned_def)

lemma mag2_pos: "\<not> equalsZero c w \<Longrightarrow> 0 < CN_tol c \<Longrightarrow> 0 < mag2 c w"
proof -
  assume a: "\<not> equalsZero c w" "0 < CN_tol c"
  then have "entry_val c (cr w) \<noteq> 0 \<or> entry_val c (ci w) \<noteq> 0"
    by (auto simp: equalsZero_def)
  then show ?thesis
    unfolding mag2_def by (auto simp: sum_squares_gt_zero_iff [unfolded power2_eq_square])
qed

lemma mag2_nonneg: "0 \<le> mag2 c w"
  by (simp add: mag2_def)

lemma vnorm_factor_ge1:
  assumes "\<not> equalsZero c (ew p)" and "0 < CN_tol c"
  shows "1 \<le> vnorm_factor c p q"
proof -
  have d: "0 < mag2 c (ew p)" using assms by (rule mag2_pos)
  have "1 \<le> (mag2 c (ew p) + (if equalsZero c (ew q) then 0 else mag2 c (ew q))) / mag2 c (ew p)"
    using d mag2_nonneg [of c "ew q"] by (simp add: le_divide_eq)
  then show ?thesis unfolding vnorm_factor_def by simp
qed

lemma list2: "length xs = 2 \<Longrightarrow> xs = [xs ! 0, xs ! 1]"
  by (cases xs; cases "tl xs") auto

lemma interned_ZERO: "interned c ZERO"
  by (simp add: interned_def ZERO_def pool_owned_def)

lemma normalizeV_ok:
  assumes e: "ep e = NodeAt a" and n: "ne (ut_nodes (vUniqueTable s) a) = [e0, e1]"
    and nn: "ep e0 \<noteq> Null" "ep e1 \<noteq> Null"
    and ok: "pool_ok (cn_pool (cn s))" and rd: "weights_ready cached (cn s) [e0, e1]"
    and am: "am = (if equalsZero (cn s) (ew e0) then 1 else 0)"
    and nz: "\<not> equalsZero (cn s) (ew ([e0, e1] ! am))"
  shows "\<exists>r s' es'. normalizeV e cached s = Inr (r, s')
           \<and> ep r = ep e \<and> ne (ut_nodes (vUniqueTable s') a) = es' \<and> length es' = 2
           \<and> pool_ok (cn_pool (cn s')) \<and> pool_extends (cn_pool (cn s)) (cn_pool (cn s'))
           \<and> 1 \<le> vnorm_factor (cn s) ([e0, e1] ! am) ([e0, e1] ! (1 - am))
           \<and> approx (CN_tol (cn s)) (toComplex (valueOf (cn s') (ew r)))
                (toComplex (valueOf (cn s) (ew ([e0, e1] ! am)))
                   * of_real (vnorm_factor (cn s) ([e0, e1] ! am) ([e0, e1] ! (1 - am))))
           \<and> ci (ew (es' ! am)) = (ZeroEntry, False)
           \<and> \<bar>entry_val (cn s') (cr (ew (es' ! am)))
                 - 1 / vnorm_factor (cn s) ([e0, e1] ! am) ([e0, e1] ! (1 - am))\<bar> < CN_tol (cn s)
           \<and> (if equalsZero (cn s) (ew ([e0, e1] ! (1 - am))) then ew (es' ! (1 - am)) = ZERO
               else approx (CN_tol (cn s)) (toComplex (valueOf (cn s') (ew (es' ! (1 - am)))))
                       (toComplex (valueOf (cn s) (ew ([e0, e1] ! (1 - am))))
                          / toComplex (valueOf (cn s') (ew r))))"
proof -
  define zs where "zs = [equalsZero (cn s) (ew e0), equalsZero (cn s) (ew e1)]"
  define es where "es = [e0, e1]"
  define q where "q = (am + 1) mod 2"
  have am2: "am < 2" "q < 2" "q \<noteq> am" "q = 1 - am" using am by (auto simp: q_def)
  have zam: "\<not> zs ! am" using nz am by (auto simp: zs_def)
  obtain es1 c1 where sn: "snapZeroEdges zs es (cn s) = (es1, c1)"
    by (cases "snapZeroEdges zs es (cn s)")
  have lz: "length zs = length es" by (simp add: zs_def es_def)
  note S = snapZeroEdges_spec [OF lz sn]
  have l1: "length es1 = 2" and pc: "cn_pool c1 = cn_pool (cn s)" using S by (simp_all add: es_def)
  have e1i: "es1 ! i = (if zs ! i \<and> ew (es ! i) \<noteq> ZERO then zeroEdge else es ! i)" if "i < 2" for i
    using S that by (simp add: es_def)
  have eam: "es1 ! am = es ! am" using e1i [OF am2(1)] zam by simp
  have eq: "\<not> zs ! q \<Longrightarrow> es1 ! q = es ! q" using e1i [OF am2(2)] by simp
  have zq: "zs ! q \<Longrightarrow> ew (es1 ! q) = ZERO" using e1i [OF am2(2)] by (simp add: zeroEdge_def)
  have zsq: "zs ! q = equalsZero (cn s) (ew (es ! q))" using am2 by (auto simp: zs_def es_def q_def am)
  have nn1: "ep (es1 ! i) \<noteq> Null" if "i < 2" for i
    using e1i [OF that] nn that by (auto simp: es_def zeroEdge_def less_2_cases_iff)
  have tol: "0 < CN_tol (cn s)" using ok by (rule pool_ok_tol)
  have ok1: "pool_ok (cn_pool c1)" using ok pc by simp
  note V = same_pool_vals [OF pc] mag2_pool [OF pc]
  define sm where "sm = vnorm_factor (cn s) (es ! am) (es ! q)"
  have sm1: "1 \<le> sm" unfolding sm_def using nz tol by (intro vnorm_factor_ge1) (simp_all add: es_def)
  have dpos: "0 < mag2 (cn s) (ew (es ! am))" using nz tol by (intro mag2_pos) (simp_all add: es_def)
  have sc: "scanV c1 zs es1 0 (None, 0, 0) = (Some am, ssum, dv) \<and> sqrt (ssum / dv) = sm"
    if "ssum = mag2 (cn s) (ew (es ! am)) + (if zs ! q then 0 else mag2 (cn s) (ew (es ! q)))"
      "dv = mag2 (cn s) (ew (es ! am))" for ssum dv
  proof (cases "equalsZero (cn s) (ew e0)")
    case True
    then have a1: "am = 1" "q = 0" using am by (simp_all add: q_def)
    have z: "zs ! 0" "\<not> zs ! 1" using True zam a1 by (simp_all add: zs_def)
    have "scanV c1 zs es1 0 (None, 0, 0) = (Some 1, mag2 c1 (ew (es1 ! 1)), mag2 c1 (ew (es1 ! 1)))"
      using z nn1 [of 0] nn1 [of 1] by (subst list2 [OF l1], subst (1) list2 [of zs]) (simp_all add: zs_def)
    moreover have "mag2 c1 (ew (es1 ! 1)) = mag2 (cn s) (ew (es ! am))" using eam a1 V by simp
    ultimately show ?thesis
      using that z a1 dpos zsq True by (simp add: sm_def vnorm_factor_def es_def)
  next
    case False
    then have a0: "am = 0" "q = 1" using am by (simp_all add: q_def)
    have z: "\<not> zs ! 0" using False by (simp add: zs_def)
    have "scanV c1 zs es1 0 (None, 0, 0) =
        (Some 0, mag2 c1 (ew (es1 ! 0)) + (if zs ! 1 then 0 else mag2 c1 (ew (es1 ! 1))), mag2 c1 (ew (es1 ! 0)))"
      using z nn1 [of 0] nn1 [of 1] by (subst list2 [OF l1], subst (1) list2 [of zs]) (simp_all add: zs_def)
    moreover have "mag2 c1 (ew (es1 ! 0)) = mag2 (cn s) (ew (es ! am))" using eam a0 V by simp
    moreover have "\<not> zs ! 1 \<Longrightarrow> mag2 c1 (ew (es1 ! 1)) = mag2 (cn s) (ew (es ! q))"
      using eq a0 V by simp
    ultimately show ?thesis
      using that a0 zsq by (auto simp: sm_def vnorm_factor_def es_def)
  qed
  have unf: "normalizeV e cached s = normalizeV_rescale e cached s zs es1 c1 am sm"
    using sc [OF refl refl] e n sn unfolding zs_def es_def
    by (simp add: normalizeV_def deref_def)
  have nz1: "\<not> equalsZero c1 (ew (es1 ! am))" using nz eam V by (simp add: es_def)
  have lzs: "length zs = 2" by (simp add: zs_def)
  let ?G = "\<lambda>r s' es'. ep r = ep e \<and> ne (ut_nodes (vUniqueTable s') a) = es' \<and> length es' = 2
           \<and> pool_ok (cn_pool (cn s')) \<and> pool_extends (cn_pool c1) (cn_pool (cn s'))
           \<and> approx (CN_tol c1) (toComplex (valueOf (cn s') (ew r)))
                (toComplex (valueOf c1 (ew (es1 ! am))) * of_real sm)
           \<and> ci (ew (es' ! am)) = (ZeroEntry, False)
           \<and> \<bar>entry_val (cn s') (cr (ew (es' ! am))) - 1 / sm\<bar> < CN_tol c1
           \<and> (if zs ! ((am + 1) mod 2) then es' ! ((am + 1) mod 2) = es1 ! ((am + 1) mod 2)
               else interned (cn s') (ew (es' ! ((am + 1) mod 2)))
                  \<and> approx (CN_tol c1) (toComplex (valueOf (cn s') (ew (es' ! ((am + 1) mod 2)))))
                       (toComplex (valueOf c1 (ew (es1 ! ((am + 1) mod 2))))
                          / toComplex (valueOf (cn s') (ew r))))"
  have "\<exists>r s' es'. normalizeV_rescale e cached s zs es1 c1 am sm = Inr (r, s') \<and> ?G r s' es'"
  proof (cases cached)
    case True
    from rd True have cwa: "\<forall>x \<in> set es. ew x = ZERO \<or> cache_weight (ew x)"
      and dj: "\<forall>i < 2. \<forall>j < 2. i \<noteq> j \<longrightarrow> cache_weight (ew (es ! i)) \<longrightarrow>
               cache_ptrs (ew (es ! i)) \<inter> cache_ptrs (ew (es ! j)) = {}"
      by (simp_all add: weights_ready_def es_def)
    have inz: "\<not> equalsZero (cn s) (ew x) \<Longrightarrow> x \<in> set es \<Longrightarrow> cache_weight (ew x)" for x
      using cwa by (auto simp: equalsZero_def)
    have ams: "es ! am \<in> set es" "es ! q \<in> set es" using am2 by (auto simp: es_def less_2_cases_iff)
    have cw: "cache_weight (ew (es1 ! am))" using inz [OF _ ams(1)] nz eam by (simp add: es_def)
    have oth: "\<not> zs ! ((am + 1) mod 2) \<longrightarrow> cache_weight (ew (es1 ! ((am + 1) mod 2)))
                \<and> cache_ptrs (ew (es1 ! am)) \<inter> cache_ptrs (ew (es1 ! ((am + 1) mod 2))) = {}"
    proof
      assume "\<not> zs ! ((am + 1) mod 2)"
      then have z: "\<not> zs ! q" by (simp add: q_def)
      then have "cache_weight (ew (es ! q))" using inz [OF _ ams(2)] zsq by simp
      moreover have "cache_ptrs (ew (es ! am)) \<inter> cache_ptrs (ew (es ! q)) = {}"
        using dj am2 cw eam by auto
      ultimately show "cache_weight (ew (es1 ! ((am + 1) mod 2)))
                \<and> cache_ptrs (ew (es1 ! am)) \<inter> cache_ptrs (ew (es1 ! ((am + 1) mod 2))) = {}"
        using eq [OF z] eam by (simp add: q_def)
    qed
    from rescale_cached [OF e l1 lzs am2(1) ok1 nz1 sm1 cw oth, of s] True show ?thesis by simp
  next
    case False
    from rd False have int: "\<forall>x \<in> set es. interned (cn s) (ew x)" and lane: "lane_ok (cn s)"
      and len: "2 \<le> length (Cache_Avail (cn s))"
      by (simp_all add: weights_ready_def es_def)
    have "\<forall>i < length es. zs ! i \<longrightarrow> ew (es ! i) = ZERO"
      using int interned_zero [OF ok] by (auto simp: es_def zs_def less_Suc_eq)
    with S have c1: "c1 = cn s" by simp
    from len obtain t0 t1 rest where ca: "Cache_Avail c1 = t0 # t1 # rest"
      unfolding c1 by (cases "Cache_Avail (cn s)"; cases "tl (Cache_Avail (cn s))") auto
    have i1: "interned c1 (ew (es1 ! ((am + 1) mod 2)))"
    proof (cases "zs ! q")
      case True
      with zq show ?thesis by (simp add: q_def interned_ZERO)
    next
      case False
      with eq int am2 show ?thesis by (auto simp: q_def c1 es_def less_2_cases_iff)
    qed
    from rescale_noncached [OF e l1 lzs am2(1) ok1 lane [folded c1] ca nz1 sm1 i1, of s] False
    show ?thesis by simp
  qed
  then obtain r s' es' where R: "normalizeV e cached s = Inr (r, s')" and G: "?G r s' es'"
    unfolding unf by blast
  have zfin: "ew (es' ! (1 - am)) = ZERO" if "equalsZero (cn s) (ew ([e0, e1] ! (1 - am)))"
    using that G zsq zq am2 by (simp add: es_def q_def)
  have afin: "approx (CN_tol (cn s)) (toComplex (valueOf (cn s') (ew (es' ! (1 - am)))))
                       (toComplex (valueOf (cn s) (ew ([e0, e1] ! (1 - am))))
                          / toComplex (valueOf (cn s') (ew r)))"
    if "\<not> equalsZero (cn s) (ew ([e0, e1] ! (1 - am)))"
  proof -
    from that have z: "\<not> zs ! q" using zsq am2 by (simp add: es_def)
    with G eq [OF z] V am2 show ?thesis by (simp add: q_def es_def)
  qed
  show ?thesis
    apply (rule exI [of _ r], rule exI [of _ s'], rule exI [of _ es'])
    using R G sm1 eam V zfin afin pc am2(4)
    by (simp add: sm_def es_def)
qed

lemma pool_ok_init: "pool_ok ComplexTable_init"
  unfolding ComplexTable_init_eq pool_ok_def pool_owned_def
  using sqrt_bounds by (auto simp: ComplexTable_fresh_def split: if_splits)

lemma pool_ok_half: "pool_ok half_pool"
  by (simp add: half_pool_def pool_ok_init)

lemma half_pool_alloc: "ctab_chunkIt half_pool = 2" "ctab_available half_pool = []"
  unfolding half_pool_def ComplexTable_init_eq by (simp_all add: ComplexTable_fresh_def)

lemma vnode_cn: "cn vnode_state = cn half_state" "cn_pool (cn half_state) = half_pool"
  by (simp_all add: vnode_state_def half_state_def)

lemma lane_ok_init: "lane_ok (cn half_state)"
  by (simp add: lane_ok_def half_state_def ComplexNumbers_init_def distinct_map inj_on_def image_iff
      del: upt_rec_numeral)

lemma vnode_ready: "weights_ready False (cn vnode_state) [oneEdge, half_edge]"
  unfolding weights_ready_def vnode_cn
  using lane_ok_init example_Cache_Avail
  by (simp add: interned_def vnode_cn pool_owned_def oneEdge_def ONE_def half_edge_def half_pool_alloc
      del: upt_rec_numeral)

lemma vnode_vals:
  "valueOf (cn vnode_state) (ew oneEdge) = \<lparr>cv_r = 1, cv_i = 0\<rparr>"
  "valueOf (cn vnode_state) (ew half_edge) = \<lparr>cv_r = 1 / 2, cv_i = 0\<rparr>"
  "mag2 (cn vnode_state) (ew oneEdge) = 1" "mag2 (cn vnode_state) (ew half_edge) = 1 / 4"
  "CN_tol (cn vnode_state) = 1 / 10 ^ 13"
  "\<not> equalsZero (cn vnode_state) (ew oneEdge)" "\<not> equalsZero (cn vnode_state) (ew half_edge)"
proof -
  have h: "entry_val (cn vnode_state) (cr (ew half_edge)) = 1 / 2"
    "entry_val (cn vnode_state) (ci (ew half_edge)) = 0"
    using half_edge_vals by (simp_all add: vnode_cn)
  have o: "entry_val (cn vnode_state) (cr ONE) = 1" "entry_val (cn vnode_state) (ci ONE) = 0"
    by (simp_all add: vnode_cn ONE_def entry_val_def getAlignedPointer_def isNegativePointer_def
        half_pool_fields half_pool_one)
  show "valueOf (cn vnode_state) (ew oneEdge) = \<lparr>cv_r = 1, cv_i = 0\<rparr>"
    "valueOf (cn vnode_state) (ew half_edge) = \<lparr>cv_r = 1 / 2, cv_i = 0\<rparr>"
    "mag2 (cn vnode_state) (ew oneEdge) = 1" "mag2 (cn vnode_state) (ew half_edge) = 1 / 4"
    by (simp_all add: valueOf_def mag2_def oneEdge_def h o)
  show t: "CN_tol (cn vnode_state) = 1 / 10 ^ 13" by (simp add: CN_tol_def vnode_cn half_pool_fields)
  show "\<not> equalsZero (cn vnode_state) (ew oneEdge)"
    by (simp add: equalsZero_def oneEdge_def o t) (simp add: ONE_def ZERO_def)
  show "\<not> equalsZero (cn vnode_state) (ew half_edge)"
    using half_edge_nonzero by (simp add: vnode_cn)
qed

lemma vnode_factor: "vnorm_factor (cn vnode_state) oneEdge half_edge = sqrt (5 / 4)"
  by (simp add: vnorm_factor_def vnode_vals)

lemma sqrt_5_4: "10 / 9 \<le> sqrt (5 / 4)"
  by (rule real_le_rsqrt) (simp add: power2_eq_square)

lemma vnode_run:
  "\<exists>r s' es'. normalizeV vnode_edge False vnode_state = Inr (r, s')
      \<and> ne (ut_nodes (vUniqueTable s') 0) = es' \<and> length es' = 2
      \<and> pool_ok (cn_pool (cn s'))
      \<and> approx (1 / 10 ^ 13) (toComplex (valueOf (cn s') (ew r))) (of_real (sqrt (5 / 4)))
      \<and> \<bar>entry_val (cn s') (cr (ew (es' ! 0))) - 1 / sqrt (5 / 4)\<bar> < 1 / 10 ^ 13
      \<and> approx (1 / 10 ^ 13) (toComplex (valueOf (cn s') (ew (es' ! 1))))
           (Complex (1 / 2) 0 / toComplex (valueOf (cn s') (ew r)))"
proof -
  have e: "ep vnode_edge = NodeAt 0" by (simp add: vnode_edge_def)
  have n: "ne (ut_nodes (vUniqueTable vnode_state) 0) = [oneEdge, half_edge]"
    by (simp add: vnode_state_def)
  have nn: "ep oneEdge \<noteq> Null" "ep half_edge \<noteq> Null" by (simp_all add: oneEdge_def half_edge_def)
  have ok: "pool_ok (cn_pool (cn vnode_state))" using pool_ok_half by (simp add: vnode_cn)
  have am: "0 = (if equalsZero (cn vnode_state) (ew oneEdge) then 1 else (0::nat))"
    using vnode_vals by simp
  have nz: "\<not> equalsZero (cn vnode_state) (ew ([oneEdge, half_edge] ! 0))" using vnode_vals by simp
  have c1: "Complex 1 0 = 1" by (simp add: complex_eq_iff)
  from normalizeV_ok [OF e n nn ok vnode_ready am nz]
  show ?thesis
    by (simp add: vnode_vals vnode_factor toComplex_def c1) blast
qed

lemma one_value:
  "pool_ok (cn_pool c) \<Longrightarrow> entry_val c (cr ONE) = 1 \<and> entry_val c (ci ONE) = 0"
  by (simp add: pool_ok_def ONE_def entry_val_def getAlignedPointer_def isNegativePointer_def)

text \<open>
A node with the weights 1 and 1/2: after the normalization the weight of the pivot is
  below 19/20, and neither edge of the node has the weight \<open>ONE\<close>.
\<close>

lemma vnode_pivot_not_one:
  "\<exists>r s' f0 f1. normalizeV vnode_edge False vnode_state = Inr (r, s')
      \<and> ne (ut_nodes (vUniqueTable s') 0) = [f0, f1]
      \<and> entry_val (cn s') (cr (ew f0)) < 19 / 20 \<and> ew f0 \<noteq> ONE \<and> ew f1 \<noteq> ONE"
proof -
  from vnode_run obtain r s' es' where
    R: "normalizeV vnode_edge False vnode_state = Inr (r, s')"
      "ne (ut_nodes (vUniqueTable s') 0) = es'" "length es' = 2"
    and ok: "pool_ok (cn_pool (cn s'))"
    and rho: "approx (1 / 10 ^ 13) (toComplex (valueOf (cn s') (ew r))) (of_real (sqrt (5 / 4)))"
    and pv: "\<bar>entry_val (cn s') (cr (ew (es' ! 0))) - 1 / sqrt (5 / 4)\<bar> < 1 / 10 ^ 13"
    and ot: "approx (1 / 10 ^ 13) (toComplex (valueOf (cn s') (ew (es' ! 1))))
           (Complex (1 / 2) 0 / toComplex (valueOf (cn s') (ew r)))"
    by blast
  have es: "es' = [es' ! 0, es' ! 1]" using R(3) by (rule list2)
  have inv: "1 / sqrt (5 / 4) \<le> 9 / 10"
    using sqrt_5_4 by (simp add: field_simps)
  have tl: "(1::real) / 10 ^ 13 \<le> 1 / 20" by simp
  from pv inv tl have v0: "entry_val (cn s') (cr (ew (es' ! 0))) < 19 / 20" by linarith
  have n0: "ew (es' ! 0) \<noteq> ONE" using v0 one_value [OF ok] by auto
  define a where "a = Re (toComplex (valueOf (cn s') (ew r)))"
  define b where "b = Im (toComplex (valueOf (cn s') (ew r)))"
  from rho have "\<bar>a - sqrt (5 / 4)\<bar> < 1 / 10 ^ 13" by (simp add: approx_def a_def)
  with sqrt_5_4 tl have a1: "1 \<le> a" by linarith
  have q: "Re (Complex (1 / 2) 0 / toComplex (valueOf (cn s') (ew r))) = (a / 2) / (a\<^sup>2 + b\<^sup>2)"
    by (simp add: Re_divide a_def b_def)
  have "a \<le> a\<^sup>2" using a1 by (simp add: power2_eq_square)
  then have "a \<le> a\<^sup>2 + b\<^sup>2" by (simp add: add_increasing2)
  moreover have "0 < a\<^sup>2 + b\<^sup>2" using a1 by (simp add: sum_power2_gt_zero_iff)
  ultimately have "(a / 2) / (a\<^sup>2 + b\<^sup>2) \<le> 1 / 2" by (simp add: field_simps)
  moreover from ot q have "\<bar>Re (toComplex (valueOf (cn s') (ew (es' ! 1)))) - (a / 2) / (a\<^sup>2 + b\<^sup>2)\<bar> < 1 / 10 ^ 13"
    by (simp add: approx_def)
  ultimately have "Re (toComplex (valueOf (cn s') (ew (es' ! 1)))) < 3 / 4"
    using tl by linarith
  then have n1: "ew (es' ! 1) \<noteq> ONE"
    using one_value [OF ok] by (auto simp: toComplex_def valueOf_def)
  from R(1) R(2) es v0 n0 n1 show ?thesis by metis
qed

section \<open>Matrix normalization: the pivot and the weights of a node\<close>

lemma cache_list_simps [simp]:
  "cache_list [] = []"
  "cache_list (e # es) = (if cache_weight (ew e) then [fst (cr (ew e)), fst (ci (ew e))] else []) @ cache_list es"
  by (simp_all add: cache_list_def)

lemma cache_list_append [simp]: "cache_list (xs @ ys) = cache_list xs @ cache_list ys"
  by (simp add: cache_list_def)

lemma cache_weight_not_interned: "cache_weight w \<Longrightarrow> \<not> interned c w"
  by (auto simp: cache_weight_def interned_def pool_owned_def)

lemma zeroEdge_cache [simp]: "\<not> cache_weight (ew zeroEdge)" "interned c (ew zeroEdge)"
  by (simp_all add: zeroEdge_def cache_weight_def ZERO_def interned_def pool_owned_def)

lemma lane_inv_release:
  assumes "lane_inv c (pre @ e # es)" and "cache_weight (ew e)"
  shows "lane_inv (releaseCached (ew e) c) (pre @ es)"
  using assms
  by (auto simp: lane_inv_def releaseCached_def getAlignedPointer_def interned_def cache_weight_def)

lemma snapZeroEdges_lane_gen:
  assumes "length zs = length es" and "lane_inv c (pre @ es)" and "pool_ok (cn_pool c)"
    and "\<forall>i < length es. zs ! i \<longrightarrow> equalsZero c (ew (es ! i))"
    and "snapZeroEdges zs es c = (es', c')"
  shows "lane_inv c' (pre @ es') \<and> length (Cache_Avail c) \<le> length (Cache_Avail c')"
  using assms
proof (induction zs es c arbitrary: es' c' pre rule: snapZeroEdges.induct)
  case (1 z zs e es c)
  have z0: "z \<longrightarrow> equalsZero c (ew e)" using "1.prems"(4) by auto
  have zr: "\<forall>i < length es. zs ! i \<longrightarrow> equalsZero c (ew (es ! i))" using "1.prems"(4) by auto
  show ?case
  proof (cases "z \<and> ew e \<noteq> ZERO")
    case True
    have cw: "cache_weight (ew e)"
    proof -
      from "1.prems"(2) have "interned c (ew e) \<or> cache_weight (ew e)" by (simp add: lane_inv_def)
      moreover have "\<not> interned c (ew e)" using interned_zero [OF "1.prems"(3)] True z0 by blast
      ultimately show ?thesis by simp
    qed
    obtain es2 c2 where r: "snapZeroEdges zs es (releaseCached (ew e) c) = (es2, c2)"
      by (cases "snapZeroEdges zs es (releaseCached (ew e) c)")
    with True "1.prems" have e': "es' = zeroEdge # es2" "c' = c2" by simp_all
    have l: "lane_inv (releaseCached (ew e) c) (pre @ es)"
      using "1.prems"(2) cw by (rule lane_inv_release)
    have "lane_inv c2 (pre @ es2) \<and> length (Cache_Avail (releaseCached (ew e) c)) \<le> length (Cache_Avail c2)"
      using "1.IH"(1) [OF True _ l _ _ r] "1.prems"(1,3) zr
      by (simp add: releaseCached_pool same_pool_vals [of "releaseCached (ew e) c" c])
    then show ?thesis
      unfolding e' by (auto simp: lane_inv_def releaseCached_def)
  next
    case False
    obtain es2 c2 where r: "snapZeroEdges zs es c = (es2, c2)"
      by (cases "snapZeroEdges zs es c")
    with False "1.prems" have e': "es' = e # es2" "c' = c2" by auto
    have l: "lane_inv c ((pre @ [e]) @ es)" using "1.prems"(2) by simp
    have ih: "lane_inv c2 ((pre @ [e]) @ es2) \<and> length (Cache_Avail c) \<le> length (Cache_Avail c2)"
      using "1.IH"(2) [OF False _ l "1.prems"(3) zr r] "1.prems"(1) by simp
    then show ?thesis unfolding e' by simp
  qed
qed simp_all

lemma snapZeroEdges_lane:
  assumes "length zs = length es" and "lane_inv c es" and "pool_ok (cn_pool c)"
    and "\<forall>i < length es. zs ! i \<longrightarrow> equalsZero c (ew (es ! i))"
    and "snapZeroEdges zs es c = (es', c')"
  shows "lane_inv c' es' \<and> length (Cache_Avail c) \<le> length (Cache_Avail c')"
  using snapZeroEdges_lane_gen [of zs es c "[]" es' c'] assms by simp

lemma cache_frame_refl: "cache_frame T t t"
  by (simp add: cache_frame_def)

lemma cache_frame_trans: "cache_frame T a b \<Longrightarrow> cache_frame T b c \<Longrightarrow> cache_frame T a c"
  by (simp add: cache_frame_def)

lemma cache_same_frame: "cache_same t t' \<Longrightarrow> cache_frame T t t'"
  by (simp add: cache_frame_def cache_same_def)

lemma set_val_frame: "cache_frame {fst x} (cn_pool c) (cn_pool (set_val x v c))"
  by (simp add: cache_frame_def set_val_def getAlignedPointer_def)

lemma cache_frame_mono: "cache_frame T t t' \<Longrightarrow> T \<subseteq> U \<Longrightarrow> cache_frame U t t'"
  by (auto simp: cache_frame_def)

lemma CN_store_frame: "cache_frame (cache_ptrs r) (cn_pool c) (cn_pool (CN_store r x y c))"
  unfolding CN_store_def cache_ptrs_def
  by (rule cache_frame_trans [OF cache_frame_mono [OF set_val_frame] cache_frame_mono [OF set_val_frame]]) simp_all

lemma CN_div_frame: "cache_frame (cache_ptrs r) (cn_pool c) (cn_pool (CN_div r a b c))"
  by (simp add: CN_div_def Let_def CN_store_frame)

lemma frame_value:
  assumes "pool_extends (cn_pool c) (cn_pool c')" and "cache_frame T (cn_pool c) (cn_pool c')"
    and "interned c w \<or> (cache_weight w \<and> cache_ptrs w \<inter> T = {})"
  shows "valueOf c' w = valueOf c w"
proof (cases "interned c w")
  case True
  then show ?thesis using assms(1) by (simp add: pool_extends_valueOf)
next
  case False
  then obtain a b where w: "w = \<lparr>cr = (CacheEntry a, False), ci = (CacheEntry b, False)\<rparr>"
    and d: "CacheEntry a \<notin> T" "CacheEntry b \<notin> T"
    using assms(3) by (auto simp: cache_weight_def cache_ptrs_def)
  show ?thesis using assms(2) d
    by (simp add: w valueOf_def entry_val_def cache_frame_def getAlignedPointer_def isNegativePointer_def)
qed

lemma div_lookup:
  assumes ok: "pool_ok (cn_pool c)" and av: "Cache_Avail c = t0 # t1 # rest"
    and d: "distinct (Cache_Avail c)" and ce: "\<forall>q \<in> set (Cache_Avail c). \<exists>a. q = CacheEntry a"
    and nz: "toComplex (valueOf c b) \<noteq> 0"
    and r: "CN_lookup \<lparr>cr = (t0, False), ci = (t1, False)\<rparr> (CN_div \<lparr>cr = (t0, False), ci = (t1, False)\<rparr> a b c) = (w', c2)"
  shows "pool_ok (cn_pool c2)" and "pool_extends (cn_pool c) (cn_pool c2)"
    and "cache_frame {t0, t1} (cn_pool c) (cn_pool c2)" and "Cache_Avail c2 = Cache_Avail c"
    and "interned c2 w'"
    and "approx (CN_tol c) (toComplex (valueOf c2 w')) (toComplex (valueOf c a) / toComplex (valueOf c b))"
proof -
  let ?t = "\<lparr>cr = (t0, False), ci = (t1, False)\<rparr>"
  have cw: "cache_weight ?t" using av d ce by (auto simp: cache_weight_def)
  note D = CN_div_cache [OF cw ok nz, of a]
  note L = CN_lookup_ok [OF r D(1)]
  show "pool_ok (cn_pool c2)" by (rule L(1))
  have ext: "cn_extends c c2" using D(2) L(2) by (rule cn_extends_trans)
  then show "pool_extends (cn_pool c) (cn_pool c2)" by (rule cn_extends_pool)
  show "Cache_Avail c2 = Cache_Avail c" using ext by (simp add: cn_extends_def)
  have "cache_frame (cache_ptrs ?t) (cn_pool c) (cn_pool c2)"
    using CN_div_frame cache_same_frame [OF L(3)] by (rule cache_frame_trans)
  then show "cache_frame {t0, t1} (cn_pool c) (cn_pool c2)" by (simp add: cache_ptrs_def)
  show "interned c2 w'" by (rule L(4))
  have "CN_tol (CN_div ?t a b c) = CN_tol c" using D(2) by (simp add: cn_extends_tol)
  then show "approx (CN_tol c) (toComplex (valueOf c2 w')) (toComplex (valueOf c a) / toComplex (valueOf c b))"
    using L(5) D(3) by simp
qed

lemma scan_inv_step:
  assumes "0 < CN_tol c" and "scan_inv c ZS ES i (argmax, mx, maxc)"
  shows "ZS ! i \<Longrightarrow> scan_inv c ZS ES (Suc i) (argmax, mx, maxc)"
    and "\<not> ZS ! i \<Longrightarrow> argmax = None \<Longrightarrow> scan_inv c ZS ES (Suc i) (Some i, mag2 c (ew (ES ! i)), ew (ES ! i))"
    and "\<not> ZS ! i \<Longrightarrow> argmax = Some a \<Longrightarrow> mag2 c (ew (ES ! i)) - mx > CN_tol c \<Longrightarrow>
           scan_inv c ZS ES (Suc i) (Some i, mag2 c (ew (ES ! i)), ew (ES ! i))"
    and "\<not> ZS ! i \<Longrightarrow> argmax = Some a \<Longrightarrow> \<not> mag2 c (ew (ES ! i)) - mx > CN_tol c \<Longrightarrow>
           scan_inv c ZS ES (Suc i) (argmax, mx, maxc)"
proof -
  show "ZS ! i \<Longrightarrow> scan_inv c ZS ES (Suc i) (argmax, mx, maxc)"
    using assms(2) by (auto simp: scan_inv_def less_Suc_eq split: option.splits)
  show "\<not> ZS ! i \<Longrightarrow> argmax = None \<Longrightarrow> scan_inv c ZS ES (Suc i) (Some i, mag2 c (ew (ES ! i)), ew (ES ! i))"
    using assms(2) by (auto simp: scan_inv_def)
  show "\<not> ZS ! i \<Longrightarrow> argmax = Some a \<Longrightarrow> \<not> mag2 c (ew (ES ! i)) - mx > CN_tol c \<Longrightarrow>
           scan_inv c ZS ES (Suc i) (argmax, mx, maxc)"
    using assms(2) by (auto simp: scan_inv_def less_Suc_eq)
  show "scan_inv c ZS ES (Suc i) (Some i, mag2 c (ew (ES ! i)), ew (ES ! i))"
    if z: "\<not> ZS ! i" and a: "argmax = Some a" and g: "mag2 c (ew (ES ! i)) - mx > CN_tol c"
  proof -
    have inv: "a < i" "mx = mag2 c (ew (ES ! a))"
      "\<forall>j < a. \<not> ZS ! j \<longrightarrow> mag2 c (ew (ES ! j)) < mx"
      "\<forall>j < i. a < j \<longrightarrow> \<not> ZS ! j \<longrightarrow> mag2 c (ew (ES ! j)) \<le> mx + CN_tol c"
      using assms(2) a by (auto simp: scan_inv_def)
    have "mag2 c (ew (ES ! j)) < mag2 c (ew (ES ! i))" if "j < i" "\<not> ZS ! j" for j
    proof -
      consider "j < a" | "j = a" | "a < j" by linarith
      then show ?thesis
      proof cases
        case 1 then show ?thesis using inv(3) that g assms(1) by fastforce
      next
        case 2 then show ?thesis using inv(2) g assms(1) by simp
      next
        case 3 then show ?thesis using inv(4) that g by fastforce
      qed
    qed
    then show ?thesis using z by (simp add: scan_inv_def)
  qed
qed

lemma scanM_inv:
  assumes "0 < CN_tol c" and "length ZS = length ES"
  shows "i \<le> length ES \<Longrightarrow> scan_inv c ZS ES i acc \<Longrightarrow>
           scan_inv c ZS ES (length ES) (scanM c (drop i ZS) (drop i ES) i acc)"
proof (induction "length ES - i" arbitrary: i acc)
  case 0
  then show ?case by simp
next
  case (Suc k)
  obtain argmax mx maxc where acc: "acc = (argmax, mx, maxc)" by (cases acc)
  have i: "i < length ES" "i < length ZS" using Suc.hyps(2) assms(2) by simp_all
  have dz: "drop i ZS = ZS ! i # drop (Suc i) ZS" using i by (simp add: Cons_nth_drop_Suc)
  have de: "drop i ES = ES ! i # drop (Suc i) ES" using i by (simp add: Cons_nth_drop_Suc)
  have k: "k = length ES - Suc i" "Suc i \<le> length ES" using Suc.hyps(2) by simp_all
  note S = scan_inv_step [OF assms(1) Suc.prems(2) [unfolded acc]]
  note IH = Suc.hyps(1) [OF k]
  show ?case
  proof (cases "ZS ! i")
    case True
    then show ?thesis unfolding acc dz de using IH [OF S(1) [OF True]] by simp
  next
    case z: False
    show ?thesis
    proof (cases argmax)
      case None
      then show ?thesis unfolding acc dz de using IH [OF S(2) [OF z None]] z by simp
    next
      case (Some a)
      show ?thesis
      proof (cases "mag2 c (ew (ES ! i)) - mx > CN_tol c")
        case True
        then show ?thesis unfolding acc dz de using IH [OF S(3) [OF z Some True]] z Some by simp
      next
        case False
        then show ?thesis unfolding acc dz de using IH [OF S(4) [OF z Some False]] z Some by simp
      qed
    qed
  qed
qed

lemma scanM_pivot:
  assumes tol: "0 < CN_tol c" and len: "length zs = length es"
    and z: "\<forall>j < length es. zs ! j = equalsZero c (ew (es ! j))"
    and r: "scanM c zs es 0 (None, 0, ONE) = (Some am, mx, maxc)"
  shows "is_pivot c es am" and "maxc = ew (es ! am)"
proof -
  have "scan_inv c zs es (length es) (scanM c (drop 0 zs) (drop 0 es) 0 (None, 0, ONE))"
    by (rule scanM_inv [OF tol len]) (simp_all add: scan_inv_def)
  then have inv: "scan_inv c zs es (length es) (Some am, mx, maxc)" using r by simp
  then show "maxc = ew (es ! am)" by (simp add: scan_inv_def)
  show "is_pivot c es am" using inv z by (auto simp: scan_inv_def is_pivot_def)
qed

lemma scanM_none:
  assumes tol: "0 < CN_tol c" and len: "length zs = length es"
    and r: "scanM c zs es 0 (None, 0, ONE) = (None, mx, maxc)"
  shows "\<forall>j < length es. zs ! j"
proof -
  have "scan_inv c zs es (length es) (scanM c (drop 0 zs) (drop 0 es) 0 (None, 0, ONE))"
    by (rule scanM_inv [OF tol len]) (simp_all add: scan_inv_def)
  then show ?thesis using r by (simp add: scan_inv_def)
qed

lemma keep_split:
  assumes "i < length es" and "i \<noteq> am"
  shows "keep am i es = (if am < i then [es ! am] else []) @ es ! i # drop (Suc i) es"
    and "keep am (Suc i) es = (if am < i then [es ! am] else []) @ drop (Suc i) es"
  using assms by (auto simp: keep_def Cons_nth_drop_Suc)

lemma keep_pivot: "am < length es \<Longrightarrow> keep am (Suc am) es = keep am am es"
  by (simp add: keep_def Cons_nth_drop_Suc)

lemma keep_mem: "am < length es \<Longrightarrow> es ! am \<in> set (keep am i es)"
proof (cases "am < i")
  case True
  then show ?thesis by (simp add: keep_def)
next
  case False
  assume a: "am < length es"
  have "drop i es ! (am - i) \<in> set (drop i es)" using False a by (intro nth_mem) simp
  then show ?thesis using False a by (simp add: keep_def)
qed

lemma lane_inv_drop: "lane_inv c (pre @ e # es) \<Longrightarrow> lane_inv c (pre @ es)"
  by (auto simp: lane_inv_def)

lemma lane_inv_mem:
  assumes "lane_inv c es" and "e \<in> set es"
  shows "interned c (ew e) \<or> (cache_weight (ew e) \<and> cache_ptrs (ew e) \<inter> set (Cache_Avail c) = {})"
proof (cases "cache_weight (ew e)")
  case True
  have "set (cache_list es) \<inter> set (Cache_Avail c) = {}" using assms(1) by (auto simp: lane_inv_def)
  moreover have "cache_ptrs (ew e) \<subseteq> set (cache_list es)"
    using assms(2) True by (auto simp: cache_list_def cache_ptrs_def)
  ultimately show ?thesis using True by blast
next
  case False
  then show ?thesis using assms by (auto simp: lane_inv_def)
qed

lemma lane_inv_extends:
  assumes "lane_inv c es" and "pool_extends (cn_pool c) (cn_pool c')" and "Cache_Avail c' = Cache_Avail c"
  shows "lane_inv c' es"
  using assms pool_extends_interned [OF assms(2)] by (auto simp: lane_inv_def)

lemma lane_inv_pool:
  assumes "lane_inv c es" and "cn_pool c' = cn_pool c" and "Cache_Avail c' = Cache_Avail c"
  shows "lane_inv c' es"
  using assms(1,3) by (auto simp: lane_inv_def same_pool_vals [OF assms(2)])

lemma valueOf_ONE: "pool_ok (cn_pool c) \<Longrightarrow> toComplex (valueOf c ONE) = 1"
  by (simp add: pool_ok_def valueOf_def ONE_def entry_val_def toComplex_def
      getAlignedPointer_def isNegativePointer_def complex_eq_iff)

lemma valueOf_entries:
  "valueOf c w = valueOf c' w \<Longrightarrow> entry_val c (cr w) = entry_val c' (cr w) \<and> entry_val c (ci w) = entry_val c' (ci w)"
  by (simp add: valueOf_def)

lemma snap_one_cong:
  assumes "valueOf c w = valueOf c' w" and "CN_tol c = CN_tol c'"
  shows "snap_one c w = snap_one c' w" and "equalsOne c w = equalsOne c' w"
  using valueOf_entries [OF assms(1)] assms by (simp_all add: snap_one_def equalsOne_def)

lemma snap_one_value:
  assumes "pool_ok (cn_pool c)"
  shows "toComplex (valueOf c (if equalsOne c w then ONE else w)) = snap_one c w"
  using assms by (simp add: snap_one_def valueOf_ONE)

lemma step_pivot:
  assumes st: "div_static cached c1 es1 zs am"
    and inv: "div_inv c1 es1 am am c" and dn: "div_done c1 es1 zs am am es c"
  shows "\<exists>es'. divideStepM cached am (ew (es1 ! am)) zs am (ONE, es, c) = Inr (ew (es1 ! am), es', c)
           \<and> div_inv c1 es1 am (Suc am) c \<and> div_done c1 es1 zs am (Suc am) es' c"
proof -
  have am: "am < length es1" using st by (simp add: div_static_def)
  have le: "length es = length es1" using dn by (simp add: div_done_def)
  have ea: "es ! am = es1 ! am" using dn am by (simp add: div_done_def)
  have old: "\<And>j. j < length es1 \<Longrightarrow>
            (if am \<le> j then es ! j = es1 ! j
             else if zs ! j then es ! j = zeroEdge
             else ep (es ! j) = ep (es1 ! j) \<and> interned c (ew (es ! j))
                 \<and> approx (CN_tol c1) (toComplex (valueOf c (ew (es ! j))))
                      (snap_one c1 (ew (es1 ! j)) / toComplex (valueOf c1 (ew (es1 ! am)))))"
    using dn unfolding div_done_def by (auto split: if_splits)
  have s: "divideStepM cached am (ew (es1 ! am)) zs am (ONE, es, c)
             = Inr (ew (es1 ! am), es[am := (es1 ! am)\<lparr>ew := ONE\<rparr>], c)"
    by (simp add: divideStepM_def ea)
  have i: "div_inv c1 es1 am (Suc am) c" using inv by (simp add: div_inv_def keep_pivot [OF am])
  have d: "div_done c1 es1 zs am (Suc am) (es[am := (es1 ! am)\<lparr>ew := ONE\<rparr>]) c"
    unfolding div_done_def
  proof (intro conjI allI impI)
    show "length (es[am := (es1 ! am)\<lparr>ew := ONE\<rparr>]) = length es1" using le by simp
    fix j assume j: "j < length es1"
    consider "j < am" | "j = am" | "am < j" by linarith
    then show "if Suc am \<le> j then es[am := (es1 ! am)\<lparr>ew := ONE\<rparr>] ! j = es1 ! j
         else if j = am then es[am := (es1 ! am)\<lparr>ew := ONE\<rparr>] ! j = (es1 ! j)\<lparr>ew := ONE\<rparr>
         else if zs ! j then es[am := (es1 ! am)\<lparr>ew := ONE\<rparr>] ! j = zeroEdge
         else ep (es[am := (es1 ! am)\<lparr>ew := ONE\<rparr>] ! j) = ep (es1 ! j)
              \<and> interned c (ew (es[am := (es1 ! am)\<lparr>ew := ONE\<rparr>] ! j))
              \<and> approx (CN_tol c1) (toComplex (valueOf c (ew (es[am := (es1 ! am)\<lparr>ew := ONE\<rparr>] ! j))))
                   (snap_one c1 (ew (es1 ! j)) / toComplex (valueOf c1 (ew (es1 ! am))))"
    proof cases
      case 1 then show ?thesis using old [OF j] by (auto split: if_splits)
    next
      case 2 then show ?thesis using am le by simp
    next
      case 3 then show ?thesis using old [OF j] by (auto split: if_splits)
    qed
  qed
  show ?thesis using s i d by blast
qed

lemma step_zero:
  assumes st: "div_static cached c1 es1 zs am" and i: "i < length es1" "i \<noteq> am" "zs ! i"
    and inv: "div_inv c1 es1 am i c" and dn: "div_done c1 es1 zs am i es c"
  shows "\<exists>es'. divideStepM cached am maxc zs i (rw, es, c) = Inr (rw, es', c)
           \<and> div_inv c1 es1 am (Suc i) c \<and> div_done c1 es1 zs am (Suc i) es' c"
proof -
  have le: "length es = length es1" using dn by (simp add: div_done_def)
  have ei: "es ! i = es1 ! i" using dn i by (simp add: div_done_def)
  have z: "ew (es1 ! i) = ZERO" using st i by (simp add: div_static_def)
  have old: "\<And>j. j < length es1 \<Longrightarrow>
            (if i \<le> j then es ! j = es1 ! j
             else if j = am then es ! j = (es1 ! j)\<lparr>ew := ONE\<rparr>
             else if zs ! j then es ! j = zeroEdge
             else ep (es ! j) = ep (es1 ! j) \<and> interned c (ew (es ! j))
                 \<and> approx (CN_tol c1) (toComplex (valueOf c (ew (es ! j))))
                      (snap_one c1 (ew (es1 ! j)) / toComplex (valueOf c1 (ew (es1 ! am)))))"
    using dn unfolding div_done_def by blast
  have s: "divideStepM cached am maxc zs i (rw, es, c) = Inr (rw, es[i := zeroEdge], c)"
    using i by (simp add: divideStepM_def ei z)
  note K = keep_split [OF i(1,2)]
  have l: "lane_inv c (keep am (Suc i) es1)"
    using inv unfolding div_inv_def K by (blast intro: lane_inv_drop)
  have iv: "div_inv c1 es1 am (Suc i) c"
    using inv l unfolding div_inv_def K by auto
  have d: "div_done c1 es1 zs am (Suc i) (es[i := zeroEdge]) c"
    unfolding div_done_def
  proof (intro conjI allI impI)
    show "length (es[i := zeroEdge]) = length es1" using le by simp
    fix j assume j: "j < length es1"
    consider "j < i" | "j = i" | "i < j" by linarith
    then show "if Suc i \<le> j then es[i := zeroEdge] ! j = es1 ! j
         else if j = am then es[i := zeroEdge] ! j = (es1 ! j)\<lparr>ew := ONE\<rparr>
         else if zs ! j then es[i := zeroEdge] ! j = zeroEdge
         else ep (es[i := zeroEdge] ! j) = ep (es1 ! j)
              \<and> interned c (ew (es[i := zeroEdge] ! j))
              \<and> approx (CN_tol c1) (toComplex (valueOf c (ew (es[i := zeroEdge] ! j))))
                   (snap_one c1 (ew (es1 ! j)) / toComplex (valueOf c1 (ew (es1 ! am))))"
    proof cases
      case 1 then show ?thesis using old [OF j] by (auto split: if_splits)
    next
      case 2 then show ?thesis using i le by simp
    next
      case 3 then show ?thesis using old [OF j] by (auto split: if_splits)
    qed
  qed
  show ?thesis using s iv d by blast
qed

lemma divideStepM_div:
  assumes "i \<noteq> am" and "\<not> zs ! i"
    and "c1' = (if cached \<and> ew (es ! i) \<noteq> ONE then releaseCached (ew (es ! i)) c else c)"
    and "Cache_Avail c1' = t0 # t1 # r"
    and "wi = (if equalsOne c1' (ew (es ! i)) then ONE else ew (es ! i))"
    and "CN_lookup \<lparr>cr = (t0, False), ci = (t1, False)\<rparr>
           (CN_div \<lparr>cr = (t0, False), ci = (t1, False)\<rparr> wi maxc c1') = (w', c2)"
  shows "divideStepM cached am maxc zs i (rw, es, c) = Inr (rw, es[i := (es ! i)\<lparr>ew := w'\<rparr>], c2)"
  using assms by (simp add: divideStepM_def Let_def getTempCachedComplex_def)

lemma step_div:
  assumes st: "div_static cached c1 es1 zs am" and i: "i < length es1" "i \<noteq> am" "\<not> zs ! i"
    and inv: "div_inv c1 es1 am i c" and dn: "div_done c1 es1 zs am i es c"
  shows "\<exists>es' c'. divideStepM cached am (ew (es1 ! am)) zs i (rw, es, c) = Inr (rw, es', c')
           \<and> div_inv c1 es1 am (Suc i) c' \<and> div_done c1 es1 zs am (Suc i) es' c'"
proof -
  define pre where "pre = (if am < i then [es1 ! am] else [])"
  define rest where "rest = drop (Suc i) es1"
  define w where "w = ew (es1 ! i)"
  define maxc where "maxc = ew (es1 ! am)"
  note K = keep_split [OF i(1,2), folded pre_def rest_def]
  have am: "am < length es1" using st by (simp add: div_static_def)
  have le: "length es = length es1" using dn by (simp add: div_done_def)
  have ei: "es ! i = es1 ! i" using dn i by (simp add: div_done_def)
  have old: "\<And>j. j < length es1 \<Longrightarrow>
            (if i \<le> j then es ! j = es1 ! j
             else if j = am then es ! j = (es1 ! j)\<lparr>ew := ONE\<rparr>
             else if zs ! j then es ! j = zeroEdge
             else ep (es ! j) = ep (es1 ! j) \<and> interned c (ew (es ! j))
                 \<and> approx (CN_tol c1) (toComplex (valueOf c (ew (es ! j))))
                      (snap_one c1 (ew (es1 ! j)) / toComplex (valueOf c1 maxc)))"
    using dn unfolding div_done_def maxc_def by blast
  have ok: "pool_ok (cn_pool c)" and ext: "pool_extends (cn_pool c1) (cn_pool c)"
    and lane: "lane_inv c (pre @ es1 ! i # rest)" and l2: "2 \<le> length (Cache_Avail c)"
    and vals: "\<And>e. e \<in> set (keep am i es1) \<Longrightarrow> valueOf c (ew e) = valueOf c1 (ew e)"
    using inv unfolding div_inv_def K by blast+
  have tol: "CN_tol c = CN_tol c1" using ext by (simp add: pool_extends_def CN_tol_def)
  have mi: "es1 ! i \<in> set (keep am i es1)" unfolding K by simp
  have vw: "valueOf c w = valueOf c1 w" unfolding w_def using vals [OF mi] .
  have vm: "valueOf c maxc = valueOf c1 maxc" unfolding maxc_def using vals [OF keep_mem [OF am]] .
  have nz1: "\<not> equalsZero c1 maxc" "\<not> equalsZero c1 w"
    using st am i by (simp_all add: div_static_def maxc_def w_def)
  have wz: "w \<noteq> ZERO" using nz1(2) by (auto simp: equalsZero_def)
  have t1: "0 < CN_tol c1" using ok tol pool_ok_tol [OF ok] by simp
  have nzm: "toComplex (valueOf c maxc) \<noteq> 0"
    using not_equalsZero_nonzero [OF nz1(1) t1] vm by simp
  define rel where "rel = (cached \<and> w \<noteq> ONE)"
  define c1' where "c1' = (if rel then releaseCached w c else c)"
  have cw: "cache_weight w" if rel
    using st i that wz by (auto simp: div_static_def rel_def w_def)
  have p1: "cn_pool c1' = cn_pool c" by (simp add: c1'_def releaseCached_pool)
  note P = same_pool_vals [OF p1]
  have l1: "lane_inv c1' (pre @ rest)"
  proof (cases rel)
    case True
    then show ?thesis using lane_inv_release [OF lane] cw by (simp add: c1'_def w_def)
  next
    case False
    then show ?thesis using lane_inv_drop [OF lane] by (simp add: c1'_def)
  qed
  have "2 \<le> length (Cache_Avail c1')" using l2 by (simp add: c1'_def releaseCached_def)
  then obtain t0 t1 r where av: "Cache_Avail c1' = t0 # t1 # r"
    by (cases "Cache_Avail c1'"; cases "tl (Cache_Avail c1')") auto
  define t where "t = \<lparr>cr = (t0, False), ci = (t1, False)\<rparr>"
  define wi where "wi = (if equalsOne c1' w then ONE else w)"
  obtain w' c2 where r: "CN_lookup t (CN_div t wi maxc c1') = (w', c2)"
    by (cases "CN_lookup t (CN_div t wi maxc c1')")
  have ok1: "pool_ok (cn_pool c1')" using ok p1 by simp
  have d1: "distinct (Cache_Avail c1')" and ce1: "\<forall>q \<in> set (Cache_Avail c1'). \<exists>a. q = CacheEntry a"
    using l1 by (auto simp: lane_inv_def)
  have nz': "toComplex (valueOf c1' maxc) \<noteq> 0" using nzm by (simp add: P)
  note D = div_lookup [OF ok1 av d1 ce1 nz' r [unfolded t_def]]
  have s: "divideStepM cached am maxc zs i (rw, es, c) = Inr (rw, es[i := (es1 ! i)\<lparr>ew := w'\<rparr>], c2)"
  proof -
    have a: "c1' = (if cached \<and> ew (es ! i) \<noteq> ONE then releaseCached (ew (es ! i)) c else c)"
      by (simp add: c1'_def rel_def w_def ei)
    have b: "wi = (if equalsOne c1' (ew (es ! i)) then ONE else ew (es ! i))"
      by (simp add: wi_def w_def ei)
    show ?thesis using divideStepM_div [OF i(2,3) a av b r [unfolded t_def]] by (simp add: ei)
  qed
  have ext2: "pool_extends (cn_pool c) (cn_pool c2)" using D(2) by (simp add: p1)
  have e12: "pool_extends (cn_pool c1) (cn_pool c2)" using ext ext2 by (rule pool_extends_trans)
  have keepv: "valueOf c2 (ew e) = valueOf c1 (ew e)" if e: "e \<in> set (pre @ rest)" for e
  proof -
    have "interned c1' (ew e) \<or> (cache_weight (ew e) \<and> cache_ptrs (ew e) \<inter> set (Cache_Avail c1') = {})"
      using l1 e by (rule lane_inv_mem)
    then have "interned c1' (ew e) \<or> (cache_weight (ew e) \<and> cache_ptrs (ew e) \<inter> {t0, t1} = {})"
      by (auto simp: av)
    then have "valueOf c2 (ew e) = valueOf c1' (ew e)" by (rule frame_value [OF D(2,3)])
    moreover have "e \<in> set (keep am i es1)" using e unfolding K by auto
    ultimately show ?thesis using vals by (simp add: P)
  qed
  have iv: "div_inv c1 es1 am (Suc i) c2"
    unfolding div_inv_def K
    using D(1) e12 lane_inv_extends [OF l1 D(2) D(4)] D(4) av keepv by simp
  have sv: "toComplex (valueOf c1' wi) = snap_one c1 w"
  proof -
    have "toComplex (valueOf c1' wi) = snap_one c1' w" unfolding wi_def by (rule snap_one_value [OF ok1])
    also have "\<dots> = snap_one c1 w" by (rule snap_one_cong) (simp_all add: P vw tol)
    finally show ?thesis .
  qed
  have ap: "approx (CN_tol c1) (toComplex (valueOf c2 w')) (snap_one c1 w / toComplex (valueOf c1 maxc))"
    using D(6) sv vm by (simp add: P tol)
  have d: "div_done c1 es1 zs am (Suc i) (es[i := (es1 ! i)\<lparr>ew := w'\<rparr>]) c2"
    unfolding div_done_def
  proof (intro conjI allI impI)
    let ?es = "es[i := (es1 ! i)\<lparr>ew := w'\<rparr>]"
    show "length ?es = length es1" using le by simp
    fix j assume j: "j < length es1"
    consider "j < i" | "j = i" | "i < j" by linarith
    then show "if Suc i \<le> j then ?es ! j = es1 ! j
         else if j = am then ?es ! j = (es1 ! j)\<lparr>ew := ONE\<rparr>
         else if zs ! j then ?es ! j = zeroEdge
         else ep (?es ! j) = ep (es1 ! j)
              \<and> interned c2 (ew (?es ! j))
              \<and> approx (CN_tol c1) (toComplex (valueOf c2 (ew (?es ! j))))
                   (snap_one c1 (ew (es1 ! j)) / toComplex (valueOf c1 (ew (es1 ! am))))"
    proof cases
      case 1
      have "interned c2 x \<and> valueOf c2 x = valueOf c x" if "interned c x" for x
        using that pool_extends_interned [OF ext2] pool_extends_valueOf [OF ext2] by blast
      then show ?thesis using old [OF j] 1 by (auto simp: maxc_def split: if_splits)
    next
      case 2
      then show ?thesis using i le D(5) ap by (simp add: w_def maxc_def)
    next
      case 3 then show ?thesis using old [OF j] by (auto split: if_splits)
    qed
  qed
  show ?thesis using s iv d unfolding maxc_def by blast
qed

lemma step_all:
  assumes st: "div_static cached c1 es1 zs am" and i: "i < length es1"
    and inv: "div_inv c1 es1 am i c" and dn: "div_done c1 es1 zs am i es c"
  shows "\<exists>es' c'. divideStepM cached am (ew (es1 ! am)) zs i (if am < i then ew (es1 ! am) else ONE, es, c)
             = Inr (if am < Suc i then ew (es1 ! am) else ONE, es', c')
           \<and> div_inv c1 es1 am (Suc i) c' \<and> div_done c1 es1 zs am (Suc i) es' c'"
proof (cases "i = am")
  case True
  show ?thesis using step_pivot [OF st inv [unfolded True] dn [unfolded True]] True by auto
next
  case False
  then have r: "(am < Suc i) = (am < i)" by auto
  show ?thesis
  proof (cases "zs ! i")
    case True
    show ?thesis unfolding r using step_zero [OF st i False True inv dn] by blast
  next
    case z: False
    show ?thesis unfolding r using step_div [OF st i False z inv dn] by blast
  qed
qed

lemma divideLoopM_ok:
  assumes st: "div_static cached c1 es1 zs am"
  shows "i \<le> length es1 \<Longrightarrow> div_inv c1 es1 am i c \<Longrightarrow> div_done c1 es1 zs am i es c \<Longrightarrow>
     \<exists>es' c'. divideLoopM cached am (ew (es1 ! am)) zs [i ..< length es1]
                  (if am < i then ew (es1 ! am) else ONE, es, c) = Inr (ew (es1 ! am), es', c')
        \<and> div_inv c1 es1 am (length es1) c' \<and> div_done c1 es1 zs am (length es1) es' c'"
proof (induction "length es1 - i" arbitrary: i es c)
  case 0
  have am: "am < length es1" using st by (simp add: div_static_def)
  from 0 have i: "i = length es1" by simp
  show ?case using 0 am unfolding i by simp
next
  case (Suc k)
  have i: "i < length es1" using Suc.hyps(2) by simp
  have u: "[i ..< length es1] = i # [Suc i ..< length es1]" using i by (rule upt_conv_Cons)
  from step_all [OF st i Suc.prems(2,3)] obtain es2 c2 where
    s: "divideStepM cached am (ew (es1 ! am)) zs i (if am < i then ew (es1 ! am) else ONE, es, c)
             = Inr (if am < Suc i then ew (es1 ! am) else ONE, es2, c2)"
    and iv: "div_inv c1 es1 am (Suc i) c2" and d: "div_done c1 es1 zs am (Suc i) es2 c2"
    by blast
  have k: "k = length es1 - Suc i" "Suc i \<le> length es1" using Suc.hyps(2) by simp_all
  from Suc.hyps(1) [OF k iv d] show ?case unfolding u by (simp add: s)
qed

lemma snapZeroEdges_static:
  assumes len: "length zs = length es" and z: "\<forall>j < length es. zs ! j = equalsZero c (ew (es ! j))"
    and sn: "snapZeroEdges zs es c = (es1, c1)" and am: "am < length es" "\<not> zs ! am"
    and cw: "cached \<longrightarrow> (\<forall>e \<in> set es. ew e = ZERO \<or> ew e = ONE \<or> cache_weight (ew e))"
  shows "div_static cached c1 es1 zs am"
    and "\<forall>j < length es. \<not> zs ! j \<longrightarrow> es1 ! j = es ! j"
    and "\<forall>j < length es1. zs ! j = equalsZero c1 (ew (es1 ! j))"
    and "length es1 = length es" and "cn_pool c1 = cn_pool c"
proof -
  note S = snapZeroEdges_spec [OF len sn]
  have l1: "length es1 = length es" and pc: "cn_pool c1 = cn_pool c" using S by simp_all
  have e1: "es1 ! j = (if zs ! j \<and> ew (es ! j) \<noteq> ZERO then zeroEdge else es ! j)" if "j < length es" for j
    using S that by simp
  show "length es1 = length es" by (rule l1)
  show "cn_pool c1 = cn_pool c" by (rule pc)
  show n: "\<forall>j < length es. \<not> zs ! j \<longrightarrow> es1 ! j = es ! j" using e1 by simp
  have zz: "ew (es1 ! j) = ZERO" if "j < length es" "zs ! j" for j
    using e1 [OF that(1)] that(2) by (auto simp: zeroEdge_def)
  show q: "\<forall>j < length es1. zs ! j = equalsZero c1 (ew (es1 ! j))"
  proof (intro allI impI)
    fix j assume j: "j < length es1"
    show "zs ! j = equalsZero c1 (ew (es1 ! j))"
    proof (cases "zs ! j")
      case True
      then show ?thesis using zz j l1 by (simp add: equalsZero_def)
    next
      case False
      then show ?thesis using n z j l1 by (simp add: same_pool_vals [OF pc])
    qed
  qed
  have c: "ew (es1 ! j) = ZERO \<or> ew (es1 ! j) = ONE \<or> cache_weight (ew (es1 ! j))"
    if "cached" "j < length es" for j
  proof -
    have "ew (es ! j) = ZERO \<or> ew (es ! j) = ONE \<or> cache_weight (ew (es ! j))"
      using cw that by simp
    then show ?thesis using e1 [OF that(2)] by (auto simp: zeroEdge_def)
  qed
  show "div_static cached c1 es1 zs am"
    unfolding div_static_def using len l1 am zz q c by auto
qed

lemma is_pivot_transfer:
  assumes "is_pivot c1 es1 am" and "length es1 = length es" and "cn_pool c1 = cn_pool c"
    and "\<forall>j < length es. \<not> equalsZero c (ew (es ! j)) \<longrightarrow> es1 ! j = es ! j"
    and "\<forall>j < length es. equalsZero c1 (ew (es1 ! j)) = equalsZero c (ew (es ! j))"
  shows "is_pivot c es am"
proof -
  note P = mag2_pool [OF assms(3)]
  have am: "am < length es" "\<not> equalsZero c (ew (es ! am))" "es1 ! am = es ! am"
    using assms by (auto simp: is_pivot_def)
  have a: "mag2 c (ew (es ! j)) < mag2 c (ew (es ! am))" if "j < am" "\<not> equalsZero c (ew (es ! j))" for j
  proof -
    have j: "j < length es" using that am by simp
    have "mag2 c1 (ew (es1 ! j)) < mag2 c1 (ew (es1 ! am))"
      using assms(1,5) that j by (simp add: is_pivot_def)
    then show ?thesis using assms(4) j that am by (simp add: P)
  qed
  have b: "mag2 c (ew (es ! j)) \<le> mag2 c (ew (es ! am)) + CN_tol c"
    if "j < length es" "am < j" "\<not> equalsZero c (ew (es ! j))" for j
  proof -
    have "mag2 c1 (ew (es1 ! j)) \<le> mag2 c1 (ew (es1 ! am)) + CN_tol c1"
      using assms(1,2,5) that by (simp add: is_pivot_def)
    then show ?thesis using assms(4) that am by (simp add: P same_pool_vals [OF assms(3)])
  qed
  show ?thesis unfolding is_pivot_def using am a b by blast
qed

lemma setEdges_NodeAt_M:
  "setEdges Matrix (NodeAt a) es s =
     Inr (s\<lparr>mUniqueTable := (mUniqueTable s)\<lparr>ut_nodes :=
            (ut_nodes (mUniqueTable s))(a := (ut_nodes (mUniqueTable s) a)\<lparr>ne := es\<rparr>)\<rparr>\<rparr>)"
  by (simp add: setEdges_def deref_def store_def getUniqueTable_def setUniqueTable_def)

lemma upt_4: "[0 ..< 4] = [0, 1, 2, 3::nat]"
  by (simp add: upt_rec)

lemma list4:
  assumes "length es = 4"
  obtains e0 e1 e2 e3 where "es = [e0, e1, e2, e3]"
proof -
  from assms obtain e0 r0 where a: "es = e0 # r0" "length r0 = 3" by (cases es) auto
  then obtain e1 r1 where b: "r0 = e1 # r1" "length r1 = 2" by (cases r0) auto
  then obtain e2 r2 where c: "r1 = e2 # r2" "length r2 = 1" by (cases r1) auto
  then obtain e3 where d: "r2 = [e3]" by (cases r2) auto
  show ?thesis using a b c d that by simp
qed

lemma pivot_upto_Some: "pivot_upto c es n = Some a \<Longrightarrow> a < n \<and> \<not> equalsZero c (ew (es ! a))"
  by (induction n) (auto split: if_splits option.splits simp: less_Suc_eq)

lemma pivot_upto_cong:
  assumes "\<forall>j<n. equalsZero c1 (ew (es1 ! j)) = equalsZero c (ew (es ! j))"
    and "\<forall>j<n. \<not> equalsZero c (ew (es ! j)) \<longrightarrow> mag2 c1 (ew (es1 ! j)) = mag2 c (ew (es ! j))"
    and "CN_tol c1 = CN_tol c"
  shows "pivot_upto c1 es1 n = pivot_upto c es n"
  using assms(1,2)
proof (induction n)
  case 0
  show ?case by simp
next
  case (Suc n)
  have ih: "pivot_upto c1 es1 n = pivot_upto c es n" using Suc by simp
  have z: "equalsZero c1 (ew (es1 ! n)) = equalsZero c (ew (es ! n))" using Suc.prems by simp
  show ?case
  proof (cases "equalsZero c (ew (es ! n))")
    case True
    then show ?thesis using z ih by simp
  next
    case False
    have m: "mag2 c1 (ew (es1 ! n)) = mag2 c (ew (es ! n))" using Suc.prems False by simp
    show ?thesis
    proof (cases "pivot_upto c es n")
      case None
      then show ?thesis using z ih False by simp
    next
      case (Some a)
      from pivot_upto_Some [OF Some] have "a < n" "\<not> equalsZero c (ew (es ! a))" by simp_all
      then have "mag2 c1 (ew (es1 ! a)) = mag2 c (ew (es ! a))" using Suc.prems by simp
      then show ?thesis using z ih False m Some assms(3) by simp
    qed
  qed
qed

lemma scanM_upto:
  assumes len: "length ZS = length ES" and z: "\<forall>j < length ES. ZS ! j = equalsZero c (ew (ES ! j))"
  shows "i \<le> length ES \<Longrightarrow> argmax = pivot_upto c ES i \<Longrightarrow>
           (\<forall>a. argmax = Some a \<longrightarrow> mx = mag2 c (ew (ES ! a))) \<Longrightarrow>
           fst (scanM c (drop i ZS) (drop i ES) i (argmax, mx, maxc)) = pivot_upto c ES (length ES)"
proof (induction "length ES - i" arbitrary: i argmax mx maxc)
  case 0
  then show ?case by simp
next
  case (Suc k)
  have i: "i < length ES" "i < length ZS" using Suc.hyps(2) len by simp_all
  have dz: "drop i ZS = ZS ! i # drop (Suc i) ZS" using i by (simp add: Cons_nth_drop_Suc)
  have de: "drop i ES = ES ! i # drop (Suc i) ES" using i by (simp add: Cons_nth_drop_Suc)
  have k: "k = length ES - Suc i" "Suc i \<le> length ES" using Suc.hyps(2) by simp_all
  have zi: "ZS ! i = equalsZero c (ew (ES ! i))" using z i by simp
  note IH = Suc.hyps(1) [OF k]
  show ?case
  proof (cases "ZS ! i")
    case True
    have "fst (scanM c (drop (Suc i) ZS) (drop (Suc i) ES) (Suc i) (argmax, mx, maxc)) = pivot_upto c ES (length ES)"
      using Suc.prems True zi by (intro IH) simp_all
    then show ?thesis unfolding dz de using True by simp
  next
    case nz: False
    show ?thesis
    proof (cases argmax)
      case None
      have "fst (scanM c (drop (Suc i) ZS) (drop (Suc i) ES) (Suc i) (Some i, mag2 c (ew (ES ! i)), ew (ES ! i)))
              = pivot_upto c ES (length ES)"
        using Suc.prems(1) Suc.prems(2) [symmetric] nz zi None by (intro IH) simp_all
      then show ?thesis unfolding dz de using nz None by simp
    next
      case (Some a)
      have mx: "mx = mag2 c (ew (ES ! a))" using Suc.prems(3) Some by simp
      have pu: "pivot_upto c ES i = Some a" using Suc.prems(2) Some by simp
      show ?thesis
      proof (cases "mag2 c (ew (ES ! i)) - mx > CN_tol c")
        case True
        have "fst (scanM c (drop (Suc i) ZS) (drop (Suc i) ES) (Suc i) (Some i, mag2 c (ew (ES ! i)), ew (ES ! i)))
              = pivot_upto c ES (length ES)"
          using Suc.prems(1) nz zi pu True mx by (intro IH) simp_all
        then show ?thesis unfolding dz de using nz Some True by simp
      next
        case False
        have "fst (scanM c (drop (Suc i) ZS) (drop (Suc i) ES) (Suc i) (argmax, mx, maxc))
              = pivot_upto c ES (length ES)"
          using Suc.prems(1) nz zi pu False mx Some by (intro IH) simp_all
        then show ?thesis unfolding dz de using nz Some False by simp
      qed
    qed
  qed
qed

lemma normalizeM_ok:
  assumes e: "ep e = NodeAt a" and n: "ne (ut_nodes (mUniqueTable s) a) = es" and l4: "length es = 4"
    and w1: "ew e = ONE" and ok: "pool_ok (cn_pool (cn s))" and rdy: "matrix_ready cached (cn s) es"
    and nz: "\<exists>x \<in> set es. \<not> equalsZero (cn s) (ew x)"
  shows "\<exists>am r s'. normalizeM e cached s = Inr (r, s') \<and> pivot_upto (cn s) es 4 = Some am
           \<and> is_pivot (cn s) es am
           \<and> ep r = ep e \<and> ew r = ew (es ! am)
           \<and> valueOf (cn s') (ew r) = valueOf (cn s) (ew (es ! am))
           \<and> pivot_normalized (cn s) (cn s') es (ne (ut_nodes (mUniqueTable s') a)) am"
proof -
  obtain e0 e1 e2 e3 where es: "es = [e0, e1, e2, e3]" using l4 by (rule list4)
  define zs where "zs = [equalsZero (cn s) (ew e0), equalsZero (cn s) (ew e1),
                      equalsZero (cn s) (ew e2), equalsZero (cn s) (ew e3)]"
  have lz: "length zs = length es" by (simp add: zs_def es)
  have zq: "\<forall>j < length es. zs ! j = equalsZero (cn s) (ew (es ! j))"
    by (simp add: zs_def es less_Suc_eq numeral_eq_Suc all_conj_distrib)
  obtain es1 c1 where sn: "snapZeroEdges zs es (cn s) = (es1, c1)"
    by (cases "snapZeroEdges zs es (cn s)")
  obtain argmax mx maxc where sc: "scanM c1 zs es1 0 (None, 0, ONE) = (argmax, mx, maxc)"
    by (cases "scanM c1 zs es1 0 (None, 0, ONE)") auto
  have cw: "cached \<longrightarrow> (\<forall>e \<in> set es. ew e = ZERO \<or> ew e = ONE \<or> cache_weight (ew e))"
    using rdy by (simp add: matrix_ready_def)
  from nz obtain k where k: "k < length es" "\<not> zs ! k"
    using zq by (auto simp: in_set_conv_nth)
  note S0 = snapZeroEdges_static [OF lz zq sn k cw]
  have l1: "length es1 = length es" and pc: "cn_pool c1 = cn_pool (cn s)" using S0 by simp_all
  have lz1: "length zs = length es1" using lz l1 by simp
  have tol: "0 < CN_tol c1" using pool_ok_tol [OF ok] by (simp add: same_pool_vals [OF pc])
  have ok1: "pool_ok (cn_pool c1)" using ok pc by simp
  have "argmax \<noteq> None"
  proof
    assume "argmax = None"
    then have "\<forall>j < length es1. zs ! j" using scanM_none [OF tol lz1] sc by simp
    then show False using k l1 by simp
  qed
  then obtain am where am: "argmax = Some am" by auto
  have piv1: "is_pivot c1 es1 am" and mc: "maxc = ew (es1 ! am)"
    using scanM_pivot [OF tol lz1 S0(3) sc [unfolded am]] by simp_all
  have am4: "am < length es" and nzam: "\<not> zs ! am"
    using piv1 S0(3) l1 by (simp_all add: is_pivot_def)
  note S = snapZeroEdges_static [OF lz zq sn am4 nzam cw]
  have eam: "es1 ! am = es ! am" using S(2) am4 nzam by simp
  have piv: "is_pivot (cn s) es am"
    using piv1 l1 pc
  proof (rule is_pivot_transfer)
    show "\<forall>j<length es. \<not> equalsZero (cn s) (ew (es ! j)) \<longrightarrow> es1 ! j = es ! j"
      using S(2) zq by simp
    show "\<forall>j<length es. equalsZero c1 (ew (es1 ! j)) = equalsZero (cn s) (ew (es ! j))"
      using S(3) zq l1 by simp
  qed
  have pu: "pivot_upto (cn s) es 4 = Some am"
  proof -
    have "fst (scanM c1 (drop 0 zs) (drop 0 es1) 0 (None, 0, ONE)) = pivot_upto c1 es1 (length es1)"
      by (rule scanM_upto [OF lz1 S0(3)]) simp_all
    then have "pivot_upto c1 es1 (length es1) = Some am" using sc am by simp
    moreover have "pivot_upto c1 es1 (length es1) = pivot_upto (cn s) es (length es1)"
    proof (rule pivot_upto_cong)
      show "\<forall>j<length es1. equalsZero c1 (ew (es1 ! j)) = equalsZero (cn s) (ew (es ! j))"
        using S(3) zq l1 by simp
      show "\<forall>j<length es1. \<not> equalsZero (cn s) (ew (es ! j)) \<longrightarrow> mag2 c1 (ew (es1 ! j)) = mag2 (cn s) (ew (es ! j))"
        using S(2) zq l1 by (simp add: mag2_pool [OF pc])
      show "CN_tol c1 = CN_tol (cn s)" by (simp add: same_pool_vals [OF pc])
    qed
    ultimately show ?thesis using l1 l4 by simp
  qed
  have lane: "lane_inv (cn s) es" and l2: "2 \<le> length (Cache_Avail (cn s))"
    using rdy by (simp_all add: matrix_ready_def)
  have zi: "\<forall>i < length es. zs ! i \<longrightarrow> equalsZero (cn s) (ew (es ! i))" using zq by simp
  note L = snapZeroEdges_lane [OF lz lane ok zi sn]
  have iv0: "div_inv c1 es1 am 0 c1"
    unfolding div_inv_def using ok1 L l2 by (simp add: keep_def pool_extends_refl)
  have dn0: "div_done c1 es1 zs am 0 es1 c1" by (simp add: div_done_def)
  from divideLoopM_ok [OF S(1) _ iv0 dn0] obtain es2 c2 where
    lp: "divideLoopM cached am (ew (es1 ! am)) zs [0, 1, 2, 3] (ONE, es1, c1) = Inr (ew (es1 ! am), es2, c2)"
    and iv: "div_inv c1 es1 am (length es1) c2" and dn: "div_done c1 es1 zs am (length es1) es2 c2"
    using l1 l4 by (auto simp: upt_4)
  define s' where "s' = s\<lparr>cn := c2, mUniqueTable := (mUniqueTable s)\<lparr>ut_nodes :=
            (ut_nodes (mUniqueTable s))(a := (ut_nodes (mUniqueTable s) a)\<lparr>ne := es2\<rparr>)\<rparr>\<rparr>"
  have run: "normalizeM e cached s = Inr (e\<lparr>ew := ew (es ! am)\<rparr>, s')"
    using sn sc lp n e w1 unfolding zs_def es
    by (simp add: normalizeM_def deref_def am mc eam [unfolded es] setEdges_NodeAt_M s'_def)
  have s'c: "cn s' = c2" "ne (ut_nodes (mUniqueTable s') a) = es2" by (simp_all add: s'_def)
  have vam: "valueOf c2 (ew (es ! am)) = valueOf (cn s) (ew (es ! am))"
  proof -
    have "es1 ! am \<in> set (keep am (length es1) es1)" using am4 l1 by (intro keep_mem) simp
    then have "valueOf c2 (ew (es1 ! am)) = valueOf c1 (ew (es1 ! am))"
      using iv by (simp add: div_inv_def)
    then show ?thesis by (simp add: eam same_pool_vals [OF pc])
  qed
  have pn: "pivot_normalized (cn s) c2 es es2 am"
    unfolding pivot_normalized_def
  proof (intro conjI allI impI)
    show "length es2 = length es" using dn l1 by (simp add: div_done_def)
    fix i assume i: "i < length es"
    have d: "if i = am then es2 ! i = (es1 ! i)\<lparr>ew := ONE\<rparr>
            else if zs ! i then es2 ! i = zeroEdge
            else ep (es2 ! i) = ep (es1 ! i) \<and> interned c2 (ew (es2 ! i))
                 \<and> approx (CN_tol c1) (toComplex (valueOf c2 (ew (es2 ! i))))
                      (snap_one c1 (ew (es1 ! i)) / toComplex (valueOf c1 (ew (es1 ! am))))"
      using dn i l1 by (simp add: div_done_def)
    have sp: "snap_one c1 w = snap_one (cn s) w" for w
      by (rule snap_one_cong) (simp_all add: same_pool_vals [OF pc])
    have ei: "\<not> zs ! i \<Longrightarrow> es1 ! i = es ! i" using S(2) i by simp
    show "if i = am then es2 ! i = (es ! i)\<lparr>ew := ONE\<rparr>
         else if equalsZero (cn s) (ew (es ! i)) then es2 ! i = zeroEdge
         else ep (es2 ! i) = ep (es ! i)
              \<and> approx (CN_tol (cn s)) (toComplex (valueOf c2 (ew (es2 ! i))))
                   (snap_one (cn s) (ew (es ! i)) / toComplex (valueOf (cn s) (ew (es ! am))))"
      using d zq i ei eam by (auto simp: sp same_pool_vals [OF pc] split: if_splits)
  qed
  show ?thesis using run pu piv vam pn e by (auto simp: s'c)
qed

lemma sqrt_edge_vals:
  "valueOf (cn half_state) (ew sqrt_edge) = \<lparr>cv_r = SQRT2_2, cv_i = 0\<rparr>"
  "mag2 (cn half_state) (ew sqrt_edge) = SQRT2_2 * SQRT2_2"
  "\<not> equalsZero (cn half_state) (ew sqrt_edge)"
  "\<not> equalsOne (cn half_state) (ew sqrt_edge)"
proof -
  have v: "entry_val (cn half_state) (cr (ew sqrt_edge)) = SQRT2_2"
    "entry_val (cn half_state) (ci (ew sqrt_edge)) = 0"
    unfolding vnode_cn(2) entry_val_def half_pool_def ComplexTable_init_eq
    by (simp_all add: sqrt_edge_def getAlignedPointer_def isNegativePointer_def ComplexTable_fresh_def)
  have t: "CN_tol (cn half_state) = 1 / 10 ^ 13" using vnode_vals(5) by (simp add: vnode_cn)
  show "valueOf (cn half_state) (ew sqrt_edge) = \<lparr>cv_r = SQRT2_2, cv_i = 0\<rparr>"
    "mag2 (cn half_state) (ew sqrt_edge) = SQRT2_2 * SQRT2_2"
    by (simp_all add: valueOf_def mag2_def v)
  show "\<not> equalsZero (cn half_state) (ew sqrt_edge)"
    using sqrt_bounds by (simp add: equalsZero_def v t) (simp add: sqrt_edge_def ZERO_def)
  show "\<not> equalsOne (cn half_state) (ew sqrt_edge)"
    using sqrt_bounds by (simp add: equalsOne_def v t) (simp add: sqrt_edge_def ONE_def)
qed

lemma mnode_ready: "matrix_ready False (cn half_state) [half_edge, zeroEdge, zeroEdge, sqrt_edge]"
proof -
  have c: "cache_list [half_edge, zeroEdge, zeroEdge, sqrt_edge] = []"
    by (simp add: cache_weight_def half_edge_def sqrt_edge_def zeroEdge_def ZERO_def)
  have i: "interned (cn half_state) (ew half_edge)" "interned (cn half_state) (ew sqrt_edge)"
    by (simp_all add: interned_def vnode_cn pool_owned_def sqrt_edge_def half_edge_def half_pool_alloc)
  have l: "distinct (Cache_Avail (cn half_state))" "\<forall>q \<in> set (Cache_Avail (cn half_state)). \<exists>a. q = CacheEntry a"
    using lane_ok_init by (simp_all add: lane_ok_def)
  have "2 \<le> length (Cache_Avail (cn half_state))" by (simp add: example_Cache_Avail del: upt_rec_numeral)
  then show ?thesis unfolding matrix_ready_def lane_inv_def c using i l by simp
qed

text \<open>
Claim C2. The normalization of a matrix node under an edge of weight \<open>ONE\<close>, with a weight
  that is not zero among its four edges. The pivot is the one the claim describes
  (\<open>pivot_upto\<close>: the first edge that is not zero, replaced by a later edge only when that
  one is larger by more than the tolerance), so it is an edge that is not zero, larger than
  every non-zero edge before it and not smaller by more than the tolerance than any after
  it. The weight of the result is the weight of the pivot; in the node the pivot has the
  weight \<open>ONE\<close>, every edge that was zero within the tolerance is the zero edge, and the
  weight of every other edge is its old weight (taken as one where it is one within the
  tolerance) over the weight of the pivot, up to the tolerance of the lookup. This holds in
  both modes of the normalization.
\<close>

theorem normalizeM_divides_by_pivot:
  assumes "ep e = NodeAt a" and "ne (ut_nodes (mUniqueTable s) a) = es" and "length es = 4"
    and "ew e = ONE" and "pool_ok (cn_pool (cn s))" and "matrix_ready cached (cn s) es"
    and "\<exists>x \<in> set es. \<not> equalsZero (cn s) (ew x)"
  shows "\<exists>am r s'. normalizeM e cached s = Inr (r, s') \<and> pivot_upto (cn s) es 4 = Some am
           \<and> is_pivot (cn s) es am
           \<and> ep r = ep e \<and> ew r = ew (es ! am)
           \<and> valueOf (cn s') (ew r) = valueOf (cn s) (ew (es ! am))
           \<and> pivot_normalized (cn s) (cn s') es (ne (ut_nodes (mUniqueTable s') a)) am"
  using assms by (rule normalizeM_ok)

text \<open>
A matrix node with the weights 1/2, 0, 0 and \<open>SQRT2_2\<close>: the last edge takes the place of
  the first as the pivot, the result has the weight \<open>SQRT2_2\<close>, the last edge of the node
  gets the weight \<open>ONE\<close> and the first the weight 1/2 over \<open>SQRT2_2\<close>.
\<close>

theorem normalizeM_divides_by_pivot_witness:
  "\<exists>r s' es'. normalizeM mnode_edge False mnode_state = Inr (r, s')
      \<and> ew r = ew sqrt_edge \<and> ew r \<noteq> ONE
      \<and> ne (ut_nodes (mUniqueTable s') 0) = es' \<and> length es' = 4
      \<and> es' ! 3 = oneEdge \<and> es' ! 1 = zeroEdge \<and> es' ! 2 = zeroEdge \<and> ep (es' ! 0) = Terminal
      \<and> approx (1 / 10 ^ 13) (toComplex (valueOf (cn s') (ew (es' ! 0)))) (of_real (1 / 2 / SQRT2_2))"
proof -
  let ?es = "[half_edge, zeroEdge, zeroEdge, sqrt_edge]"
  note V = vnode_vals [unfolded vnode_cn(1)]
  note W = sqrt_edge_vals
  have c: "cn mnode_state = cn half_state" by (simp add: mnode_state_def)
  have e: "ep mnode_edge = NodeAt 0" "ew mnode_edge = ONE" by (simp_all add: mnode_edge_def)
  have n: "ne (ut_nodes (mUniqueTable mnode_state) 0) = ?es" by (simp add: mnode_state_def)
  have ok: "pool_ok (cn_pool (cn mnode_state))" using pool_ok_half by (simp add: c vnode_cn)
  have rdy: "matrix_ready False (cn mnode_state) ?es" using mnode_ready by (simp add: c)
  have nz: "\<exists>x \<in> set ?es. \<not> equalsZero (cn mnode_state) (ew x)" using V by (simp add: c)
  from normalizeM_divides_by_pivot [OF e(1) n _ e(2) ok rdy nz] obtain am r s' where
    R: "normalizeM mnode_edge False mnode_state = Inr (r, s')" "ew r = ew (?es ! am)"
    and p: "pivot_upto (cn half_state) ?es 4 = Some am"
    and pn: "pivot_normalized (cn half_state) (cn s') ?es (ne (ut_nodes (mUniqueTable s') 0)) am"
    by (auto simp: c)
  have z: "equalsZero (cn half_state) (ew zeroEdge)" by (simp add: equalsZero_def zeroEdge_def)
  have gt: "1 / 10 ^ 13 < SQRT2_2 * SQRT2_2 - 1 / 4"
  proof -
    have "7 / 10 * (7 / 10) < SQRT2_2 * SQRT2_2"
      using sqrt_bounds by (intro mult_strict_mono) simp_all
    then show ?thesis by simp
  qed
  have "pivot_upto (cn half_state) ?es (Suc (Suc (Suc (Suc 0)))) = Some 3"
    using gt by (simp add: V W z)
  then have am: "am = 3" using p by (simp add: numeral_eq_Suc)
  define es' where "es' = ne (ut_nodes (mUniqueTable s') 0)"
  note N = pn [unfolded pivot_normalized_def am, folded es'_def]
  have l: "length es' = 4" using N by simp
  have a: "(if i = 3 then es' ! i = (?es ! i)\<lparr>ew := ONE\<rparr>
            else if equalsZero (cn half_state) (ew (?es ! i)) then es' ! i = zeroEdge
            else ep (es' ! i) = ep (?es ! i)
                 \<and> approx (CN_tol (cn half_state)) (toComplex (valueOf (cn s') (ew (es' ! i))))
                      (snap_one (cn half_state) (ew (?es ! i)) / toComplex (valueOf (cn half_state) (ew (?es ! 3)))))" if "i < 4" for i
  proof -
    have "i < length ?es" using that by simp
    from conjunct2 [OF N, rule_format, OF this] show ?thesis .
  qed
  have e3: "es' ! 3 = oneEdge" using a [of 3] by (simp add: oneEdge_def sqrt_edge_def)
  have e1: "es' ! 1 = zeroEdge" using a [of 1] z by simp
  have e2: "es' ! 2 = zeroEdge" using a [of 2] z by simp
  have h1: "\<not> equalsOne (cn half_state) (ew half_edge)"
    using half_edge_vals V(5) by (simp add: equalsOne_def half_edge_def ONE_def)
  have e0: "ep (es' ! 0) = Terminal \<and> approx (1 / 10 ^ 13) (toComplex (valueOf (cn s') (ew (es' ! 0)))) (of_real (1 / 2 / SQRT2_2))"
  proof -
    have q: "snap_one (cn half_state) (ew half_edge) / toComplex (valueOf (cn half_state) (ew sqrt_edge))
               = of_real (1 / 2 / SQRT2_2)"
      by (simp add: snap_one_def h1 V(2) W(1) toComplex_def complex_eq_iff Complex_divide)
    have "ep (es' ! 0) = ep half_edge
        \<and> approx (CN_tol (cn half_state)) (toComplex (valueOf (cn s') (ew (es' ! 0))))
             (snap_one (cn half_state) (ew half_edge) / toComplex (valueOf (cn half_state) (ew sqrt_edge)))"
      using a [of 0] V(7) by simp
    then show ?thesis unfolding q V(5) by (simp add: half_edge_def)
  qed
  have r1: "ew r = ew sqrt_edge" using R(2) am by simp
  have r2: "ew sqrt_edge \<noteq> ONE" by (simp add: sqrt_edge_def ONE_def)
  show ?thesis using R(1) r1 r2 l e3 e1 e2 e0 by (simp add: es'_def)
qed

section \<open>Vector nodes in the unique table: the weights of a stored node\<close>

lemma normalizeV_rescale_frame:
  assumes "normalizeV_rescale e cached s zs es1 c1 am sm = Inr (r, s')" and "ep e = NodeAt a"
  shows "\<exists>es c. s' = s\<lparr>cn := c, vUniqueTable := (vUniqueTable s)\<lparr>ut_nodes :=
            (ut_nodes (vUniqueTable s))(a := (ut_nodes (vUniqueTable s) a)\<lparr>ne := es\<rparr>)\<rparr>\<rparr>"
  using assms
  by (auto simp: normalizeV_rescale_def Let_def setEdges_NodeAt bind_eq_Inr split: prod.splits if_splits)

lemma normalizeV_rescale_weight:
  assumes "normalizeV_rescale e cached s zs es1 c1 am sm = Inr (r, s')"
  shows "r = zeroEdge \<or> ew r = fst (normalizeV_parent cached (es1 ! am) sm c1)"
  using assms
  by (auto simp: normalizeV_rescale_def Let_def bind_eq_Inr split: prod.splits if_splits)

lemma normalizeV_frame:
  assumes "normalizeV e cached s = Inr (r, s')" and "ep e = NodeAt a" and "ep r = NodeAt a'"
  shows "\<exists>es c. s' = s\<lparr>cn := c, vUniqueTable := (vUniqueTable s)\<lparr>ut_nodes :=
            (ut_nodes (vUniqueTable s))(a := (ut_nodes (vUniqueTable s) a)\<lparr>ne := es\<rparr>)\<rparr>\<rparr>"
proof -
  obtain e0 e1 where n: "ne (ut_nodes (vUniqueTable s) a) = [e0, e1]"
    using assms(1,2)
    by (auto simp: normalizeV_def deref_def split: list.splits)
  define zs where "zs = [equalsZero (cn s) (ew e0), equalsZero (cn s) (ew e1)]"
  obtain es1 c1 where sn: "snapZeroEdges zs [e0, e1] (cn s) = (es1, c1)"
    by (cases "snapZeroEdges zs [e0, e1] (cn s)")
  obtain argmax ssum dv where sc: "scanV c1 zs es1 0 (None, 0, 0) = (argmax, ssum, dv)"
    by (cases "scanV c1 zs es1 0 (None, 0, 0)") auto
  show ?thesis
  proof (cases argmax)
    case None
    with assms n sn sc show ?thesis
      by (auto simp: normalizeV_def deref_def zs_def bind_eq_Inr zeroEdge_def split: if_splits)
  next
    case (Some am)
    with assms n sn sc have "normalizeV_rescale e cached s zs es1 c1 am (sqrt (ssum / dv)) = Inr (r, s')"
      by (simp add: normalizeV_def deref_def zs_def)
    then show ?thesis using assms(2) by (rule normalizeV_rescale_frame)
  qed
qed

lemma newNode_ok:
  assumes "ut_available (vUniqueTable s) = [] \<or> (\<exists>a rest. ut_available (vUniqueTable s) = NodeAt a # rest)"
  shows "\<exists>a s1. newNode Vector var edge s = Inr (\<lparr>ep = NodeAt a, ew = ONE\<rparr>, s1)
           \<and> cn s1 = cn s \<and> ne (ut_nodes (vUniqueTable s1) a) = edge \<and> nv (ut_nodes (vUniqueTable s1) a) = var
           \<and> ut_tables (vUniqueTable s1) = ut_tables (vUniqueTable s)
           \<and> ut_nvars (vUniqueTable s1) = ut_nvars (vUniqueTable s)
           \<and> (\<forall>b. b \<noteq> a \<longrightarrow> ut_nodes (vUniqueTable s1) b = ut_nodes (vUniqueTable s) b)"
  using assms
  by (auto simp: newNode_def getNode_def getUniqueTable_def setUniqueTable_def deref_def store_def Let_def)

lemma UniqueTable_search_ok:
  assumes "\<forall>p \<in> set ps. \<exists>b. p = NodeAt b"
  shows "\<exists>found c'. UniqueTable_search k ut es ps c = Inr (found, c')
           \<and> (\<forall>p. found = Some p \<longrightarrow> p \<in> set ps \<and> (\<exists>b. p = NodeAt b \<and> ne (ut_nodes ut b) = es))"
  using assms
proof (induction ps arbitrary: c)
  case Nil
  show ?case by simp
next
  case (Cons p ps)
  then obtain b where p: "p = NodeAt b" by auto
  show ?case
  proof (cases "es = ne (ut_nodes ut b)")
    case True
    then show ?thesis using p by (simp add: deref_def)
  next
    case False
    from Cons.IH [of "c + 1"] Cons.prems obtain found c' where
      "UniqueTable_search k ut es ps (c + 1) = Inr (found, c')"
      "\<forall>q. found = Some q \<longrightarrow> q \<in> set ps \<and> (\<exists>b. q = NodeAt b \<and> ne (ut_nodes ut b) = es)"
      by auto
    then show ?thesis using p False by (simp add: deref_def)
  qed
qed

lemma UniqueTable_lookup_ok:
  assumes e: "ep e = NodeAt a" and ch: "UniqueTable_chains_ok ut"
    and v: "nv (ut_nodes ut a) = var" "0 \<le> sint var" "nat (sint var) < ut_nvars ut"
  shows "\<exists>b ut'. UniqueTable_lookup k e keepNode ut = Inr (\<lparr>ep = NodeAt b, ew = ew e\<rparr>, ut')
           \<and> ut_nodes ut' = ut_nodes ut \<and> ne (ut_nodes ut b) = ne (ut_nodes ut a)
           \<and> NodeAt b \<in> set (ut_tables ut' (nat (sint var)) (UniqueTable_hash (ut_nodes ut a)))"
proof -
  let ?n = "ut_nodes ut a"
  let ?ut1 = "ut\<lparr>ut_lookups := ut_lookups ut + 1\<rparr>"
  let ?key = "UniqueTable_hash ?n"
  let ?v = "nat (sint var)"
  have nm: "var \<noteq> - 1" using v(2) by auto
  have "\<forall>p \<in> set (ut_tables ?ut1 ?v ?key). \<exists>b. p = NodeAt b"
    using ch unfolding UniqueTable_chains_ok_def by simp blast
  from UniqueTable_search_ok [OF this, of k ?ut1 "ne ?n" 0] obtain found c' where
    s: "UniqueTable_search k ?ut1 (ne ?n) (ut_tables ?ut1 ?v ?key) 0 = Inr (found, c')"
    and f: "\<forall>p. found = Some p \<longrightarrow> p \<in> set (ut_tables ?ut1 ?v ?key) \<and> (\<exists>b. p = NodeAt b \<and> ne (ut_nodes ?ut1 b) = ne ?n)"
    by blast
  have ee: "e = \<lparr>ep = NodeAt a, ew = ew e\<rparr>" using e by (cases e) simp
  show ?thesis
  proof (cases found)
    case None
    show ?thesis
      apply (rule exI [of _ a])
      using s None e v nm ee
      by (simp add: UniqueTable_lookup_def deref_def Let_def)
  next
    case (Some p)
    with f obtain b where b: "p = NodeAt b" "ne (ut_nodes ut b) = ne ?n" "p \<in> set (ut_tables ut ?v ?key)"
      by auto
    show ?thesis
      apply (rule exI [of _ b])
      using s Some e v nm b
      by (simp add: UniqueTable_lookup_def deref_def Let_def returnNode_def)
  qed
qed

lemma normalizeV_weight_noncached:
  assumes e: "ep e = NodeAt a" and n: "ne (ut_nodes (vUniqueTable s) a) = [e0, e1]"
    and nn: "ep e0 \<noteq> Null" "ep e1 \<noteq> Null"
    and ok: "pool_ok (cn_pool (cn s))" and rd: "weights_ready False (cn s) [e0, e1]"
    and am: "am = (if equalsZero (cn s) (ew e0) then 1 else 0)"
    and nz: "\<not> equalsZero (cn s) (ew ([e0, e1] ! am))"
    and run: "normalizeV e False s = Inr (r, s')"
  shows "r = zeroEdge \<or> ew r = fst (CN_lookupV
            (entry_val (cn s) (cr (ew ([e0, e1] ! am))) * vnorm_factor (cn s) ([e0, e1] ! am) ([e0, e1] ! (1 - am)))
            (entry_val (cn s) (ci (ew ([e0, e1] ! am))) * vnorm_factor (cn s) ([e0, e1] ! am) ([e0, e1] ! (1 - am)))
            (cn s))"
proof -
  define zs where "zs = [equalsZero (cn s) (ew e0), equalsZero (cn s) (ew e1)]"
  define es where "es = [e0, e1]"
  define q where "q = (am + 1) mod 2"
  have am2: "am < 2" "q < 2" "q \<noteq> am" "q = 1 - am" using am by (auto simp: q_def)
  have zam: "\<not> zs ! am" using nz am by (auto simp: zs_def)
  from rd have int: "\<forall>x \<in> set es. interned (cn s) (ew x)" by (simp add: weights_ready_def es_def)
  have zz: "\<forall>i < length es. zs ! i \<longrightarrow> ew (es ! i) = ZERO"
    using int interned_zero [OF ok] by (auto simp: es_def zs_def less_Suc_eq)
  obtain es1 c1 where sn: "snapZeroEdges zs es (cn s) = (es1, c1)"
    by (cases "snapZeroEdges zs es (cn s)")
  have lz: "length zs = length es" by (simp add: zs_def es_def)
  note S = snapZeroEdges_spec [OF lz sn]
  have c1: "c1 = cn s" using S zz by simp
  have l1: "length es1 = 2" using S by (simp add: es_def)
  have e1i: "es1 ! i = es ! i" if "i < 2" for i
    using S zz that by (auto simp: es_def)
  have "es1 = es" using l1 e1i by (intro nth_equalityI) (simp_all add: es_def)
  note sn = sn [unfolded this c1]
  have zsq: "zs ! q = equalsZero (cn s) (ew (es ! q))" using am2 by (auto simp: zs_def es_def q_def am)
  have tol: "0 < CN_tol (cn s)" using ok by (rule pool_ok_tol)
  define sm where "sm = vnorm_factor (cn s) (es ! am) (es ! q)"
  have dpos: "0 < mag2 (cn s) (ew (es ! am))" using nz tol by (intro mag2_pos) (simp_all add: es_def)
  have sc: "\<exists>ssum dv. scanV (cn s) zs es 0 (None, 0, 0) = (Some am, ssum, dv) \<and> sqrt (ssum / dv) = sm"
  proof (cases "equalsZero (cn s) (ew e0)")
    case True
    then have a1: "am = 1" "q = 0" using am by (simp_all add: q_def)
    have z: "zs ! 0" "\<not> zs ! 1" using True zam a1 by (simp_all add: zs_def)
    have "scanV (cn s) zs es 0 (None, 0, 0) = (Some 1, mag2 (cn s) (ew e1), mag2 (cn s) (ew e1))"
      using z nn by (simp add: zs_def es_def)
    then show ?thesis using z a1 dpos zsq True by (simp add: sm_def vnorm_factor_def es_def)
  next
    case False
    then have a0: "am = 0" "q = 1" using am by (simp_all add: q_def)
    have z: "\<not> zs ! 0" using False by (simp add: zs_def)
    have "scanV (cn s) zs es 0 (None, 0, 0) =
        (Some 0, mag2 (cn s) (ew e0) + (if zs ! 1 then 0 else mag2 (cn s) (ew e1)), mag2 (cn s) (ew e0))"
      using z nn by (simp add: zs_def es_def)
    then show ?thesis using a0 zsq by (auto simp: sm_def vnorm_factor_def es_def zs_def)
  qed
  then obtain ssum dv where sc: "scanV (cn s) zs es 0 (None, 0, 0) = (Some am, ssum, dv)" "sqrt (ssum / dv) = sm"
    by blast
  have unf: "normalizeV e False s = normalizeV_rescale e False s zs es (cn s) am sm"
    using sc e n sn unfolding zs_def es_def
    by (simp add: normalizeV_def deref_def)
  from normalizeV_rescale_weight [OF run [unfolded unf]]
  show ?thesis using am2(4) by (simp add: normalizeV_parent_def sm_def es_def)
qed

lemma makeVectorNode_ok:
  assumes tr: "table_ready (vUniqueTable s) var"
    and nn: "ep e0 \<noteq> Null" "ep e1 \<noteq> Null"
    and ok: "pool_ok (cn_pool (cn s))" and rd: "weights_ready cached (cn s) [e0, e1]"
    and am: "am = (if equalsZero (cn s) (ew e0) then 1 else 0)"
    and nz: "\<not> equalsZero (cn s) (ew ([e0, e1] ! am))"
  shows "\<exists>l s' b es'. makeVectorNode var [e0, e1] cached s = Inr (l, s')
           \<and> ep l = NodeAt b \<and> stored (vUniqueTable s') var b
           \<and> ne (ut_nodes (vUniqueTable s') b) = es' \<and> length es' = 2
           \<and> pool_ok (cn_pool (cn s')) \<and> pool_extends (cn_pool (cn s)) (cn_pool (cn s'))
           \<and> (\<not> cached \<longrightarrow> ew l = fst (CN_lookupV
                (entry_val (cn s) (cr (ew ([e0, e1] ! am))) * vnorm_factor (cn s) ([e0, e1] ! am) ([e0, e1] ! (1 - am)))
                (entry_val (cn s) (ci (ew ([e0, e1] ! am))) * vnorm_factor (cn s) ([e0, e1] ! am) ([e0, e1] ! (1 - am)))
                (cn s)))
           \<and> 1 \<le> vnorm_factor (cn s) ([e0, e1] ! am) ([e0, e1] ! (1 - am))
           \<and> approx (CN_tol (cn s)) (toComplex (valueOf (cn s') (ew l)))
                (toComplex (valueOf (cn s) (ew ([e0, e1] ! am)))
                   * of_real (vnorm_factor (cn s) ([e0, e1] ! am) ([e0, e1] ! (1 - am))))
           \<and> ci (ew (es' ! am)) = (ZeroEntry, False)
           \<and> \<bar>entry_val (cn s') (cr (ew (es' ! am)))
                 - 1 / vnorm_factor (cn s) ([e0, e1] ! am) ([e0, e1] ! (1 - am))\<bar> < CN_tol (cn s)
           \<and> (if equalsZero (cn s) (ew ([e0, e1] ! (1 - am))) then ew (es' ! (1 - am)) = ZERO
               else approx (CN_tol (cn s)) (toComplex (valueOf (cn s') (ew (es' ! (1 - am)))))
                       (toComplex (valueOf (cn s) (ew ([e0, e1] ! (1 - am))))
                          / toComplex (valueOf (cn s') (ew l))))"
proof -
  have av: "ut_available (vUniqueTable s) = [] \<or> (\<exists>a rest. ut_available (vUniqueTable s) = NodeAt a # rest)"
    and ch: "UniqueTable_chains_ok (vUniqueTable s)"
    and v: "0 \<le> sint var" "nat (sint var) < ut_nvars (vUniqueTable s)"
    using tr by (simp_all add: table_ready_def)
  have nm: "var \<noteq> - 1" using v(1) by auto
  from newNode_ok [OF av, of var "[e0, e1]"] obtain a s1 where
    N: "newNode Vector var [e0, e1] s = Inr (\<lparr>ep = NodeAt a, ew = ONE\<rparr>, s1)"
    and c1: "cn s1 = cn s" and n1: "ne (ut_nodes (vUniqueTable s1) a) = [e0, e1]"
    and v1: "nv (ut_nodes (vUniqueTable s1) a) = var"
    and t1: "ut_tables (vUniqueTable s1) = ut_tables (vUniqueTable s)"
      "ut_nvars (vUniqueTable s1) = ut_nvars (vUniqueTable s)"
    and o1: "\<forall>b. b \<noteq> a \<longrightarrow> ut_nodes (vUniqueTable s1) b = ut_nodes (vUniqueTable s) b"
    by blast
  let ?e = "\<lparr>ep = NodeAt a, ew = ONE\<rparr>"
  have ea: "ep ?e = NodeAt a" by simp
  note A = ok [folded c1] rd [folded c1] am [folded c1] nz [folded c1]
  from normalizeV_ok [OF ea n1 nn A] obtain r s2 es' where
    R: "normalizeV ?e cached s1 = Inr (r, s2)" and r: "ep r = NodeAt a"
    and es': "ne (ut_nodes (vUniqueTable s2) a) = es'" "length es' = 2"
    and G: "pool_ok (cn_pool (cn s2))" "pool_extends (cn_pool (cn s1)) (cn_pool (cn s2))"
      "1 \<le> vnorm_factor (cn s1) ([e0, e1] ! am) ([e0, e1] ! (1 - am))"
      "approx (CN_tol (cn s1)) (toComplex (valueOf (cn s2) (ew r)))
                (toComplex (valueOf (cn s1) (ew ([e0, e1] ! am)))
                   * of_real (vnorm_factor (cn s1) ([e0, e1] ! am) ([e0, e1] ! (1 - am))))"
      "ci (ew (es' ! am)) = (ZeroEntry, False)"
      "\<bar>entry_val (cn s2) (cr (ew (es' ! am)))
                 - 1 / vnorm_factor (cn s1) ([e0, e1] ! am) ([e0, e1] ! (1 - am))\<bar> < CN_tol (cn s1)"
      "if equalsZero (cn s1) (ew ([e0, e1] ! (1 - am))) then ew (es' ! (1 - am)) = ZERO
               else approx (CN_tol (cn s1)) (toComplex (valueOf (cn s2) (ew (es' ! (1 - am)))))
                       (toComplex (valueOf (cn s1) (ew ([e0, e1] ! (1 - am))))
                          / toComplex (valueOf (cn s2) (ew r)))"
    by (auto simp del: One_nat_def)
  from normalizeV_frame [OF R ea r] obtain es c where
    s2: "s2 = s1\<lparr>cn := c, vUniqueTable := (vUniqueTable s1)\<lparr>ut_nodes :=
            (ut_nodes (vUniqueTable s1))(a := (ut_nodes (vUniqueTable s1) a)\<lparr>ne := es\<rparr>)\<rparr>\<rparr>"
    by blast
  have ch2: "UniqueTable_chains_ok (vUniqueTable s2)"
    unfolding UniqueTable_chains_ok_def
  proof (intro allI ballI)
    fix v key p assume "p \<in> set (ut_tables (vUniqueTable s2) v key)"
    then have "p \<in> set (ut_tables (vUniqueTable s) v key)" by (simp add: s2 t1)
    with ch obtain x where x: "p = NodeAt x" "nv (ut_nodes (vUniqueTable s) x) \<noteq> - 1"
      unfolding UniqueTable_chains_ok_def by blast
    have "nv (ut_nodes (vUniqueTable s2) x) \<noteq> - 1"
      using x(2) o1 v1 nm by (cases "x = a") (simp_all add: s2)
    with x(1) show "\<exists>a. p = NodeAt a \<and> nv (ut_nodes (vUniqueTable s2) a) \<noteq> - 1" by blast
  qed
  have v2: "nv (ut_nodes (vUniqueTable s2) a) = var" "nat (sint var) < ut_nvars (vUniqueTable s2)"
    using v1 v(2) t1 by (simp_all add: s2)
  from UniqueTable_lookup_ok [OF r ch2 v2(1) v(1) v2(2), of Vector False] obtain b ut' where
    L: "UniqueTable_lookup Vector r False (vUniqueTable s2) = Inr (\<lparr>ep = NodeAt b, ew = ew r\<rparr>, ut')"
    and L2: "ut_nodes ut' = ut_nodes (vUniqueTable s2)"
      "ne (ut_nodes (vUniqueTable s2) b) = ne (ut_nodes (vUniqueTable s2) a)"
      "NodeAt b \<in> set (ut_tables ut' (nat (sint var)) (UniqueTable_hash (ut_nodes (vUniqueTable s2) a)))"
    by blast
  define l where "l = \<lparr>ep = NodeAt b, ew = ew r\<rparr>"
  define s' where "s' = s2\<lparr>vUniqueTable := ut'\<rparr>"
  have run: "makeVectorNode var [e0, e1] cached s = Inr (l, s')"
    using N R L by (simp add: makeVectorNode_def lookupNode_def getUniqueTable_def setUniqueTable_def l_def s'_def)
  have st: "stored (vUniqueTable s') var b" using L2(3) by (auto simp: stored_def s'_def)
  have ne': "ne (ut_nodes (vUniqueTable s') b) = es'" using L2(1,2) es' by (simp add: s'_def)
  have cs: "cn s' = cn s2" by (simp add: s'_def)
  have w: "\<not> cached \<longrightarrow> ew l = fst (CN_lookupV
                (entry_val (cn s) (cr (ew ([e0, e1] ! am))) * vnorm_factor (cn s) ([e0, e1] ! am) ([e0, e1] ! (1 - am)))
                (entry_val (cn s) (ci (ew ([e0, e1] ! am))) * vnorm_factor (cn s) ([e0, e1] ! am) ([e0, e1] ! (1 - am)))
                (cn s))"
  proof
    assume nc: "\<not> cached"
    have "r \<noteq> zeroEdge" using r by (auto simp: zeroEdge_def)
    with normalizeV_weight_noncached [OF ea n1 nn A(1) A(2) [unfolded nc [THEN eq_False [THEN iffD2]]] A(3,4) R [unfolded nc [THEN eq_False [THEN iffD2]]]]
    show "ew l = fst (CN_lookupV
                (entry_val (cn s) (cr (ew ([e0, e1] ! am))) * vnorm_factor (cn s) ([e0, e1] ! am) ([e0, e1] ! (1 - am)))
                (entry_val (cn s) (ci (ew ([e0, e1] ! am))) * vnorm_factor (cn s) ([e0, e1] ! am) ([e0, e1] ! (1 - am)))
                (cn s))"
      by (simp add: c1 l_def)
  qed
  show ?thesis
    apply (rule exI [of _ l], rule exI [of _ s'], rule exI [of _ b], rule exI [of _ es'])
    using run st ne' es'(2) G w unfolding cs c1
    by (auto simp: l_def split: if_splits)
qed

lemma over_pool_fields:
  "TOLERANCE over_pool = 1 / 10 ^ 13"
  "ctab_chunkIt over_pool = 6" "ctab_available over_pool = []"
  "ctab_table over_pool 32 = [PoolEntry 2]"
  "val (ctab_entries over_pool (PoolEntry 2)) = near_p"
  "val (ctab_entries over_pool (PoolEntry 3)) = 1 / 10 ^ 9"
  "val (ctab_entries over_pool (PoolEntry 4)) = 6 / 10 ^ 4"
  "val (ctab_entries over_pool (PoolEntry 5)) = 8 / 10 ^ 4"
  "val (ctab_entries over_pool ZeroEntry) = 0"
  unfolding over_pool_def near_p_def ComplexTable_init_eq
  by (simp_all add: ComplexTable_lookup_def ComplexTable_hash_def MASK_def NBUCKET_def Let_def
      ComplexTable_insert_new_def getEntry_def INITIAL_ALLOCATION_SIZE_def ComplexTable_fresh_def)

lemma lookup_keeps_ok:
  assumes "pool_ok t" and "0 \<le> v"
  shows "pool_ok (snd (ComplexTable_lookup v t))"
  using ComplexTable_lookup_spec_ok [OF prod.collapse [symmetric] assms] by simp

lemma pool_ok_over: "pool_ok over_pool"
  unfolding over_pool_def
  by (intro lookup_keeps_ok pool_ok_init) (simp_all add: near_p_def)

lemma over_lookup:
  assumes "1 / 1000 \<le> h" and "h < 1 / 1000 + 1 / 10 ^ 15"
  shows "fst (ComplexTable_lookup h over_pool) = PoolEntry 2"
proof -
  have "\<lfloor>h * 32767\<rfloor> = 32" using assms by (intro floor_unique) simp_all
  then have k: "ComplexTable_hash h = 32" by (simp add: ComplexTable_hash_def MASK_def NBUCKET_def)
  have t: "\<not> \<bar>h\<bar> < 1 / 10 ^ 13" "\<not> \<bar>h - 1\<bar> < 1 / 10 ^ 13" "\<bar>near_p - h\<bar> < 1 / 10 ^ 13"
    using assms by (simp_all add: near_p_def)
  show ?thesis
    using t by (simp add: ComplexTable_lookup_def k over_pool_fields)
qed

lemma cr_CN_lookupV: "cr (fst (CN_lookupV r i c)) = fst (lookupVal r c)"
  by (simp add: CN_lookupV_def split: prod.splits)

lemma over_cn: "cn_pool (cn over_state) = over_pool" "CN_tol (cn over_state) = 1 / 10 ^ 13"
  "vUniqueTable over_state = UniqueTable_init 1"
  by (simp_all add: over_state_def CN_tol_def over_pool_fields Package_init_def)

lemma over_vals:
  "entry_val (cn over_state) (cr (ew over_e0)) = 1 / 10 ^ 9"
  "entry_val (cn over_state) (ci (ew over_e0)) = 0"
  "entry_val (cn over_state) (cr (ew over_e1)) = 6 / 10 ^ 4"
  "entry_val (cn over_state) (ci (ew over_e1)) = 8 / 10 ^ 4"
  by (simp_all add: entry_val_def over_cn over_pool_fields over_e0_def over_e1_def
      getAlignedPointer_def isNegativePointer_def)

lemma over_nonzero:
  "\<not> equalsZero (cn over_state) (ew over_e0)" "\<not> equalsZero (cn over_state) (ew over_e1)"
  unfolding equalsZero_def over_vals over_cn
  by (simp_all add: over_e0_def over_e1_def ZERO_def)

lemma over_factor: "vnorm_factor (cn over_state) over_e0 over_e1 = sqrt 1000000000001"
  unfolding vnorm_factor_def mag2_def over_vals using over_nonzero by simp

lemma sqrt_over: "10 ^ 6 \<le> sqrt 1000000000001" "sqrt 1000000000001 < 10 ^ 6 + 1 / 10 ^ 6"
proof -
  show "10 ^ 6 \<le> sqrt 1000000000001" by (rule real_le_rsqrt) simp
  show "sqrt 1000000000001 < 10 ^ 6 + 1 / 10 ^ 6"
    by (rule real_less_lsqrt) (simp_all add: power2_eq_square)
qed

lemma over_ready: "weights_ready False (cn over_state) [over_e0, over_e1]"
proof -
  have "lane_ok (cn over_state)"
    by (simp add: lane_ok_def over_state_def ComplexNumbers_init_def distinct_map inj_on_def image_iff
        del: upt_rec_numeral)
  moreover have "2 \<le> length (Cache_Avail (cn over_state))"
    by (simp add: over_state_def ComplexNumbers_init_def CACHE_SIZE_def del: upt_rec_numeral)
  ultimately show ?thesis
    by (simp add: weights_ready_def interned_def over_cn pool_owned_def over_e0_def over_e1_def
        over_pool_fields)
qed

lemma over_table: "table_ready (vUniqueTable over_state) 0"
  by (simp add: table_ready_def over_cn UniqueTable_init_def UniqueTable_chains_ok_def)

text \<open>
Counterexample to claim C3. A package whose pool holds, from earlier lookups, the number
  \<open>0.001 - 9e-14\<close> and the weights \<open>1e-9\<close> and \<open>0.0006 + 0.0008 i\<close>. The node built from
  the two terminal edges of these weights is stored in the unique table; the weight of
  the returned edge, \<open>sqrt (1e-6 + 1e-18)\<close>, is looked up in the pool and comes back as the
  entry \<open>0.001 - 9e-14\<close>, within the tolerance below it. Neither edge of the stored node has
  the weight \<open>ONE\<close> (the pivot weight is about \<open>1e-6\<close>), and the weight of the second
  edge, about \<open>(0.6 + 0.8 i) (1 + 9e-11)\<close>, has a magnitude above \<open>1 + tol\<close>.
\<close>

theorem stored_vector_node_not_normalized:
  "\<exists>l s' b f0 f1. makeVectorNode 0 [over_e0, over_e1] False over_state = Inr (l, s')
      \<and> ep l = NodeAt b \<and> stored (vUniqueTable s') 0 b
      \<and> ne (ut_nodes (vUniqueTable s') b) = [f0, f1]
      \<and> ew f0 \<noteq> ONE \<and> ew f1 \<noteq> ONE
      \<and> (1 + CN_tol (cn s'))\<^sup>2 < mag2 (cn s') (ew f1)"
proof -
  let ?F = "sqrt 1000000000001"
  have nn: "ep over_e0 \<noteq> Null" "ep over_e1 \<noteq> Null" by (simp_all add: over_e0_def over_e1_def)
  have ok: "pool_ok (cn_pool (cn over_state))" using pool_ok_over by (simp add: over_cn)
  have am: "0 = (if equalsZero (cn over_state) (ew over_e0) then 1 else (0::nat))"
    using over_nonzero by simp
  have nz: "\<not> equalsZero (cn over_state) (ew ([over_e0, over_e1] ! 0))" using over_nonzero by simp
  have i0: "[over_e0, over_e1] ! 0 = over_e0" "[over_e0, over_e1] ! (1 - 0) = over_e1" by simp_all
  note M = makeVectorNode_ok [OF over_table nn ok over_ready am nz, unfolded i0 over_factor over_vals over_cn]
  from M obtain l s' b es' where
    R: "makeVectorNode 0 [over_e0, over_e1] False over_state = Inr (l, s')" "ep l = NodeAt b"
      "stored (vUniqueTable s') 0 b" "ne (ut_nodes (vUniqueTable s') b) = es'" "length es' = 2"
    and ok': "pool_ok (cn_pool (cn s'))" and ext: "pool_extends over_pool (cn_pool (cn s'))"
    and w0: "\<not> False \<longrightarrow> ew l = fst (CN_lookupV (1 / 10 ^ 9 * ?F) (0 * ?F) (cn over_state))"
    and pv: "\<bar>entry_val (cn s') (cr (ew (es' ! 0))) - 1 / ?F\<bar> < 1 / 10 ^ 13"
    and ot0: "if equalsZero (cn over_state) (ew over_e1) then ew (es' ! (1 - 0)) = ZERO
               else approx (1 / 10 ^ 13) (toComplex (valueOf (cn s') (ew (es' ! (1 - 0)))))
                       (toComplex (valueOf (cn over_state) (ew over_e1))
                          / toComplex (valueOf (cn s') (ew l)))"
    by blast
  have w: "ew l = fst (CN_lookupV (1 / 10 ^ 9 * ?F) 0 (cn over_state))" using w0 by simp
  have ot: "approx (1 / 10 ^ 13) (toComplex (valueOf (cn s') (ew (es' ! 1))))
                (Complex (6 / 10 ^ 4) (8 / 10 ^ 4) / toComplex (valueOf (cn s') (ew l)))"
    using ot0 over_nonzero by (simp add: valueOf_def [of "cn over_state"] over_vals toComplex_def)
  have es: "es' = [es' ! 0, es' ! 1]" using R(5) by (rule list2)
  have tol: "CN_tol (cn s') = 1 / 10 ^ 13" using ext by (simp add: pool_extends_def CN_tol_def over_pool_fields)
  define h where "h = 1 / 10 ^ 9 * ?F"
  have hb: "1 / 1000 \<le> h" "h < 1 / 1000 + 1 / 10 ^ 15" using sqrt_over by (simp_all add: h_def)
  have "cr (ew l) = (PoolEntry 2, False)"
    unfolding w cr_CN_lookupV h_def [symmetric]
    using hb over_lookup [OF hb] by (simp add: lookupVal_def over_cn case_prod_beta)
  moreover have "ci (ew l) = (ZeroEntry, False)"
    unfolding w by (rule CN_lookupV_real [OF prod.collapse [symmetric] ok])
  moreover have "pool_owned over_pool (PoolEntry 2)" by (simp add: pool_owned_def over_pool_fields)
  then have "val (ctab_entries (cn_pool (cn s')) (PoolEntry 2)) = near_p"
    using ext by (simp add: pool_extends_def over_pool_fields)
  moreover have "val (ctab_entries (cn_pool (cn s')) ZeroEntry) = 0" using ok' by (simp add: pool_ok_def)
  ultimately have lv: "toComplex (valueOf (cn s') (ew l)) = of_real near_p"
    by (simp add: toComplex_def valueOf_def entry_val_def getAlignedPointer_def isNegativePointer_def
        complex_eq_iff)
  define x where "x = entry_val (cn s') (cr (ew (es' ! 1)))"
  define y where "y = entry_val (cn s') (ci (ew (es' ! 1)))"
  from ot have "\<bar>x - 6 / 10 ^ 4 / near_p\<bar> < 1 / 10 ^ 13" "\<bar>y - 8 / 10 ^ 4 / near_p\<bar> < 1 / 10 ^ 13"
    unfolding lv by (simp_all add: approx_def toComplex_def valueOf_def x_def y_def)
  moreover have "6 / 10 + 5 / 10 ^ 11 < 6 / 10 ^ 4 / near_p - 1 / 10 ^ 13"
    "8 / 10 + 7 / 10 ^ 11 < 8 / 10 ^ 4 / near_p - 1 / 10 ^ 13" "6 / 10 ^ 4 / near_p < 7 / 10" "(1::real) / 10 ^ 13 \<le> 1 / 100"
    by (simp_all add: near_p_def)
  ultimately have xy: "6 / 10 + 5 / 10 ^ 11 < x" "8 / 10 + 7 / 10 ^ 11 < y" "x < 3 / 4" by linarith+
  have "(6 / 10 + 5 / 10 ^ 11) * (6 / 10 + 5 / 10 ^ 11) < x * x"
    using xy(1) by (intro mult_strict_mono) simp_all
  moreover have "(8 / 10 + 7 / 10 ^ 11) * (8 / 10 + 7 / 10 ^ 11) < y * y"
    using xy(2) by (intro mult_strict_mono) simp_all
  moreover have "(1 + 1 / 10 ^ 13)\<^sup>2 < (6 / 10 + 5 / 10 ^ 11) * (6 / 10 + 5 / 10 ^ 11)
      + (8 / 10 + 7 / 10 ^ 11) * (8 / 10 + 7 / 10 ^ 11 :: real)"
    by (simp add: power2_eq_square)
  ultimately have big: "(1 + CN_tol (cn s'))\<^sup>2 < mag2 (cn s') (ew (es' ! 1))"
    unfolding tol mag2_def x_def [symmetric] y_def [symmetric] by linarith
  have n1: "ew (es' ! 1) \<noteq> ONE" using xy(3) one_value [OF ok'] by (auto simp: x_def)
  have "1 \<le> ?F" using sqrt_over(1) by simp
  then have "1 / ?F \<le> 1 / 10 ^ 6" using sqrt_over(1) by (intro divide_left_mono) simp_all
  moreover have "(1::real) / 10 ^ 6 + 1 / 10 ^ 13 < 1 / 2" by simp
  ultimately have "entry_val (cn s') (cr (ew (es' ! 0))) < 1 / 2" using pv by linarith
  then have n0: "ew (es' ! 0) \<noteq> ONE" using one_value [OF ok'] by auto
  from R(1-4) es n0 n1 big show ?thesis by metis
qed

text \<open>
Claim C3, as the code has it. A vector node built by \<open>makeDDNode\<close> from two children of
  which one at least is not zero is normalized and then stored in the unique table. The
  pivot is the first edge that is not zero, and the node is scaled to norm one: with \<open>f\<close>
  the square root of the sum of the squared magnitudes of the non-zero weights over the
  squared magnitude of the pivot (so \<open>f \<ge> 1\<close>), the weight of the returned edge is within
  the tolerance of the weight of the pivot times \<open>f\<close>, the weight of the pivot in the stored
  node is the real number \<open>1 / f\<close> of the pool, at most 1 within the tolerance, and the
  weight of the other edge is within the tolerance of its old weight divided by the weight
  of the returned edge (it stays \<open>ZERO\<close> if it was zero). This holds in both modes of
  \<open>makeDDNode\<close>.
\<close>

theorem makeVectorNode_stored_weights:
  assumes "table_ready (vUniqueTable s) var"
    and "ep e0 \<noteq> Null" and "ep e1 \<noteq> Null"
    and "pool_ok (cn_pool (cn s))" and "weights_ready cached (cn s) [e0, e1]"
    and "am = (if equalsZero (cn s) (ew e0) then 1 else 0)"
    and "\<not> equalsZero (cn s) (ew ([e0, e1] ! am))"
  shows "\<exists>l s' b es'. makeVectorNode var [e0, e1] cached s = Inr (l, s')
           \<and> ep l = NodeAt b \<and> stored (vUniqueTable s') var b
           \<and> ne (ut_nodes (vUniqueTable s') b) = es' \<and> length es' = 2
           \<and> 1 \<le> vnorm_factor (cn s) ([e0, e1] ! am) ([e0, e1] ! (1 - am))
           \<and> approx (CN_tol (cn s)) (toComplex (valueOf (cn s') (ew l)))
                (toComplex (valueOf (cn s) (ew ([e0, e1] ! am)))
                   * of_real (vnorm_factor (cn s) ([e0, e1] ! am) ([e0, e1] ! (1 - am))))
           \<and> ci (ew (es' ! am)) = (ZeroEntry, False)
           \<and> \<bar>entry_val (cn s') (cr (ew (es' ! am)))
                 - 1 / vnorm_factor (cn s) ([e0, e1] ! am) ([e0, e1] ! (1 - am))\<bar> < CN_tol (cn s)
           \<and> entry_val (cn s') (cr (ew (es' ! am))) < 1 + CN_tol (cn s)
           \<and> (if equalsZero (cn s) (ew ([e0, e1] ! (1 - am))) then ew (es' ! (1 - am)) = ZERO
               else approx (CN_tol (cn s)) (toComplex (valueOf (cn s') (ew (es' ! (1 - am)))))
                       (toComplex (valueOf (cn s) (ew ([e0, e1] ! (1 - am))))
                          / toComplex (valueOf (cn s') (ew l))))"
proof -
  from makeVectorNode_ok [OF assms] obtain l s' b es' where
    R: "makeVectorNode var [e0, e1] cached s = Inr (l, s')" "ep l = NodeAt b"
      "stored (vUniqueTable s') var b" "ne (ut_nodes (vUniqueTable s') b) = es'" "length es' = 2"
    and f: "1 \<le> vnorm_factor (cn s) ([e0, e1] ! am) ([e0, e1] ! (1 - am))"
    and ap: "approx (CN_tol (cn s)) (toComplex (valueOf (cn s') (ew l)))
                (toComplex (valueOf (cn s) (ew ([e0, e1] ! am)))
                   * of_real (vnorm_factor (cn s) ([e0, e1] ! am) ([e0, e1] ! (1 - am))))"
    and pv: "ci (ew (es' ! am)) = (ZeroEntry, False)"
      "\<bar>entry_val (cn s') (cr (ew (es' ! am)))
                 - 1 / vnorm_factor (cn s) ([e0, e1] ! am) ([e0, e1] ! (1 - am))\<bar> < CN_tol (cn s)"
    and ot: "if equalsZero (cn s) (ew ([e0, e1] ! (1 - am))) then ew (es' ! (1 - am)) = ZERO
               else approx (CN_tol (cn s)) (toComplex (valueOf (cn s') (ew (es' ! (1 - am)))))
                       (toComplex (valueOf (cn s) (ew ([e0, e1] ! (1 - am))))
                          / toComplex (valueOf (cn s') (ew l)))"
    by blast
  from f have "1 / vnorm_factor (cn s) ([e0, e1] ! am) ([e0, e1] ! (1 - am)) \<le> 1" by simp
  with pv(2) have "entry_val (cn s') (cr (ew (es' ! am))) < 1 + CN_tol (cn s)" by linarith
  with R f ap pv ot show ?thesis by blast
qed

lemma half_table: "table_ready (vUniqueTable half_state) 0"
  by (simp add: table_ready_def half_state_def Package_init_def UniqueTable_init_def
      UniqueTable_chains_ok_def)

theorem makeVectorNode_stored_weights_witness:
  "\<exists>l s' b es'. makeVectorNode 0 [oneEdge, half_edge] False half_state = Inr (l, s')
      \<and> ep l = NodeAt b \<and> stored (vUniqueTable s') 0 b
      \<and> ne (ut_nodes (vUniqueTable s') b) = es' \<and> length es' = 2
      \<and> \<bar>entry_val (cn s') (cr (ew (es' ! 0))) - 1 / sqrt (5 / 4)\<bar> < 1 / 10 ^ 13
      \<and> entry_val (cn s') (cr (ew (es' ! 0))) < 1 + 1 / 10 ^ 13
      \<and> approx (1 / 10 ^ 13) (toComplex (valueOf (cn s') (ew (es' ! 1))))
           (Complex (1 / 2) 0 / toComplex (valueOf (cn s') (ew l)))"
proof -
  have nn: "ep oneEdge \<noteq> Null" "ep half_edge \<noteq> Null" by (simp_all add: oneEdge_def half_edge_def)
  have ok: "pool_ok (cn_pool (cn half_state))" using pool_ok_half by (simp add: vnode_cn)
  note V = vnode_vals [unfolded vnode_cn(1)]
  have am: "0 = (if equalsZero (cn half_state) (ew oneEdge) then 1 else (0::nat))"
    using V by simp
  have nz: "\<not> equalsZero (cn half_state) (ew ([oneEdge, half_edge] ! 0))" using V by simp
  from makeVectorNode_stored_weights [OF half_table nn ok vnode_ready [unfolded vnode_cn(1)] am nz]
  show ?thesis
    by (simp add: V vnode_factor [unfolded vnode_cn(1)] toComplex_def) blast
qed

section \<open>Compute tables: the keys of the seven tables\<close>






























































end
